(* ===== verification/Kernel_Prelude.thy ===== *)
theory Kernel_Prelude
  imports Main "HOL-Library.Word"
begin

text \<open>
  The prelude of the development: the C integer types of the modules as words, the outcome of
  a handler (it returns, it never comes back, or it makes a faulty memory access), error
  numbers, memory blocks with checked access, and the interface of the kernel's
  \<open>copy_to_user\<close>/\<open>copy_from_user\<close>, which every driver of the repository relies on.
\<close>

named_theorems kmem \<open>checked loads and stores of memory blocks\<close>
named_theorems kword \<open>conversions between the C integer types\<close>

section \<open>C integers and error numbers\<close>

type_synonym byte = "8 word"
type_synonym u32 = "32 word"
type_synonym u64 = "64 word"
type_synonym addr = nat

lemma unat_ucast_64_32 [kword]: "unat (ucast (x :: u64) :: u32) = unat x mod 2 ^ 32"
  by (simp add: unsigned_ucast_eq take_bit_eq_mod)

lemma unat_ucast_32_64 [kword]: "unat (ucast (x :: u32) :: u64) = unat x"
proof -
  have "unat x < 2 ^ 64" using unsigned_less [of x, where ?'a = nat] by simp
  then show ?thesis by (simp add: unsigned_ucast_eq take_bit_eq_mod)
qed

lemma sint_small_u32 [kword]:
  assumes "unat (x :: u32) < 2 ^ 31"
  shows "sint x = int (unat x)"
proof -
  have "int (unat x) < int (2 ^ 31)" using assms by (simp only: of_nat_less_iff)
  then have "uint x < 2 ^ 31" by simp
  then have "signed_take_bit 31 (uint x) = uint x"
    by (intro signed_take_bit_int_eq_self) (auto intro: order_trans [of _ 0])
  then show ?thesis by (simp add: sint_uint)
qed

lemma sint_small_u64 [kword]:
  assumes "unat (x :: u64) < 2 ^ 63"
  shows "sint x = int (unat x)"
proof -
  have "int (unat x) < int (2 ^ 63)" using assms by (simp only: of_nat_less_iff)
  then have "uint x < 2 ^ 63" by simp
  then have "signed_take_bit 63 (uint x) = uint x"
    by (intro signed_take_bit_int_eq_self) (auto intro: order_trans [of _ 0])
  then show ?thesis by (simp add: sint_uint)
qed

lemma uint_sint_u64:
  assumes "0 \<le> sint (x :: u64)"
  shows "uint x = sint x"
proof -
  have "sint x < 2 ^ 64" using sint_lt [of x] by simp
  with assms show ?thesis by (simp add: uint_sint take_bit_int_eq_self)
qed

lemma unat_scast_nonneg:
  assumes "0 \<le> sint (x :: u32)"
  shows "unat (scast x :: u64) = nat (sint x)"
proof -
  have "sint x < 2 ^ 64" using sint_lt [of x] by simp
  have "uint (scast x :: u64) = sint x mod 2 ^ 64"
    by (simp only: scast_eq uint_word_of_int) simp
  also have "\<dots> = sint x" by (rule mod_pos_pos_trivial [OF assms \<open>sint x < 2 ^ 64\<close>])
  finally have "nat (uint (scast x :: u64)) = nat (sint x)" by (rule arg_cong)
  then show ?thesis by (simp only: nat_uint_eq)
qed

lemma sint_nonneg_u32:
  assumes "0 \<le> sint (x :: u32)"
  shows "sint x = int (unat x)"
proof -
  have "sint x < 2 ^ 32" using sint_lt [of x] by simp
  with assms have "uint x = sint x" by (simp add: uint_sint take_bit_int_eq_self)
  then show ?thesis by simp
qed

lemma unat_of_nat_u64: "n < 2 ^ 64 \<Longrightarrow> unat (of_nat n :: u64) = n"
  by (simp add: unat_of_nat)

lemma unat_of_nat_u32: "n < 2 ^ 32 \<Longrightarrow> unat (of_nat n :: u32) = n"
  by (simp add: unat_of_nat)

lemma signed_wrap_63:
  fixes a b :: int
  assumes "0 \<le> a" "a \<le> 4096" "- (2 ^ 63) \<le> b" "b < 2 ^ 63" "0 \<le> signed_take_bit 63 (a + b)"
  shows "signed_take_bit 63 (a + b) = a + b"
proof (rule ccontr)
  assume "signed_take_bit 63 (a + b) \<noteq> a + b"
  then have ge: "2 ^ 63 \<le> a + b"
    using assms(1,3) by (simp add: signed_take_bit_int_eq_self_iff not_le not_less)
  have "(a + b + 2 ^ 63) mod 2 ^ 64 = (a + b + 2 ^ 63 - 2 ^ 64) mod 2 ^ 64"
    by (simp only: minus_mod_self2)
  also have "\<dots> = a + b + 2 ^ 63 - 2 ^ 64"
    by (rule mod_pos_pos_trivial) (use ge assms(2,4) in simp_all)
  finally have "signed_take_bit 63 (a + b) = a + b - 2 ^ 64"
    by (simp add: signed_take_bit_eq_take_bit_shift take_bit_eq_mod)
  with assms(2,4,5) show False by simp
qed

definition ENOENT :: int where "ENOENT = 2"
definition EIO :: int where "EIO = 5"
definition EAGAIN :: int where "EAGAIN = 11"
definition ENOMEM :: int where "ENOMEM = 12"
definition EFAULT :: int where "EFAULT = 14"
definition EEXIST :: int where "EEXIST = 17"
definition EINVAL :: int where "EINVAL = 22"
definition ERESTARTSYS :: int where "ERESTARTSYS = 512"

lemmas errno_defs = ENOENT_def EIO_def EAGAIN_def ENOMEM_def EFAULT_def EEXIST_def EINVAL_def
  ERESTARTSYS_def

section \<open>Outcomes of a handler\<close>

datatype fault = NullDeref | OutOfBounds | UseAfterFree | DoubleFree | UninitRead

text \<open>
  \<open>Ret s v\<close>: the handler returned \<open>v\<close> in state \<open>s\<close>; \<open>Block s\<close>: it waits in \<open>s\<close> for a mutex that is
  held, or loops for ever; \<open>Fault f\<close>: it made an access that the C program may not make.
\<close>

datatype ('s, 'a) run = Ret 's 'a | Block 's | Fault fault

section \<open>Memory blocks\<close>

text \<open>A block is the list of its cells; an access outside it is \<open>None\<close>.\<close>

definition mem_load :: "'b list \<Rightarrow> nat \<Rightarrow> nat \<Rightarrow> 'b list option" where
  "mem_load m off n = (if off + n \<le> length m then Some (take n (drop off m)) else None)"

definition mem_store :: "'b list \<Rightarrow> nat \<Rightarrow> 'b list \<Rightarrow> 'b list option" where
  "mem_store m off bs =
     (if off + length bs \<le> length m
      then Some (take off m @ bs @ drop (off + length bs) m) else None)"

lemma mem_load_in [kmem]: "off + n \<le> length m \<Longrightarrow> mem_load m off n = Some (take n (drop off m))"
  by (simp add: mem_load_def)

lemma mem_store_in [kmem]:
  "off + length bs \<le> length m \<Longrightarrow>
   mem_store m off bs = Some (take off m @ bs @ drop (off + length bs) m)"
  by (simp add: mem_store_def)

lemma mem_load_length: "mem_load m off n = Some bs \<Longrightarrow> length bs = n"
  by (auto simp: mem_load_def split: if_splits)

lemma mem_store_length: "mem_store m off bs = Some m' \<Longrightarrow> length m' = length m"
  by (auto simp: mem_store_def split: if_splits)

lemma mem_load_store_same:
  "mem_store m off bs = Some m' \<Longrightarrow> mem_load m' off (length bs) = Some bs"
  by (auto simp: mem_load_def mem_store_def split: if_splits)

lemma mem_store_nth:
  assumes "mem_store m off bs = Some m'" and "i < length m"
  shows "m' ! i = (if off \<le> i \<and> i < off + length bs then bs ! (i - off) else m ! i)"
  using assms by (auto simp: mem_store_def nth_append split: if_splits)

section \<open>User space access\<close>

text \<open>
  \<open>copy_to_user\<close> and \<open>copy_from_user\<close> are kernel code. A record carries them: the first
  stores a list of bytes at a user address and gives the user memory afterwards with the number
  of bytes it could not copy, the second gives the bytes it put in the kernel buffer and the
  number of bytes it could not copy.
\<close>

record 'u uaccess =
  copy_to_user :: "'u \<Rightarrow> addr \<Rightarrow> byte list \<Rightarrow> 'u \<times> nat"
  copy_from_user :: "'u \<Rightarrow> addr \<Rightarrow> nat \<Rightarrow> byte list \<times> nat"

definition user_bytes :: "(addr \<Rightarrow> byte) \<Rightarrow> addr \<Rightarrow> nat \<Rightarrow> byte list" where
  "user_bytes f a n = map (\<lambda>i. f (a + i)) [0..<n]"

lemma length_user_bytes [simp]: "length (user_bytes f a n) = n"
  by (simp add: user_bytes_def)

lemma nth_user_bytes [simp]: "i < n \<Longrightarrow> user_bytes f a n ! i = f (a + i)"
  by (simp add: user_bytes_def)

lemma user_bytes_eqI:
  "length bs = n \<Longrightarrow> (\<And>i. i < n \<Longrightarrow> bs ! i = f (a + i)) \<Longrightarrow> user_bytes f a n = bs"
  by (rule nth_equalityI) simp_all

text \<open>
  What the kernel documents: both return the number of bytes that could not be copied, the
  copied prefix is exact, \<open>copy_from_user\<close> pads the rest of the kernel buffer with zero bytes, and
  \<open>copy_to_user\<close> touches no user byte outside the target range.
\<close>

locale user_access =
  fixes K :: "'u uaccess" and ubyte :: "'u \<Rightarrow> addr \<Rightarrow> byte"
  assumes from_len: "length (fst (copy_from_user K u a n)) = n"
    and from_rest: "snd (copy_from_user K u a n) \<le> n"
    and from_data: "i < n - snd (copy_from_user K u a n) \<Longrightarrow>
      fst (copy_from_user K u a n) ! i = ubyte u (a + i)"
    and from_pad: "n - snd (copy_from_user K u a n) \<le> i \<Longrightarrow> i < n \<Longrightarrow>
      fst (copy_from_user K u a n) ! i = 0"
    and to_rest: "snd (copy_to_user K u a bs) \<le> length bs"
    and to_data: "i < length bs - snd (copy_to_user K u a bs) \<Longrightarrow>
      ubyte (fst (copy_to_user K u a bs)) (a + i) = bs ! i"
    and to_frame: "x < a \<or> a + length bs \<le> x \<Longrightarrow>
      ubyte (fst (copy_to_user K u a bs)) x = ubyte u x"
begin

lemma from_ok: "copy_from_user K u a n = (bs, 0) \<Longrightarrow> bs = user_bytes (ubyte u) a n"
  using from_len [of u a n] from_data [of _ n u a] by (auto intro: nth_equalityI)

lemma to_ok: "copy_to_user K u a bs = (u', 0) \<Longrightarrow> user_bytes (ubyte u') a (length bs) = bs"
  using to_data [of _ bs u a] by (auto intro: user_bytes_eqI)

end

text \<open>
  The interface is realised by a flat user memory in which some addresses are mapped: a copy
  stops at the first unmapped address.
\<close>

type_synonym umem = "addr \<rightharpoonup> byte"

fun mapped_prefix :: "umem \<Rightarrow> addr \<Rightarrow> nat \<Rightarrow> nat" where
  "mapped_prefix u a 0 = 0"
| "mapped_prefix u a (Suc n) = (case u a of None \<Rightarrow> 0 | Some _ \<Rightarrow> Suc (mapped_prefix u (Suc a) n))"

definition flat_to_user :: "umem \<Rightarrow> addr \<Rightarrow> byte list \<Rightarrow> umem \<times> nat" where
  "flat_to_user u a bs =
     (let k = mapped_prefix u a (length bs)
      in ((\<lambda>x. if a \<le> x \<and> x < a + k then Some (bs ! (x - a)) else u x), length bs - k))"

definition flat_byte :: "umem \<Rightarrow> addr \<Rightarrow> byte" where
  "flat_byte u x = (case u x of None \<Rightarrow> 0 | Some b \<Rightarrow> b)"

definition flat_from_user :: "umem \<Rightarrow> addr \<Rightarrow> nat \<Rightarrow> byte list \<times> nat" where
  "flat_from_user u a n =
     (let k = mapped_prefix u a n
      in (user_bytes (flat_byte u) a k @ replicate (n - k) 0, n - k))"

definition flat_uaccess :: "umem uaccess" where
  "flat_uaccess = \<lparr>copy_to_user = flat_to_user, copy_from_user = flat_from_user\<rparr>"

lemma mapped_prefix_le: "mapped_prefix u a n \<le> n"
  by (induction u a n rule: mapped_prefix.induct) (auto split: option.splits)

lemma mapped_prefix_all: "(\<And>i. i < n \<Longrightarrow> u (a + i) \<noteq> None) \<Longrightarrow> mapped_prefix u a n = n"
proof (induction n arbitrary: a)
  case 0
  then show ?case by simp
next
  case (Suc n)
  have "u (Suc a + i) \<noteq> None" if "i < n" for i using Suc.prems [of "Suc i"] that by simp
  then have "mapped_prefix u (Suc a) n = n" by (rule Suc.IH)
  moreover from Suc.prems [of 0] obtain b where "u a = Some b" by auto
  ultimately show ?case by simp
qed

lemma flat_from_mapped:
  "(\<And>i. i < n \<Longrightarrow> u (a + i) \<noteq> None) \<Longrightarrow> flat_from_user u a n = (user_bytes (flat_byte u) a n, 0)"
  by (simp add: flat_from_user_def mapped_prefix_all)

lemma flat_to_mapped:
  "length bs = n \<Longrightarrow> (\<And>i. i < n \<Longrightarrow> u (a + i) \<noteq> None) \<Longrightarrow>
   flat_to_user u a bs = ((\<lambda>x. if a \<le> x \<and> x < a + n then Some (bs ! (x - a)) else u x), 0)"
  by (auto simp: flat_to_user_def mapped_prefix_all)

interpretation flat: user_access flat_uaccess flat_byte
proof unfold_locales
  fix u :: umem and a x :: addr and n i :: nat and bs :: "byte list"
  note le = mapped_prefix_le [of u a n] mapped_prefix_le [of u a "length bs"]
  show "length (fst (copy_from_user flat_uaccess u a n)) = n"
    using le by (simp add: flat_uaccess_def flat_from_user_def Let_def)
  show "snd (copy_from_user flat_uaccess u a n) \<le> n"
    by (simp add: flat_uaccess_def flat_from_user_def Let_def)
  show "fst (copy_from_user flat_uaccess u a n) ! i = flat_byte u (a + i)"
    if "i < n - snd (copy_from_user flat_uaccess u a n)"
    using that le by (simp add: flat_uaccess_def flat_from_user_def Let_def nth_append)
  show "fst (copy_from_user flat_uaccess u a n) ! i = 0"
    if "n - snd (copy_from_user flat_uaccess u a n) \<le> i" and "i < n"
    using that le by (simp add: flat_uaccess_def flat_from_user_def Let_def nth_append)
  show "snd (copy_to_user flat_uaccess u a bs) \<le> length bs"
    by (simp add: flat_uaccess_def flat_to_user_def Let_def)
  show "flat_byte (fst (copy_to_user flat_uaccess u a bs)) (a + i) = bs ! i"
    if "i < length bs - snd (copy_to_user flat_uaccess u a bs)"
    using that le by (simp add: flat_uaccess_def flat_to_user_def Let_def flat_byte_def)
  show "flat_byte (fst (copy_to_user flat_uaccess u a bs)) x = flat_byte u x"
    if "x < a \<or> a + length bs \<le> x"
  proof -
    have "\<not> (a \<le> x \<and> x < a + mapped_prefix u a (length bs))"
      using that le(2) by linarith
    then show ?thesis by (auto simp: flat_uaccess_def flat_to_user_def Let_def flat_byte_def)
  qed
qed

end
