(* ===== verification/Char_Device.thy ===== *)
theory Char_Device
  imports Kernel_Prelude
begin

text \<open>
  The character-device registration interface that \<open>cdev/main.c\<close> and \<open>globalfifo/main.c\<close> use
  when they are loaded and unloaded. The kernel functions are the fields of a record: what
  \<open>register_chrdev_region\<close>, \<open>alloc_chrdev_region\<close> and \<open>cdev_add\<close> return, whether \<open>kzalloc\<close> gets
  memory, and the macros \<open>MKDEV\<close> and \<open>MAJOR\<close>.
\<close>

type_synonym dev_t = nat

record chrdev_env =
  register_ret :: "dev_t \<Rightarrow> int"
  alloc_ret :: int
  alloc_devno :: dev_t
  kzalloc_ok :: bool
  cdev_add_ret :: "dev_t \<Rightarrow> int"
  mkdev :: "int \<Rightarrow> int \<Rightarrow> dev_t"
  major :: "dev_t \<Rightarrow> int"

text \<open>
  \<open>alloc_chrdev_region\<close> is called with first minor 0, and \<open>MKDEV\<close> puts together what \<open>MAJOR\<close>
  takes apart.
\<close>

locale chrdev_numbers =
  fixes E :: chrdev_env
  assumes alloc_minor_zero: "mkdev E (major E (alloc_devno E)) 0 = alloc_devno E"

text \<open>The kernel's numbering: 20 bits of minor below the major.\<close>

definition linux_mkdev :: "int \<Rightarrow> int \<Rightarrow> dev_t" where
  "linux_mkdev ma mi = nat (ma * 2 ^ 20 + mi)"

definition linux_major :: "dev_t \<Rightarrow> int" where
  "linux_major d = int (d div 2 ^ 20)"

definition linux_chrdev :: "dev_t \<Rightarrow> chrdev_env" where
  "linux_chrdev d = \<lparr>register_ret = (\<lambda>_. 0), alloc_ret = 0, alloc_devno = d * 2 ^ 20,
     kzalloc_ok = True, cdev_add_ret = (\<lambda>_. 0), mkdev = linux_mkdev, major = linux_major\<rparr>"

interpretation linux_chrdev: chrdev_numbers "linux_chrdev d" for d
  by unfold_locales (simp add: linux_chrdev_def linux_mkdev_def linux_major_def nat_mult_distrib)

text \<open>
  What a module holds of the kernel's resources, and the order in which it set them up: the
  device-number regions it registered, the number under which its \<open>cdev\<close> can be opened, and the
  log of the initialisation steps, latest last.
\<close>

datatype init_event = EvRegion | EvAlloc | EvMutexInit | EvWaitqInit | EvCdevAdd

record chrdev_res =
  regions :: "dev_t list"
  cdev_live :: "dev_t option"
  init_log :: "init_event list"

definition no_resources :: chrdev_res where
  "no_resources = \<lparr>regions = [], cdev_live = None, init_log = []\<rparr>"

definition log_event :: "init_event \<Rightarrow> chrdev_res \<Rightarrow> chrdev_res" where
  "log_event e r = r\<lparr>init_log := init_log r @ [e]\<rparr>"

lemma log_event_sel [simp]:
  "regions (log_event e r) = regions r" "cdev_live (log_event e r) = cdev_live r"
  "init_log (log_event e r) = init_log r @ [e]"
  by (simp_all add: log_event_def)

end
