(* ===== verification/Cdev.thy ===== *)
theory Cdev
  imports Char_Device
begin

text \<open>
  The memory character device of \<open>src/cdev/main.c\<close>: its device structure, every file
  operation, the module's load and unload functions, and what they guarantee.
\<close>

section \<open>State\<close>

abbreviation HELLODEV_SIZE :: nat where "HELLODEV_SIZE \<equiv> 4096"
definition MEM_CLEAR :: u32 where "MEM_CLEAR = 1"
definition HELLODEV_MAJOR :: int where "HELLODEV_MAJOR = 230"

record hello_dev =
  mem :: "byte list"
  mutex :: bool

text \<open>
  \<open>private_data\<close> says whether the file points to the device or nowhere; \<open>hello_devp\<close> is the
  structure it points to while it is allocated.
\<close>

record kfile =
  f_pos :: u64
  private_data :: bool

record 'u sys =
  hello_devp :: "hello_dev option"
  filp :: kfile
  user :: 'u

definition deref_dev :: "'u sys \<Rightarrow> fault + hello_dev" where
  "deref_dev s =
     (if \<not> private_data (filp s) then Inl NullDeref
      else case hello_devp s of None \<Rightarrow> Inl UseAfterFree | Some dev \<Rightarrow> Inr dev)"

section \<open>File operations\<close>

definition hello_open :: "'u sys \<Rightarrow> ('u sys, int) run" where
  "hello_open s = Ret (s\<lparr>filp := (filp s)\<lparr>private_data := hello_devp s \<noteq> None\<rparr>\<rparr>) 0"

definition hello_release :: "'u sys \<Rightarrow> ('u sys, int) run" where
  "hello_release s = Ret s 0"

definition hello_ioctl :: "u32 \<Rightarrow> u64 \<Rightarrow> 'u sys \<Rightarrow> ('u sys, int) run" where
  "hello_ioctl cmd arg s =
     (if cmd = MEM_CLEAR then
        case deref_dev s of
          Inl f \<Rightarrow> Fault f
        | Inr dev \<Rightarrow>
            if mutex dev then Block s
            else Ret (s\<lparr>hello_devp := Some (dev\<lparr>mem := replicate HELLODEV_SIZE 0, mutex := False\<rparr>)\<rparr>) 0
      else Ret s (- EINVAL))"

text \<open>The clamp that \<open>hello_read\<close> and \<open>hello_write\<close> apply to the byte count.\<close>

definition clamp_count :: "u64 \<Rightarrow> u64 \<Rightarrow> u32" where
  "clamp_count p sz =
     (let count = ucast sz :: u32
      in if ucast count > 4096 - p then ucast (4096 - p) else count)"

definition hello_read :: "'u uaccess \<Rightarrow> addr \<Rightarrow> u64 \<Rightarrow> 'u sys \<Rightarrow> ('u sys, int) run" where
  "hello_read K buf sz s =
     (let p = f_pos (filp s) in
      case deref_dev s of
        Inl f \<Rightarrow> if p \<ge> 4096 then Ret s 0 else Fault f
      | Inr dev \<Rightarrow>
          if p \<ge> 4096 then Ret s 0
          else let count = clamp_count p sz in
            if mutex dev then Block s
            else case mem_load (mem dev) (unat p) (unat count) of
              None \<Rightarrow> Fault OutOfBounds
            | Some bs \<Rightarrow>
                (case copy_to_user K (user s) buf bs of (u', rest) \<Rightarrow>
                  if rest \<noteq> 0
                  then Ret (s\<lparr>user := u', hello_devp := Some (dev\<lparr>mutex := False\<rparr>)\<rparr>) (- EFAULT)
                  else Ret (s\<lparr>user := u', hello_devp := Some (dev\<lparr>mutex := False\<rparr>),
                              filp := (filp s)\<lparr>f_pos := p + ucast count\<rparr>\<rparr>) (sint count)))"

definition hello_write :: "'u uaccess \<Rightarrow> addr \<Rightarrow> u64 \<Rightarrow> 'u sys \<Rightarrow> ('u sys, int) run" where
  "hello_write K buf sz s =
     (let p = f_pos (filp s) in
      case deref_dev s of
        Inl f \<Rightarrow> if p \<ge> 4096 then Ret s 0 else Fault f
      | Inr dev \<Rightarrow>
          if p \<ge> 4096 then Ret s 0
          else let count = clamp_count p sz in
            if mutex dev then Block s
            else case copy_from_user K (user s) buf (unat count) of (bs, rest) \<Rightarrow>
              (case mem_store (mem dev) (unat p) bs of
                None \<Rightarrow> Fault OutOfBounds
              | Some m' \<Rightarrow>
                  if rest \<noteq> 0
                  then Ret (s\<lparr>hello_devp := Some (dev\<lparr>mem := m', mutex := False\<rparr>)\<rparr>) (- EFAULT)
                  else Ret (s\<lparr>hello_devp := Some (dev\<lparr>mem := m', mutex := False\<rparr>),
                              filp := (filp s)\<lparr>f_pos := p + ucast count\<rparr>\<rparr>) (sint count)))"

definition hello_llseek :: "u64 \<Rightarrow> int \<Rightarrow> 'u sys \<Rightarrow> ('u sys, int) run" where
  "hello_llseek offset orig s =
     (let pos = f_pos (filp s);
          seek = (\<lambda>p :: u64. Ret (s\<lparr>filp := (filp s)\<lparr>f_pos := p\<rparr>\<rparr>) (sint p))
      in if orig = 0 then
           (if sint offset < 0 then Ret s (- EINVAL)
            else if (ucast offset :: u32) > 4096 then Ret s (- EINVAL)
            else seek (ucast (ucast offset :: u32)))
         else if orig = 1 then
           (if sint (pos + offset) > 4096 then Ret s (- EINVAL)
            else if sint (pos + offset) < 0 then Ret s (- EINVAL)
            else seek (pos + offset))
         else Ret s (- EINVAL))"

section \<open>Load and unload\<close>

record cdev_module =
  hello_major :: int
  devp :: "hello_dev option"
  res :: chrdev_res

definition hello_setup_cdev :: "chrdev_env \<Rightarrow> int \<Rightarrow> cdev_module \<Rightarrow> cdev_module" where
  "hello_setup_cdev E index m =
     (let devno = mkdev E (hello_major m) index; err = cdev_add_ret E devno
      in if err \<noteq> 0 then m
         else m\<lparr>res := log_event EvCdevAdd ((res m)\<lparr>cdev_live := Some devno\<rparr>)\<rparr>)"

definition hello_init :: "chrdev_env \<Rightarrow> cdev_module \<Rightarrow> int \<times> cdev_module" where
  "hello_init E m =
     (let devno0 = mkdev E (hello_major m) 0;
          (ret, devno, m1) =
            (if hello_major m \<noteq> 0 then (register_ret E devno0, devno0, m)
             else (alloc_ret E, alloc_devno E, m\<lparr>hello_major := major E (alloc_devno E)\<rparr>))
      in if ret < 0 then (ret, m1)
         else let m2 = m1\<lparr>res := log_event EvRegion ((res m1)\<lparr>regions := devno # regions (res m1)\<rparr>)\<rparr>
           in if \<not> kzalloc_ok E then
                (- ENOMEM, m2\<lparr>res := (res m2)\<lparr>regions := remove1 devno (regions (res m2))\<rparr>, devp := None\<rparr>)
              else let m3 = m2\<lparr>devp := Some \<lparr>mem = replicate HELLODEV_SIZE 0, mutex = False\<rparr>,
                               res := log_event EvMutexInit (log_event EvAlloc (res m2))\<rparr>
                in (0, hello_setup_cdev E 0 m3))"

definition hello_exit :: "chrdev_env \<Rightarrow> cdev_module \<Rightarrow> cdev_module" where
  "hello_exit E m =
     m\<lparr>devp := None,
       res := (res m)\<lparr>cdev_live := None,
                regions := remove1 (mkdev E (hello_major m) 0) (regions (res m))\<rparr>\<rparr>"


section \<open>The byte count\<close>

lemma unat_clamp_count:
  assumes "p < 4096"
  shows "unat (clamp_count p sz) = min (unat sz mod 2 ^ 32) (4096 - unat p)"
proof -
  have p: "unat p < 4096" using assms by (simp add: word_less_nat_alt)
  have le: "p \<le> 4096" using assms by simp
  have sub: "unat (4096 - p) = 4096 - unat p"
    using unat_sub [OF le] by simp
  have cnt: "unat (ucast (ucast sz :: u32) :: u64) = unat sz mod 2 ^ 32"
    by (simp add: kword)
  have sub32: "unat (ucast (4096 - p) :: u32) = 4096 - unat p"
    using p by (simp add: kword sub)
  show ?thesis
  proof (cases "ucast (ucast sz :: u32) > 4096 - p")
    case True
    then have "4096 - unat p < unat sz mod 2 ^ 32"
      by (simp add: word_less_nat_alt sub cnt)
    with True show ?thesis by (simp add: clamp_count_def Let_def sub32)
  next
    case False
    then have "unat sz mod 2 ^ 32 \<le> 4096 - unat p"
      by (simp add: word_less_nat_alt sub cnt not_less)
    with False show ?thesis
      by (simp add: clamp_count_def Let_def kword)
  qed
qed

section \<open>The device invariant\<close>

text \<open>
  What every call leaves behind: the file points to the device, its position lies inside the
  memory, the memory has its full size and the mutex is free.
\<close>

definition cdev_ok :: "'u sys \<Rightarrow> bool" where
  "cdev_ok s \<longleftrightarrow> private_data (filp s) \<and> f_pos (filp s) \<le> 4096 \<and>
     (case hello_devp s of None \<Rightarrow> False
      | Some d \<Rightarrow> length (mem d) = HELLODEV_SIZE \<and> \<not> mutex d)"

definition dev_mem :: "'u sys \<Rightarrow> byte list" where
  "dev_mem s = (case hello_devp s of None \<Rightarrow> [] | Some d \<Rightarrow> mem d)"

lemma cdev_okE:
  assumes "cdev_ok s"
  obtains d where "hello_devp s = Some d" "deref_dev s = Inr d" "private_data (filp s)"
    "length (mem d) = HELLODEV_SIZE" "\<not> mutex d" "dev_mem s = mem d" "unat (f_pos (filp s)) \<le> 4096"
  using assms
  by (auto simp: cdev_ok_def deref_dev_def dev_mem_def word_le_nat_alt split: option.splits)

lemma cdev_okI:
  "private_data (filp s) \<Longrightarrow> f_pos (filp s) \<le> 4096 \<Longrightarrow> hello_devp s = Some d \<Longrightarrow>
   length (mem d) = HELLODEV_SIZE \<Longrightarrow> \<not> mutex d \<Longrightarrow> cdev_ok s"
  by (simp add: cdev_ok_def)

text \<open>The bytes a call at position \<open>p\<close> with the given size transfers.\<close>

definition xfer :: "u64 \<Rightarrow> u64 \<Rightarrow> nat" where
  "xfer p sz = (if p \<ge> 4096 then 0 else min (unat sz mod 2 ^ 32) (4096 - unat p))"

lemma xfer_bound: "p \<le> 4096 \<Longrightarrow> unat p + xfer p sz \<le> 4096"
  by (auto simp: xfer_def word_le_nat_alt)

lemma xfer_le: "xfer p sz \<le> 4096"
  by (auto simp: xfer_def)

lemma clamp_xfer [kword]: "p < 4096 \<Longrightarrow> unat (clamp_count p sz) = xfer p sz"
  by (simp add: unat_clamp_count xfer_def not_le)

lemma sint_clamp [kword]: "p < 4096 \<Longrightarrow> sint (clamp_count p sz) = int (xfer p sz)"
  using xfer_le [of p sz] by (simp add: kword)

lemma advance_pos:
  assumes "p < 4096"
  shows "unat (p + ucast (clamp_count p sz)) = unat p + xfer p sz"
    and "p + ucast (clamp_count p sz) \<le> 4096"
proof -
  have b: "unat p + xfer p sz \<le> 4096" using assms by (intro xfer_bound) simp
  have "unat p + unat (ucast (clamp_count p sz) :: u64) < 2 ^ 64"
    using b assms by (simp add: kword)
  then show u: "unat (p + ucast (clamp_count p sz)) = unat p + xfer p sz"
    using assms by (simp add: unat_word_ariths kword)
  show "p + ucast (clamp_count p sz) \<le> 4096"
    using b by (simp add: word_le_nat_alt u)
qed

section \<open>Read and write in closed form\<close>

lemma hello_read_run:
  assumes "cdev_ok s" and "hello_devp s = Some d" and p: "p = f_pos (filp s)" "p < 4096"
    and ctu: "copy_to_user K (user s) buf (take (xfer p sz) (drop (unat p) (mem d))) = (u', rest)"
  shows "hello_read K buf sz s =
    (let s' = s\<lparr>user := u', hello_devp := Some (d\<lparr>mutex := False\<rparr>)\<rparr>
     in if rest \<noteq> 0 then Ret s' (- EFAULT)
        else Ret (s'\<lparr>filp := (filp s)\<lparr>f_pos := p + ucast (clamp_count p sz)\<rparr>\<rparr>) (int (xfer p sz)))"
proof -
  obtain "deref_dev s = Inr d" "length (mem d) = HELLODEV_SIZE" "\<not> mutex d"
    using assms(1,2) by (auto elim: cdev_okE)
  moreover have "\<not> 4096 \<le> p" using p(2) by simp
  moreover have "unat p + xfer p sz \<le> 4096" using p(2) by (intro xfer_bound) simp
  ultimately show ?thesis
    using p ctu by (simp add: hello_read_def Let_def kword kmem)
qed

lemma hello_write_run:
  assumes "cdev_ok s" and "hello_devp s = Some d" and p: "p = f_pos (filp s)" "p < 4096"
    and cfu: "copy_from_user K (user s) buf (xfer p sz) = (bs, rest)" and len: "length bs = xfer p sz"
  shows "hello_write K buf sz s =
    (let s' = s\<lparr>hello_devp := Some (d\<lparr>mem := take (unat p) (mem d) @ bs @ drop (unat p + length bs) (mem d), mutex := False\<rparr>)\<rparr>
     in if rest \<noteq> 0 then Ret s' (- EFAULT)
        else Ret (s'\<lparr>filp := (filp s)\<lparr>f_pos := p + ucast (clamp_count p sz)\<rparr>\<rparr>) (int (xfer p sz)))"
proof -
  obtain "deref_dev s = Inr d" "length (mem d) = HELLODEV_SIZE" "\<not> mutex d"
    using assms(1,2) by (auto elim: cdev_okE)
  moreover have "\<not> 4096 \<le> p" using p(2) by simp
  moreover have "unat p + xfer p sz \<le> 4096" using p(2) by (intro xfer_bound) simp
  ultimately show ?thesis
    using p cfu len by (simp add: hello_write_def Let_def kword kmem)
qed

lemma hello_read_end: "f_pos (filp s) \<ge> 4096 \<Longrightarrow> hello_read K buf sz s = Ret s 0"
  by (simp add: hello_read_def Let_def split: sum.split)

lemma hello_write_end: "f_pos (filp s) \<ge> 4096 \<Longrightarrow> hello_write K buf sz s = Ret s 0"
  by (simp add: hello_write_def Let_def split: sum.split)

section \<open>Calls and their sequences\<close>

datatype cdev_call =
    Open | Release | Ioctl u32 u64 | Read addr u64 | Write addr u64 | Llseek u64 int

fun do_call :: "'u uaccess \<Rightarrow> cdev_call \<Rightarrow> 'u sys \<Rightarrow> ('u sys, int) run" where
  "do_call K Open s = hello_open s"
| "do_call K Release s = hello_release s"
| "do_call K (Ioctl cmd arg) s = hello_ioctl cmd arg s"
| "do_call K (Read buf sz) s = hello_read K buf sz s"
| "do_call K (Write buf sz) s = hello_write K buf sz s"
| "do_call K (Llseek off orig) s = hello_llseek off orig s"

fun cdev_calls :: "'u uaccess \<Rightarrow> cdev_call list \<Rightarrow> 'u sys \<Rightarrow> ('u sys, int list) run" where
  "cdev_calls K [] s = Ret s []"
| "cdev_calls K (c # cs) s =
     (case do_call K c s of
        Ret s' v \<Rightarrow> (case cdev_calls K cs s' of Ret s'' vs \<Rightarrow> Ret s'' (v # vs)
                   | Block s'' \<Rightarrow> Block s'' | Fault f \<Rightarrow> Fault f)
      | Block s' \<Rightarrow> Block s' | Fault f \<Rightarrow> Fault f)"

lemma sint_range_le:
  assumes "0 \<le> sint (p :: u64)" and "sint p \<le> 4096"
  shows "p \<le> 4096"
  using assms uint_sint_u64 [OF assms(1)] by (simp add: word_le_def)

lemma seek_set_range:
  fixes offset :: u64
  assumes "0 \<le> sint offset" and "(ucast offset :: u32) \<le> 4096"
  shows "(ucast (ucast offset :: u32) :: u64) \<le> 4096"
    and "sint (ucast (ucast offset :: u32) :: u64) = sint offset mod 2 ^ 32"
    and "sint (ucast (ucast offset :: u32) :: u64) \<le> 4096"
proof -
  have u: "unat (ucast (ucast offset :: u32) :: u64) = unat offset mod 2 ^ 32" by (simp add: kword)
  have "unat (ucast offset :: u32) \<le> 4096" using assms(2) by (simp add: word_le_nat_alt)
  then have le: "unat offset mod 2 ^ 32 \<le> 4096" by (simp add: kword)
  then show "(ucast (ucast offset :: u32) :: u64) \<le> 4096" by (simp add: word_le_nat_alt kword)
  have eq: "sint (ucast (ucast offset :: u32) :: u64) = int (unat offset mod 2 ^ 32)"
    using le by (simp add: kword)
  then show "sint (ucast (ucast offset :: u32) :: u64) \<le> 4096" using le by linarith
  show "sint (ucast (ucast offset :: u32) :: u64) = sint offset mod 2 ^ 32"
    unfolding eq using uint_sint_u64 [OF assms(1)] by (simp add: zmod_int)
qed

lemma hello_llseek_ok: "cdev_ok s \<Longrightarrow> \<exists>s' v. hello_llseek offset orig s = Ret s' v \<and> cdev_ok s'"
  using seek_set_range(1) [of offset] sint_range_le [of "f_pos (filp s) + offset"]
  by (auto simp: hello_llseek_def Let_def cdev_ok_def not_less)

lemma hello_ioctl_ok: "cdev_ok s \<Longrightarrow> \<exists>s' v. hello_ioctl cmd arg s = Ret s' v \<and> cdev_ok s'"
  by (erule cdev_okE) (auto simp: hello_ioctl_def cdev_ok_def word_le_nat_alt)

lemma hello_open_ok: "cdev_ok s \<Longrightarrow> \<exists>s' v. hello_open s = Ret s' v \<and> cdev_ok s'"
  by (erule cdev_okE) (auto simp: hello_open_def cdev_ok_def word_le_nat_alt)

lemma hello_read_ok:
  assumes "cdev_ok s"
  shows "\<exists>s' v. hello_read K buf sz s = Ret s' v \<and> cdev_ok s'"
proof (cases "f_pos (filp s) < 4096")
  case True
  obtain d where d: "hello_devp s = Some d" "length (mem d) = HELLODEV_SIZE" "private_data (filp s)"
    using assms by (rule cdev_okE)
  obtain u' rest where "copy_to_user K (user s) buf
      (take (xfer (f_pos (filp s)) sz) (drop (unat (f_pos (filp s))) (mem d))) = (u', rest)"
    by fastforce
  from hello_read_run [OF assms d(1) refl True this] show ?thesis
    using d True advance_pos(2) [OF True, of sz] by (auto simp: Let_def cdev_ok_def)
next
  case False
  then show ?thesis using assms by (auto simp: hello_read_end)
qed

lemma hello_write_ok:
  assumes "user_access K ub" and "cdev_ok s"
  shows "\<exists>s' v. hello_write K buf sz s = Ret s' v \<and> cdev_ok s'"
proof (cases "f_pos (filp s) < 4096")
  case True
  obtain d where d: "hello_devp s = Some d" "length (mem d) = HELLODEV_SIZE" "private_data (filp s)"
    using assms(2) by (rule cdev_okE)
  obtain bs rest where cfu: "copy_from_user K (user s) buf (xfer (f_pos (filp s)) sz) = (bs, rest)"
    by fastforce
  then have len: "length bs = xfer (f_pos (filp s)) sz"
    using user_access.from_len [OF assms(1), of "user s" buf] by (metis fst_conv)
  have "unat (f_pos (filp s)) + xfer (f_pos (filp s)) sz \<le> 4096"
    using True by (intro xfer_bound) simp
  with hello_write_run [OF assms(2) d(1) refl True cfu len] show ?thesis
    using d True len advance_pos(2) [OF True, of sz] by (auto simp: Let_def cdev_ok_def)
next
  case False
  then show ?thesis using assms by (auto simp: hello_write_end)
qed

lemma do_call_ok:
  assumes "user_access K ub" and "cdev_ok s"
  shows "\<exists>s' v. do_call K c s = Ret s' v \<and> cdev_ok s'"
  using assms hello_read_ok hello_write_ok hello_llseek_ok hello_ioctl_ok hello_open_ok
  by (cases c) (auto simp: hello_release_def)

section \<open>Properties\<close>

text \<open>
  A concrete system for the witnesses: a fresh device, a file at position 0 and a user memory
  that is mapped below address 1000 and holds the byte 7 everywhere.
\<close>

definition demo_sys :: "umem sys" where
  "demo_sys = \<lparr>hello_devp = Some \<lparr>mem = replicate HELLODEV_SIZE 0, mutex = False\<rparr>,
     filp = \<lparr>f_pos = 0, private_data = True\<rparr>, user = (\<lambda>a. if a < 1000 then Some 7 else None)\<rparr>"

lemma demo_sys_ok: "cdev_ok demo_sys"
  by (simp add: demo_sys_def cdev_ok_def)

text \<open>
  C4. Whatever file operations a process issues on the device, in whatever order and with whatever
  arguments, every one of them returns: none touches memory outside the device, none dereferences
  a bad pointer and none is left waiting for the mutex; and the invariant holds afterwards.
\<close>

theorem cdev_calls_safe:
  assumes "user_access K ub" and "cdev_ok s"
  shows "\<exists>s' vs. cdev_calls K cs s = Ret s' vs \<and> length vs = length cs \<and> cdev_ok s'"
  using assms(2)
proof (induction cs arbitrary: s)
  case Nil
  then show ?case by simp
next
  case (Cons c cs)
  obtain s1 v where "do_call K c s = Ret s1 v" "cdev_ok s1"
    using do_call_ok [OF assms(1) Cons.prems] by blast
  moreover from Cons.IH [OF this(2)] obtain s' vs
    where "cdev_calls K cs s1 = Ret s' vs" "length vs = length cs" "cdev_ok s'"
    by blast
  ultimately show ?case by simp
qed

theorem cdev_calls_safe_witness:
  "\<exists>s' vs. cdev_calls flat_uaccess [Write 990 20, Llseek 0 0, Read 0 5, Ioctl 1 0] demo_sys = Ret s' vs
     \<and> length vs = length [Write 990 20, Llseek 0 0, Read 0 5, Ioctl 1 0] \<and> cdev_ok s'"
  by (rule cdev_calls_safe [OF flat.user_access_axioms demo_sys_ok])

text \<open>
  C35. A read leaves the device memory as it is, and either reports a bad user buffer and keeps the
  position, or returns the number of bytes between the position and the end of the device, at most
  the low 32 bits of the requested size, puts exactly those bytes into the user buffer and moves
  the position past them.
\<close>

theorem cdev_read_spec:
  assumes "user_access K ub" and "cdev_ok s" and "hello_read K buf sz s = Ret s' v"
  shows "dev_mem s' = dev_mem s \<and>
    (v = - EFAULT \<and> f_pos (filp s') = f_pos (filp s) \<or>
     v = int (xfer (f_pos (filp s)) sz) \<and>
     user_bytes (ub (user s')) buf (nat v) = take (nat v) (drop (unat (f_pos (filp s))) (dev_mem s)) \<and>
     unat (f_pos (filp s')) = unat (f_pos (filp s)) + nat v)"
proof (cases "f_pos (filp s) < 4096")
  case True
  let ?p = "f_pos (filp s)"
  obtain d where d: "hello_devp s = Some d" "length (mem d) = HELLODEV_SIZE" "dev_mem s = mem d"
    using assms(2) by (rule cdev_okE)
  obtain u' rest where c: "copy_to_user K (user s) buf (take (xfer ?p sz) (drop (unat ?p) (mem d))) = (u', rest)"
    by fastforce
  have "unat ?p + xfer ?p sz \<le> 4096" using True by (intro xfer_bound) simp
  then have len: "length (take (xfer ?p sz) (drop (unat ?p) (mem d))) = xfer ?p sz"
    using d(2) by simp
  have "user_bytes (ub u') buf (xfer ?p sz) = take (xfer ?p sz) (drop (unat ?p) (mem d))" if "rest = 0"
    using user_access.to_ok [OF assms(1), OF c [unfolded that]] by (simp only: len)
  then show ?thesis
    using hello_read_run [OF assms(2) d(1) refl True c] assms(3) d advance_pos(1) [OF True, of sz]
    by (auto simp: Let_def dev_mem_def split: if_splits)
next
  case False
  then show ?thesis using assms by (auto simp: hello_read_end xfer_def user_bytes_def)
qed

theorem cdev_read_spec_witness:
  "\<exists>s' v. hello_read flat_uaccess 0 5 demo_sys = Ret s' v \<and> dev_mem s' = dev_mem demo_sys \<and>
    (v = - EFAULT \<and> f_pos (filp s') = f_pos (filp demo_sys) \<or>
     v = int (xfer (f_pos (filp demo_sys)) 5) \<and>
     user_bytes (flat_byte (user s')) 0 (nat v) =
       take (nat v) (drop (unat (f_pos (filp demo_sys))) (dev_mem demo_sys)) \<and>
     unat (f_pos (filp s')) = unat (f_pos (filp demo_sys)) + nat v)"
proof -
  obtain s' v where r: "hello_read flat_uaccess 0 5 demo_sys = Ret s' v"
    using hello_read_ok [OF demo_sys_ok] by blast
  from r cdev_read_spec [OF flat.user_access_axioms demo_sys_ok r] show ?thesis by blast
qed

text \<open>The position \<open>f_pos\<close> of a file on the device can be given to \<open>hello_llseek\<close>.\<close>

lemma hello_llseek_set_pos:
  assumes "p \<le> 4096"
  shows "hello_llseek p 0 s = Ret (s\<lparr>filp := (filp s)\<lparr>f_pos := p\<rparr>\<rparr>) (int (unat p))"
proof -
  have p: "unat p \<le> 4096" using assms by (simp add: word_le_nat_alt)
  then have u: "unat (ucast p :: u32) = unat p" by (simp add: kword)
  have "sint p = int (unat p)" using p by (simp add: kword)
  moreover have "\<not> (ucast p :: u32) > 4096" using p by (simp add: word_less_nat_alt u)
  moreover have "ucast (ucast p :: u32) = p" by (rule word_unat_eq_iff [THEN iffD2]) (use p in \<open>simp add: kword\<close>)
  ultimately show ?thesis by (simp add: hello_llseek_def Let_def)
qed

text \<open>A write that succeeds stores the user's bytes at the position and touches no other byte.\<close>

lemma hello_write_stores:
  assumes "user_access K ub" and "cdev_ok s" and "hello_write K buf sz s = Ret s' v" and "0 \<le> v"
  defines "p \<equiv> f_pos (filp s)"
  shows "v = int (xfer p sz)"
    and "dev_mem s' = take (unat p) (dev_mem s) @ user_bytes (ub (user s)) buf (xfer p sz)
           @ drop (unat p + xfer p sz) (dev_mem s)"
    and "unat (f_pos (filp s')) = unat p + xfer p sz" and "user s' = user s"
proof -
  obtain d where d: "hello_devp s = Some d" "length (mem d) = HELLODEV_SIZE" "dev_mem s = mem d"
    using assms(2) by (rule cdev_okE)
  have "v = int (xfer p sz) \<and> user s' = user s \<and> unat (f_pos (filp s')) = unat p + xfer p sz \<and>
    dev_mem s' = take (unat p) (dev_mem s) @ user_bytes (ub (user s)) buf (xfer p sz)
           @ drop (unat p + xfer p sz) (dev_mem s)"
  proof (cases "p < 4096")
    case True
    obtain bs rest where c: "copy_from_user K (user s) buf (xfer p sz) = (bs, rest)" by fastforce
    then have len: "length bs = xfer p sz"
      using user_access.from_len [OF assms(1), of "user s" buf] by (metis fst_conv)
    have r: "rest = 0"
      using hello_write_run [OF assms(2) d(1) p_def [THEN meta_eq_to_obj_eq] True c len] assms(3,4)
      by (auto simp: Let_def errno_defs split: if_splits)
    then have "bs = user_bytes (ub (user s)) buf (xfer p sz)"
      using user_access.from_ok [OF assms(1)] c by blast
    then show ?thesis
      using hello_write_run [OF assms(2) d(1) p_def [THEN meta_eq_to_obj_eq] True c len] assms(3) r len d
        advance_pos(1) [OF True, of sz]
      by (auto simp: Let_def dev_mem_def)
  next
    case False
    then show ?thesis
      using assms(3) d by (auto simp: hello_write_end p_def xfer_def user_bytes_def)
  qed
  then show "v = int (xfer p sz)"
    and "dev_mem s' = take (unat p) (dev_mem s) @ user_bytes (ub (user s)) buf (xfer p sz)
           @ drop (unat p + xfer p sz) (dev_mem s)"
    and "unat (f_pos (filp s')) = unat p + xfer p sz" and "user s' = user s"
    by simp_all
qed

text \<open>
  C13. What was written is read back: a process that writes, seeks back to where it wrote and reads
  the same amount gets the same count and finds in its second buffer the bytes that were in the
  first, provided neither buffer was bad.
\<close>

theorem cdev_write_read_roundtrip:
  assumes K: "user_access K ub" and ok: "cdev_ok s"
    and calls: "cdev_calls K [Write buf sz, Llseek (f_pos (filp s)) 0, Read buf2 sz] s = Ret s' [n, q, m]"
    and "0 \<le> n" "0 \<le> m"
  shows "q = int (unat (f_pos (filp s))) \<and> m = n \<and>
    user_bytes (ub (user s')) buf2 (nat m) = user_bytes (ub (user s)) buf (nat n)"
proof -
  define p where "p = f_pos (filp s)"
  have ple: "p \<le> 4096" using ok by (simp add: cdev_ok_def p_def)
  obtain s1 where w: "hello_write K buf sz s = Ret s1 n"
    and rest: "cdev_calls K [Llseek p 0, Read buf2 sz] s1 = Ret s' [q, m]"
    using calls by (auto simp: p_def split: run.splits)
  define s2 where "s2 = s1\<lparr>filp := (filp s1)\<lparr>f_pos := p\<rparr>\<rparr>"
  have seek: "hello_llseek p 0 s1 = Ret s2 (int (unat p))"
    unfolding s2_def by (rule hello_llseek_set_pos [OF ple])
  with rest have q: "q = int (unat p)" and rd: "hello_read K buf2 sz s2 = Ret s' m"
    by (auto split: run.splits)
  have "cdev_ok s1" using hello_write_ok [OF K ok, of buf sz] w by auto
  then have ok2: "cdev_ok s2" using hello_llseek_ok [of s1 p 0] seek by auto
  note st = hello_write_stores [OF K ok w \<open>0 \<le> n\<close>, folded p_def]
  have p2: "f_pos (filp s2) = p" and m2: "dev_mem s2 = dev_mem s1"
    by (simp_all add: s2_def dev_mem_def)
  obtain d where "hello_devp s = Some d" "length (mem d) = HELLODEV_SIZE" "dev_mem s = mem d"
    using ok by (rule cdev_okE)
  then have len: "length (take (unat p) (dev_mem s)) = unat p"
    using ple by (simp add: word_le_nat_alt)
  have "m = int (xfer p sz)" and
    "user_bytes (ub (user s')) buf2 (nat m) = take (nat m) (drop (unat p) (dev_mem s1))"
    using cdev_read_spec [OF K ok2 rd] \<open>0 \<le> m\<close> by (auto simp: p2 m2 errno_defs)
  moreover have "take (xfer p sz) (drop (unat p) (dev_mem s1)) = user_bytes (ub (user s)) buf (xfer p sz)"
    using st(2) len by simp
  ultimately show ?thesis using st(1) q by (simp add: p_def)
qed

lemma demo_roundtrip_run:
  "\<exists>s'. cdev_calls flat_uaccess [Write 5 2, Llseek 0 0, Read 100 2] demo_sys = Ret s' [2, 0, 2]"
  by (simp add: demo_sys_def hello_write_def hello_read_def hello_llseek_def Let_def deref_dev_def
      clamp_count_def flat_uaccess_def flat_from_mapped flat_to_mapped mem_store_def mem_load_def)

theorem cdev_write_read_roundtrip_witness:
  "\<exists>s'. cdev_calls flat_uaccess [Write 5 2, Llseek 0 0, Read 100 2] demo_sys = Ret s' [2, 0, 2] \<and>
     user_bytes (flat_byte (user s')) 100 2 = user_bytes (flat_byte (user demo_sys)) 5 2"
proof -
  have p: "f_pos (filp demo_sys) = 0" by (simp add: demo_sys_def)
  obtain s' where r: "cdev_calls flat_uaccess [Write 5 2, Llseek 0 0, Read 100 2] demo_sys = Ret s' [2, 0, 2]"
    using demo_roundtrip_run by blast
  have "user_bytes (flat_byte (user s')) 100 (nat 2) = user_bytes (flat_byte (user demo_sys)) 5 (nat 2)"
    using cdev_write_read_roundtrip [OF flat.user_access_axioms demo_sys_ok, unfolded p, OF r] by simp
  with r show ?thesis by auto
qed

text \<open>
  C36. A seek that is accepted leaves the position inside the device and returns it: from the start
  it is the offset modulo \<open>2 ^ 32\<close>, from the current position it is the sum, with no wrap-around.
  Every other seek returns \<open>-EINVAL\<close> and changes nothing.
\<close>

theorem cdev_llseek_spec:
  assumes "cdev_ok s" and "hello_llseek offset orig s = Ret s' v"
  shows "v = - EINVAL \<and> s' = s \<or>
    0 \<le> v \<and> v \<le> 4096 \<and> s' = s\<lparr>filp := (filp s)\<lparr>f_pos := word_of_int v\<rparr>\<rparr> \<and>
    (orig = 0 \<and> 0 \<le> sint offset \<and> v = sint offset mod 2 ^ 32 \<or>
     orig = 1 \<and> v = int (unat (f_pos (filp s))) + sint offset)"
proof -
  let ?p = "f_pos (filp s)"
  have sp: "sint ?p = int (unat ?p)" and ple: "unat ?p \<le> 4096"
    using assms(1) by (auto simp: cdev_ok_def word_le_nat_alt kword)
  have rel: "sint (?p + offset) = int (unat ?p) + sint offset"
    if "0 \<le> sint (?p + offset)" "sint (?p + offset) \<le> 4096"
  proof -
    have "signed_take_bit 63 (int (unat ?p) + sint offset) = int (unat ?p) + sint offset"
    proof (rule signed_wrap_63)
      show "int (unat ?p) \<le> 4096" using ple by linarith
      show "0 \<le> signed_take_bit 63 (int (unat ?p) + sint offset)"
        using that(1) by (simp add: sint_word_add sp)
    qed (use ple sint_ge [of offset] sint_lt [of offset] in simp_all)
    then show ?thesis by (simp add: sint_word_add sp)
  qed
  have set: "\<And>w :: u64. 0 \<le> sint w \<Longrightarrow> w = word_of_int (sint w)" by simp
  show ?thesis
    using assms(2) seek_set_range [of offset] rel
    by (auto simp: hello_llseek_def Let_def not_less split: if_splits)
qed

theorem cdev_llseek_spec_witness:
  "\<exists>s' v. hello_llseek 12 0 demo_sys = Ret s' v \<and> (v = - EINVAL \<and> s' = demo_sys \<or>
    0 \<le> v \<and> v \<le> 4096 \<and> s' = demo_sys\<lparr>filp := (filp demo_sys)\<lparr>f_pos := word_of_int v\<rparr>\<rparr> \<and>
    ((0 :: int) = 0 \<and> 0 \<le> sint (12 :: u64) \<and> v = sint (12 :: u64) mod 2 ^ 32 \<or>
     (0 :: int) = 1 \<and> v = int (unat (f_pos (filp demo_sys))) + sint (12 :: u64)))"
proof -
  obtain s' v where r: "hello_llseek 12 0 demo_sys = Ret s' v"
    using hello_llseek_ok [OF demo_sys_ok] by blast
  from r cdev_llseek_spec [OF demo_sys_ok r] show ?thesis by blast
qed

text \<open>
  The check of an absolute offset looks at its low 32 bits only: an offset of any number of
  4 GiB beyond a valid one, far past the 4 KiB device, is accepted and taken for the valid one.
\<close>

theorem cdev_llseek_truncates:
  assumes "k \<le> 4096" and "j < 2 ^ 31"
  shows "hello_llseek (of_nat (j * 2 ^ 32 + k)) 0 s =
    Ret (s\<lparr>filp := (filp s)\<lparr>f_pos := of_nat k\<rparr>\<rparr>) (int k)"
proof -
  let ?o = "of_nat (j * 2 ^ 32 + k) :: u64"
  have "j * 2 ^ 32 \<le> (2 ^ 31 - 1) * 2 ^ 32" using assms(2) by (intro mult_le_mono1) simp
  then have b: "j * 2 ^ 32 + k < 2 ^ 63" using assms(1) by simp
  then have o: "unat ?o = j * 2 ^ 32 + k" by (intro unat_of_nat_u64) simp
  have k: "unat (of_nat k :: u64) = k" using assms(1) by (intro unat_of_nat_u64) simp
  have lo: "unat (ucast ?o :: u32) = k" using assms(1) by (simp only: kword o) simp
  have "sint ?o = int (j * 2 ^ 32 + k)" using sint_small_u64 [of ?o] b by (simp only: o)
  then have "\<not> sint ?o < 0" by simp
  moreover have "\<not> (ucast ?o :: u32) > 4096" using assms(1) by (simp only: word_less_nat_alt lo) simp
  moreover have "ucast (ucast ?o :: u32) = (of_nat k :: u64)"
    by (rule word_unat_eq_iff [THEN iffD2]) (simp only: unat_ucast_32_64 lo k)
  moreover have "sint (of_nat k :: u64) = int k"
    using sint_small_u64 [of "of_nat k"] assms(1) by (simp only: k) simp
  ultimately show ?thesis by (simp only: hello_llseek_def Let_def if_True if_False refl)
qed

theorem cdev_llseek_truncates_witness:
  "hello_llseek (of_nat (5 * 2 ^ 32 + 7)) 0 demo_sys =
    Ret (demo_sys\<lparr>filp := (filp demo_sys)\<lparr>f_pos := of_nat 7\<rparr>\<rparr>) (int 7)"
  by (rule cdev_llseek_truncates) simp_all

section \<open>Loading and unloading\<close>

definition unloaded :: "int \<Rightarrow> cdev_module" where
  "unloaded maj = \<lparr>hello_major = maj, devp = None, res = no_resources\<rparr>"

text \<open>
  Loading is all or nothing as far as the device numbers and the memory go: a load that fails
  leaves no region registered and no device allocated; a load that succeeds leaves exactly one
  region and a zeroed device, initialises the mutex before the device can be opened, and can be
  undone by unloading. The device can be opened only if \<open>cdev_add\<close> succeeded, which the load does
  not report.
\<close>

theorem cdev_load_unload:
  assumes "chrdev_numbers E" and init: "hello_init E (unloaded maj) = (ret, m)"
  shows "if ret < 0 then regions (res m) = [] \<and> devp m = None \<and> cdev_live (res m) = None
    else ret = 0 \<and> devp m = Some \<lparr>mem = replicate HELLODEV_SIZE 0, mutex = False\<rparr> \<and>
      length (regions (res m)) = 1 \<and>
      (cdev_live (res m) \<noteq> None \<longleftrightarrow> cdev_add_ret E (mkdev E (hello_major m) 0) = 0) \<and>
      take 3 (init_log (res m)) = [EvRegion, EvAlloc, EvMutexInit] \<and>
      devp (hello_exit E m) = None \<and> regions (res (hello_exit E m)) = [] \<and>
      cdev_live (res (hello_exit E m)) = None"
proof -
  note num = chrdev_numbers.alloc_minor_zero [OF assms(1)]
  show ?thesis
    using init num
    by (cases "maj = 0"; cases "kzalloc_ok E")
      (auto simp: hello_init_def hello_exit_def hello_setup_cdev_def unloaded_def no_resources_def
        Let_def errno_defs split: if_splits)
qed

theorem cdev_load_unload_witness:
  "\<exists>ret m. hello_init (linux_chrdev 5) (unloaded 0) = (ret, m) \<and>
    (if ret < 0 then regions (res m) = [] \<and> devp m = None \<and> cdev_live (res m) = None
     else ret = 0 \<and> devp m = Some \<lparr>mem = replicate HELLODEV_SIZE 0, mutex = False\<rparr> \<and>
      length (regions (res m)) = 1 \<and>
      (cdev_live (res m) \<noteq> None \<longleftrightarrow>
        cdev_add_ret (linux_chrdev 5) (mkdev (linux_chrdev 5) (hello_major m) 0) = 0) \<and>
      take 3 (init_log (res m)) = [EvRegion, EvAlloc, EvMutexInit] \<and>
      devp (hello_exit (linux_chrdev 5) m) = None \<and> regions (res (hello_exit (linux_chrdev 5) m)) = [] \<and>
      cdev_live (res (hello_exit (linux_chrdev 5) m)) = None)"
proof -
  obtain ret m where i: "hello_init (linux_chrdev 5) (unloaded 0) = (ret, m)" by fastforce
  from i cdev_load_unload [OF linux_chrdev.chrdev_numbers_axioms i] show ?thesis by blast
qed

end
