(* ===== verification/Globalfifo.thy ===== *)
theory Globalfifo
  imports Char_Device
begin

text \<open>
  The blocking FIFO device of \<open>src/globalfifo/main.c\<close>. Several processes may be inside its file
  operations at once; a handler gives up the processor where the code takes the mutex or calls
  \<open>schedule\<close>. Each handler is therefore a function that performs the next piece of code of one
  task, named by a program point; \<open>Block\<close> means that the task cannot go on now. The theory holds
  the model and the laws of the kernel services it uses.
\<close>

section \<open>Device, tasks and program points\<close>

abbreviation HELLODEV_SIZE :: nat where "HELLODEV_SIZE \<equiv> 4096"
definition MEM_CLEAR :: u32 where "MEM_CLEAR = 1"

type_synonym tid = nat

datatype wq = RWait | WWait

type_synonym waitqs = "wq \<Rightarrow> tid list"

text \<open>\<open>mutex\<close> holds the task that owns the lock; \<open>waitq\<close> the two wait queues.\<close>

record hello_dev =
  current_len :: u32
  mem :: "byte list"
  mutex :: "tid option"
  waitq :: waitqs

datatype tstate = TASK_RUNNING | TASK_INTERRUPTIBLE

text \<open>
  Program points. \<open>R_\<close> points belong to \<open>hello_read\<close>: before the \<open>mutex_lock\<close> of line 70, before
  \<open>add_wait_queue\<close>, at the head of the loop, in \<open>schedule\<close>, after it, before the \<open>mutex_lock\<close> of
  line 87, after the loop, at \<open>out\<close> and at \<open>out2\<close>. \<open>W_\<close>, \<open>P_\<close> and \<open>I_\<close> points belong to \<open>hello_write\<close>,
  \<open>hello_poll\<close> and \<open>hello_ioctl\<close>.
\<close>

datatype pc = Idle
  | R_lock | R_add | R_test | R_sched | R_sig | R_relock | R_copy | R_out | R_out2
  | W_lock | W_add | W_test | W_sched | W_sig | W_relock | W_copy | W_out | W_out2
  | P_lock | P_mask | P_lock2
  | I_lock | I_clear | I_unlock

record task =
  pc :: pc
  tstate :: tstate
  private_data :: bool
  nonblock :: bool
  sigpending :: bool
  ubuf :: addr
  count :: u64
  ret :: int
  f_pos :: u64

record 'u sys =
  dev :: hello_dev
  tasks :: "tid \<Rightarrow> task"
  user :: 'u

text \<open>What a step does to the data in the FIFO.\<close>

datatype event = Tau | Consumed "byte list" | Produced "byte list" | Cleared

text \<open>
  The kernel services besides the user copies: \<open>memcpy\<close> inside one block (block, target offset,
  source offset, length), the wait-queue functions, and the tasks a wake-up of a queue reaches.
\<close>

record fifo_lib =
  memcpy :: "byte list \<Rightarrow> nat \<Rightarrow> nat \<Rightarrow> nat \<Rightarrow> byte list"
  add_wait_queue :: "wq \<Rightarrow> tid \<Rightarrow> waitqs \<Rightarrow> waitqs"
  remove_wait_queue :: "wq \<Rightarrow> tid \<Rightarrow> waitqs \<Rightarrow> waitqs"
  woken :: "wq \<Rightarrow> waitqs \<Rightarrow> tid list"

section \<open>Steps of one task\<close>

definition upd_task :: "tid \<Rightarrow> (task \<Rightarrow> task) \<Rightarrow> 'u sys \<Rightarrow> 'u sys" where
  "upd_task t f s = s\<lparr>tasks := (tasks s)(t := f (tasks s t))\<rparr>"

definition goto :: "tid \<Rightarrow> pc \<Rightarrow> 'u sys \<Rightarrow> 'u sys" where
  "goto t p s = upd_task t (\<lambda>tk. tk\<lparr>pc := p\<rparr>) s"

definition leave :: "tid \<Rightarrow> int \<Rightarrow> pc \<Rightarrow> 'u sys \<Rightarrow> 'u sys" where
  "leave t v p s = upd_task t (\<lambda>tk. tk\<lparr>ret := v, pc := p\<rparr>) s"

definition mutex_lock :: "tid \<Rightarrow> pc \<Rightarrow> 'u sys \<Rightarrow> ('u sys, event) run" where
  "mutex_lock t p s =
     (if mutex (dev s) = None then Ret (goto t p (s\<lparr>dev := (dev s)\<lparr>mutex := Some t\<rparr>\<rparr>)) Tau
      else Block s)"

definition mutex_unlock :: "'u sys \<Rightarrow> 'u sys" where
  "mutex_unlock s = s\<lparr>dev := (dev s)\<lparr>mutex := None\<rparr>\<rparr>"

definition wake_up_interruptible :: "fifo_lib \<Rightarrow> wq \<Rightarrow> 'u sys \<Rightarrow> 'u sys" where
  "wake_up_interruptible L q s =
     s\<lparr>tasks := (\<lambda>x. if x \<in> set (woken L q (waitq (dev s)))
                     then (tasks s x)\<lparr>tstate := TASK_RUNNING\<rparr> else tasks s x)\<rparr>"

definition add_wait :: "fifo_lib \<Rightarrow> wq \<Rightarrow> tid \<Rightarrow> 'u sys \<Rightarrow> 'u sys" where
  "add_wait L q t s = s\<lparr>dev := (dev s)\<lparr>waitq := add_wait_queue L q t (waitq (dev s))\<rparr>\<rparr>"

definition remove_wait :: "fifo_lib \<Rightarrow> wq \<Rightarrow> tid \<Rightarrow> 'u sys \<Rightarrow> 'u sys" where
  "remove_wait L q t s = s\<lparr>dev := (dev s)\<lparr>waitq := remove_wait_queue L q t (waitq (dev s))\<rparr>\<rparr>"

text \<open>Lines 90 to 104 of \<open>hello_read\<close>.\<close>

definition read_copy :: "'u uaccess \<Rightarrow> fifo_lib \<Rightarrow> tid \<Rightarrow> 'u sys \<Rightarrow> ('u sys, event) run" where
  "read_copy K L t s =
     (let d = dev s; len = ucast (current_len d) :: u64;
          cnt = (if count (tasks s t) > len then len else count (tasks s t))
      in case mem_load (mem d) 0 (unat cnt) of
           None \<Rightarrow> Fault OutOfBounds
         | Some bs \<Rightarrow>
             (case copy_to_user K (user s) (ubuf (tasks s t)) bs of (u', rest) \<Rightarrow>
               if rest \<noteq> 0 then Ret (leave t (- EFAULT) R_out (s\<lparr>user := u'\<rparr>)) Tau
               else if unat cnt + unat (len - cnt) > length (mem d) then Fault OutOfBounds
               else let d' = d\<lparr>mem := memcpy L (mem d) 0 (unat cnt) (unat (len - cnt)),
                              current_len := current_len d - ucast cnt\<rparr>;
                        s' = wake_up_interruptible L WWait (s\<lparr>user := u', dev := d'\<rparr>)
                    in Ret (leave t (sint (ucast cnt :: u32)) R_out s') (Consumed bs)))"

definition hello_read :: "'u uaccess \<Rightarrow> fifo_lib \<Rightarrow> tid \<Rightarrow> 'u sys \<Rightarrow> ('u sys, event) run" where
  "hello_read K L t s =
     (let tk = tasks s t in
      if \<not> private_data tk then Fault NullDeref
      else case pc tk of
        R_lock \<Rightarrow> mutex_lock t R_add s
      | R_add \<Rightarrow> Ret (goto t R_test (add_wait L RWait t s)) Tau
      | R_test \<Rightarrow>
          if current_len (dev s) = 0 then
            if nonblock tk then Ret (leave t (- EAGAIN) R_out s) Tau
            else Ret (mutex_unlock (upd_task t (\<lambda>k. k\<lparr>tstate := TASK_INTERRUPTIBLE, pc := R_sched\<rparr>) s)) Tau
          else Ret (goto t R_copy s) Tau
      | R_sched \<Rightarrow> if tstate tk = TASK_RUNNING then Ret (goto t R_sig s) Tau else Block s
      | R_sig \<Rightarrow> if sigpending tk then Ret (leave t (- ERESTARTSYS) R_out2 s) Tau
                else Ret (goto t R_relock s) Tau
      | R_relock \<Rightarrow> mutex_lock t R_test s
      | R_copy \<Rightarrow> read_copy K L t s
      | R_out \<Rightarrow> Ret (goto t R_out2 (mutex_unlock s)) Tau
      | R_out2 \<Rightarrow> Ret (upd_task t (\<lambda>k. k\<lparr>tstate := TASK_RUNNING, pc := Idle\<rparr>) (remove_wait L WWait t s)) Tau
      | _ \<Rightarrow> Block s)"

text \<open>Lines 142 to 156 of \<open>hello_write\<close>.\<close>

definition write_copy :: "'u uaccess \<Rightarrow> fifo_lib \<Rightarrow> tid \<Rightarrow> 'u sys \<Rightarrow> ('u sys, event) run" where
  "write_copy K L t s =
     (let d = dev s; room = ucast (4096 - current_len d) :: u64;
          cnt = (if count (tasks s t) > room then room else count (tasks s t))
      in case copy_from_user K (user s) (ubuf (tasks s t)) (unat cnt) of (bs, rest) \<Rightarrow>
           (case mem_store (mem d) (unat (current_len d)) bs of
              None \<Rightarrow> Fault OutOfBounds
            | Some m' \<Rightarrow>
                if rest \<noteq> 0 then Ret (leave t (- EFAULT) W_out (s\<lparr>dev := d\<lparr>mem := m'\<rparr>\<rparr>)) Tau
                else let d' = d\<lparr>mem := m', current_len := current_len d + ucast cnt\<rparr>;
                         s' = wake_up_interruptible L RWait (s\<lparr>dev := d'\<rparr>)
                     in Ret (leave t (sint (ucast cnt :: u32)) W_out s') (Produced bs)))"

definition hello_write :: "'u uaccess \<Rightarrow> fifo_lib \<Rightarrow> tid \<Rightarrow> 'u sys \<Rightarrow> ('u sys, event) run" where
  "hello_write K L t s =
     (let tk = tasks s t in
      if \<not> private_data tk then Fault NullDeref
      else case pc tk of
        W_lock \<Rightarrow> mutex_lock t W_add s
      | W_add \<Rightarrow> Ret (goto t W_test (add_wait L WWait t s)) Tau
      | W_test \<Rightarrow>
          if current_len (dev s) = 4096 then
            if nonblock tk then Ret (leave t (- EAGAIN) W_out s) Tau
            else Ret (mutex_unlock (upd_task t (\<lambda>k. k\<lparr>tstate := TASK_INTERRUPTIBLE, pc := W_sched\<rparr>) s)) Tau
          else Ret (goto t W_copy s) Tau
      | W_sched \<Rightarrow> if tstate tk = TASK_RUNNING then Ret (goto t W_sig s) Tau else Block s
      | W_sig \<Rightarrow> if sigpending tk then Ret (leave t (- ERESTARTSYS) W_out2 s) Tau
                else Ret (goto t W_relock s) Tau
      | W_relock \<Rightarrow> mutex_lock t W_test s
      | W_copy \<Rightarrow> write_copy K L t s
      | W_out \<Rightarrow> Ret (goto t W_out2 (mutex_unlock s)) Tau
      | W_out2 \<Rightarrow> Ret (upd_task t (\<lambda>k. k\<lparr>tstate := TASK_RUNNING, pc := Idle\<rparr>) (remove_wait L WWait t s)) Tau
      | _ \<Rightarrow> Block s)"

text \<open>\<open>POLLIN | POLLRDNORM\<close> is \<open>0x41\<close>, \<open>POLLOUT | POLLWRNORM\<close> is \<open>0x104\<close>.\<close>

definition poll_mask :: "hello_dev \<Rightarrow> int" where
  "poll_mask d = (if current_len d \<noteq> 0 then 65 else 0) + (if current_len d \<noteq> 4096 then 260 else 0)"

text \<open>The second \<open>mutex_lock\<close> is the one of line 185.\<close>

definition hello_poll :: "tid \<Rightarrow> 'u sys \<Rightarrow> ('u sys, event) run" where
  "hello_poll t s =
     (if \<not> private_data (tasks s t) then Fault NullDeref
      else case pc (tasks s t) of
        P_lock \<Rightarrow> mutex_lock t P_mask s
      | P_mask \<Rightarrow> Ret (leave t (poll_mask (dev s)) P_lock2 s) Tau
      | P_lock2 \<Rightarrow> mutex_lock t Idle s
      | _ \<Rightarrow> Block s)"

definition hello_ioctl :: "tid \<Rightarrow> 'u sys \<Rightarrow> ('u sys, event) run" where
  "hello_ioctl t s =
     (if \<not> private_data (tasks s t) then Fault NullDeref
      else case pc (tasks s t) of
        I_lock \<Rightarrow> mutex_lock t I_clear s
      | I_clear \<Rightarrow> Ret (goto t I_unlock (s\<lparr>dev := (dev s)\<lparr>mem := replicate HELLODEV_SIZE 0\<rparr>\<rparr>)) Cleared
      | I_unlock \<Rightarrow> Ret (leave t 0 Idle (mutex_unlock s)) Tau
      | _ \<Rightarrow> Block s)"

section \<open>Entering the handlers\<close>

definition hello_open :: "tid \<Rightarrow> 'u sys \<Rightarrow> 'u sys" where
  "hello_open t s = upd_task t (\<lambda>k. k\<lparr>private_data := True, ret := 0\<rparr>) s"

definition hello_release :: "tid \<Rightarrow> 'u sys \<Rightarrow> 'u sys" where
  "hello_release t s = upd_task t (\<lambda>k. k\<lparr>ret := 0\<rparr>) s"

definition call_read :: "tid \<Rightarrow> addr \<Rightarrow> u64 \<Rightarrow> bool \<Rightarrow> 'u sys \<Rightarrow> 'u sys" where
  "call_read t b n nb s = upd_task t (\<lambda>k. k\<lparr>ubuf := b, count := n, nonblock := nb, pc := R_lock\<rparr>) s"

definition call_write :: "tid \<Rightarrow> addr \<Rightarrow> u64 \<Rightarrow> bool \<Rightarrow> 'u sys \<Rightarrow> 'u sys" where
  "call_write t b n nb s = upd_task t (\<lambda>k. k\<lparr>ubuf := b, count := n, nonblock := nb, pc := W_lock\<rparr>) s"

definition call_ioctl :: "tid \<Rightarrow> u32 \<Rightarrow> 'u sys \<Rightarrow> 'u sys" where
  "call_ioctl t cmd s = (if cmd = MEM_CLEAR then goto t I_lock s else leave t (- EINVAL) Idle s)"

definition hello_llseek :: "tid \<Rightarrow> u64 \<Rightarrow> int \<Rightarrow> 'u sys \<Rightarrow> 'u sys" where
  "hello_llseek t offset orig s =
     (let pos = f_pos (tasks s t);
          seek = (\<lambda>p :: u64. upd_task t (\<lambda>k. k\<lparr>f_pos := p, ret := sint p\<rparr>) s);
          einval = upd_task t (\<lambda>k. k\<lparr>ret := - EINVAL\<rparr>) s
      in if orig = 0 then
           (if sint offset < 0 then einval
            else if (ucast offset :: u32) > 4096 then einval
            else seek (ucast (ucast offset :: u32)))
         else if orig = 1 then
           (if sint (pos + offset) > 4096 then einval
            else if sint (pos + offset) < 0 then einval
            else seek (pos + offset))
         else einval)"

section \<open>Load and unload\<close>

record fifo_module =
  hello_major :: int
  devp :: "hello_dev option"
  res :: chrdev_res

definition fresh_dev :: hello_dev where
  "fresh_dev = \<lparr>current_len = 0, mem = replicate HELLODEV_SIZE 0, mutex = None, waitq = (\<lambda>_. [])\<rparr>"

definition hello_setup_cdev :: "chrdev_env \<Rightarrow> int \<Rightarrow> fifo_module \<Rightarrow> fifo_module" where
  "hello_setup_cdev E index m =
     (let devno = mkdev E (hello_major m) index; err = cdev_add_ret E devno
      in if err \<noteq> 0 then m
         else m\<lparr>res := log_event EvCdevAdd ((res m)\<lparr>cdev_live := Some devno\<rparr>)\<rparr>)"

definition hello_init :: "chrdev_env \<Rightarrow> fifo_module \<Rightarrow> int \<times> fifo_module" where
  "hello_init E m =
     (let devno0 = mkdev E (hello_major m) 0;
          (ret, devno, m1) =
            (if hello_major m \<noteq> 0 then (register_ret E devno0, devno0, m)
             else (alloc_ret E, alloc_devno E, m\<lparr>hello_major := major E (alloc_devno E)\<rparr>))
      in if ret < 0 then (ret, m1)
         else let m2 = m1\<lparr>res := log_event EvRegion ((res m1)\<lparr>regions := devno # regions (res m1)\<rparr>)\<rparr>
           in if \<not> kzalloc_ok E then
                (- ENOMEM, m2\<lparr>res := (res m2)\<lparr>regions := remove1 devno (regions (res m2))\<rparr>, devp := None\<rparr>)
              else let m3 = hello_setup_cdev E 0 (m2\<lparr>devp := Some fresh_dev, res := log_event EvAlloc (res m2)\<rparr>);
                       m4 = m3\<lparr>res := log_event EvWaitqInit (log_event EvMutexInit (res m3))\<rparr>
                in (0, m4))"

definition hello_exit :: "chrdev_env \<Rightarrow> fifo_module \<Rightarrow> fifo_module" where
  "hello_exit E m =
     m\<lparr>devp := None,
       res := (res m)\<lparr>cdev_live := None,
                regions := remove1 (mkdev E (hello_major m) 0) (regions (res m))\<rparr>\<rparr>"

section \<open>Laws of the kernel services\<close>

text \<open>
  \<open>memcpy\<close> writes its target range only, and copies faithfully when the two ranges do not overlap;
  \<open>add_wait_queue\<close> enters a task on the queue it names, \<open>remove_wait_queue\<close> takes a task off the
  queue it is on and disturbs no other task, and a wake-up reaches every task on the queue.
\<close>

locale fifo_kernel = user_access K ub for K :: "'u uaccess" and ub +
  fixes L :: fifo_lib
  assumes memcpy_len: "d + n \<le> length m \<Longrightarrow> s + n \<le> length m \<Longrightarrow> length (memcpy L m d s n) = length m"
    and memcpy_disjoint: "d + n \<le> s \<or> s + n \<le> d \<Longrightarrow> d + n \<le> length m \<Longrightarrow> s + n \<le> length m \<Longrightarrow>
      memcpy L m d s n = take d m @ take n (drop s m) @ drop (d + n) m"
    and add_wait_set: "set (add_wait_queue L q t W q') = (if q' = q then insert t (set (W q)) else set (W q'))"
    and remove_wait_set: "t \<in> set (W q) \<Longrightarrow>
      set (remove_wait_queue L q t W q') = (if q' = q then set (W q) - {t} else set (W q'))"
    and remove_wait_other: "x \<noteq> t \<Longrightarrow> x \<in> set (remove_wait_queue L q t W q') \<longleftrightarrow> x \<in> set (W q')"
    and woken_set: "set (woken L q W) = set (W q)"

text \<open>
  The C standard leaves an overlapping \<open>memcpy\<close> undefined. A platform whose \<open>memcpy\<close> copies in
  ascending order also gets a move towards lower addresses right.
\<close>

locale fifo_kernel_ascending = fifo_kernel +
  assumes memcpy_down: "d \<le> s \<Longrightarrow> s + n \<le> length m \<Longrightarrow>
    memcpy L m d s n = take d m @ take n (drop s m) @ drop (d + n) m"

text \<open>Two byte loops that satisfy the contract of \<open>memcpy\<close>: ascending and descending.\<close>

fun copy_up :: "byte list \<Rightarrow> nat \<Rightarrow> nat \<Rightarrow> nat \<Rightarrow> byte list" where
  "copy_up m d s 0 = m"
| "copy_up m d s (Suc n) = copy_up (m[d := m ! s]) (Suc d) (Suc s) n"

fun copy_down :: "byte list \<Rightarrow> nat \<Rightarrow> nat \<Rightarrow> nat \<Rightarrow> byte list" where
  "copy_down m d s 0 = m"
| "copy_down m d s (Suc n) = copy_down (m[d + n := m ! (s + n)]) d s n"

definition list_lib :: "(byte list \<Rightarrow> nat \<Rightarrow> nat \<Rightarrow> nat \<Rightarrow> byte list) \<Rightarrow> fifo_lib" where
  "list_lib mc = \<lparr>memcpy = mc,
     add_wait_queue = (\<lambda>q t W. W(q := t # W q)),
     remove_wait_queue = (\<lambda>q t W. W(q := removeAll t (W q))),
     woken = (\<lambda>q W. W q)\<rparr>"

lemma copy_up_length [simp]: "length (copy_up m d s n) = length m"
  by (induction m d s n rule: copy_up.induct) simp_all

lemma copy_down_length [simp]: "length (copy_down m d s n) = length m"
  by (induction m d s n rule: copy_down.induct) simp_all

lemma copy_up_nth:
  "d \<le> s \<or> s + n \<le> d \<Longrightarrow> d + n \<le> length m \<Longrightarrow> s + n \<le> length m \<Longrightarrow> i < length m \<Longrightarrow>
   copy_up m d s n ! i = (if d \<le> i \<and> i < d + n then m ! (s + (i - d)) else m ! i)"
proof (induction m d s n rule: copy_up.induct)
  case (2 m d s n)
  then show ?case
    by (auto simp: nth_list_update not_le less_Suc_eq intro!: arg_cong [where f = "(!) m"])
qed auto

lemma copy_down_nth:
  "s \<le> d \<or> d + n \<le> s \<Longrightarrow> d + n \<le> length m \<Longrightarrow> s + n \<le> length m \<Longrightarrow> i < length m \<Longrightarrow>
   copy_down m d s n ! i = (if d \<le> i \<and> i < d + n then m ! (s + (i - d)) else m ! i)"
proof (induction m d s n rule: copy_down.induct)
  case (2 m d s n)
  then show ?case by (auto simp: nth_list_update not_le less_Suc_eq)
qed auto

lemma moved_block_nth:
  assumes "d + n \<le> length m" "s + n \<le> length m" "i < length m"
  shows "(take d m @ take n (drop s m) @ drop (d + n) m) ! i =
     (if d \<le> i \<and> i < d + n then m ! (s + (i - d)) else m ! i)"
proof -
  have "length (take d m) = d" "length (take n (drop s m)) = n" using assms by auto
  then show ?thesis using assms
    by (auto simp: nth_append simp del: length_take length_drop)
qed

lemma copy_up_block:
  "d \<le> s \<or> s + n \<le> d \<Longrightarrow> d + n \<le> length m \<Longrightarrow> s + n \<le> length m \<Longrightarrow>
   copy_up m d s n = take d m @ take n (drop s m) @ drop (d + n) m"
  by (rule nth_equalityI) (auto simp: copy_up_nth moved_block_nth)

lemma copy_down_block:
  "s \<le> d \<or> d + n \<le> s \<Longrightarrow> d + n \<le> length m \<Longrightarrow> s + n \<le> length m \<Longrightarrow>
   copy_down m d s n = take d m @ take n (drop s m) @ drop (d + n) m"
  by (rule nth_equalityI) (auto simp: copy_down_nth moved_block_nth)

interpretation up_lib: fifo_kernel_ascending flat_uaccess flat_byte "list_lib copy_up"
  by unfold_locales (auto simp: list_lib_def copy_up_block)

interpretation down_lib: fifo_kernel flat_uaccess flat_byte "list_lib copy_down"
  by unfold_locales (auto simp: list_lib_def copy_down_block)

end
