(* ===== verification/Globalfifo_Run.thy ===== *)
theory Globalfifo_Run
  imports Globalfifo
begin

text \<open>
  Processes running concurrently in the FIFO device: the step relation that interleaves the
  handlers of \<open>Globalfifo\<close> with signals and with stores of the processes to their own memory,
  the invariants of every reachable state, the refinement of a byte queue, and what the device
  guarantees to its users.
\<close>

section \<open>Interleaved execution\<close>

inductive fifo_step :: "'u uaccess \<Rightarrow> fifo_lib \<Rightarrow> 'u sys \<Rightarrow> event \<Rightarrow> 'u sys \<Rightarrow> bool"
  for K :: "'u uaccess" and L :: fifo_lib where
  run_read: "hello_read K L t s = Ret s' e \<Longrightarrow> fifo_step K L s e s'"
| run_write: "hello_write K L t s = Ret s' e \<Longrightarrow> fifo_step K L s e s'"
| run_poll: "hello_poll t s = Ret s' e \<Longrightarrow> fifo_step K L s e s'"
| run_ioctl: "hello_ioctl t s = Ret s' e \<Longrightarrow> fifo_step K L s e s'"
| enter_open: "pc (tasks s t) = Idle \<Longrightarrow> fifo_step K L s Tau (hello_open t s)"
| enter_release: "pc (tasks s t) = Idle \<Longrightarrow> fifo_step K L s Tau (hello_release t s)"
| enter_read: "pc (tasks s t) = Idle \<Longrightarrow> private_data (tasks s t) \<Longrightarrow>
    fifo_step K L s Tau (call_read t b n nb s)"
| enter_write: "pc (tasks s t) = Idle \<Longrightarrow> private_data (tasks s t) \<Longrightarrow>
    fifo_step K L s Tau (call_write t b n nb s)"
| enter_poll: "pc (tasks s t) = Idle \<Longrightarrow> private_data (tasks s t) \<Longrightarrow>
    fifo_step K L s Tau (goto t P_lock s)"
| enter_ioctl: "pc (tasks s t) = Idle \<Longrightarrow> private_data (tasks s t) \<Longrightarrow>
    fifo_step K L s Tau (call_ioctl t cmd s)"
| enter_llseek: "pc (tasks s t) = Idle \<Longrightarrow> private_data (tasks s t) \<Longrightarrow>
    fifo_step K L s Tau (hello_llseek t off orig s)"
| signal: "fifo_step K L s Tau (upd_task t (\<lambda>k. k\<lparr>sigpending := True, tstate := TASK_RUNNING\<rparr>) s)"
| signal_done: "pc (tasks s t) = Idle \<Longrightarrow>
    fifo_step K L s Tau (upd_task t (\<lambda>k. k\<lparr>sigpending := False\<rparr>) s)"
| user_store: "fifo_step K L s Tau (s\<lparr>user := u\<rparr>)"

inductive fifo_run :: "'u uaccess \<Rightarrow> fifo_lib \<Rightarrow> 'u sys \<Rightarrow> event list \<Rightarrow> 'u sys \<Rightarrow> bool"
  for K :: "'u uaccess" and L :: fifo_lib where
  run_nil: "fifo_run K L s [] s"
| run_snoc: "fifo_run K L s es s' \<Longrightarrow> fifo_step K L s' e s'' \<Longrightarrow> fifo_run K L s (es @ [e]) s''"

text \<open>A loaded device, with every task outside the handlers.\<close>

definition idle_task :: task where
  "idle_task = \<lparr>pc = Idle, tstate = TASK_RUNNING, private_data = False, nonblock = False,
     sigpending = False, ubuf = 0, count = 0, ret = 0, f_pos = 0\<rparr>"

definition fifo_start :: "'u \<Rightarrow> 'u sys" where
  "fifo_start u = \<lparr>dev = fresh_dev, tasks = (\<lambda>_. idle_task), user = u\<rparr>"

section \<open>Invariants\<close>

lemmas step_defs = upd_task_def goto_def leave_def mutex_lock_def mutex_unlock_def add_wait_def
  remove_wait_def wake_up_interruptible_def

lemmas entry_defs = hello_open_def hello_release_def call_read_def call_write_def call_ioctl_def
  hello_llseek_def

text \<open>The program points between taking and giving back the mutex.\<close>

fun holds :: "pc \<Rightarrow> bool" where
  "holds R_add = True" | "holds R_test = True" | "holds R_copy = True" | "holds R_out = True"
| "holds W_add = True" | "holds W_test = True" | "holds W_copy = True" | "holds W_out = True"
| "holds P_mask = True" | "holds P_lock2 = True" | "holds I_clear = True" | "holds I_unlock = True"
| "holds _ = False"

definition mutex_inv :: "'u sys \<Rightarrow> bool" where
  "mutex_inv s \<longleftrightarrow> (\<forall>t. holds (pc (tasks s t)) \<longleftrightarrow> mutex (dev s) = Some t)"

definition data_inv :: "'u sys \<Rightarrow> bool" where
  "data_inv s \<longleftrightarrow> length (mem (dev s)) = HELLODEV_SIZE \<and> current_len (dev s) \<le> 4096"

text \<open>A task inside a handler has the file open.\<close>

definition open_inv :: "'u sys \<Rightarrow> bool" where
  "open_inv s \<longleftrightarrow> (\<forall>t. pc (tasks s t) \<noteq> Idle \<longrightarrow> private_data (tasks s t))"

lemma mutex_invD: "mutex_inv s \<Longrightarrow> holds (pc (tasks s t)) \<longleftrightarrow> mutex (dev s) = Some t"
  by (simp add: mutex_inv_def)

text \<open>
  How a step of task \<open>t\<close> moves its program point and the mutex: it leaves both the lock and the
  question whether \<open>t\<close> is in its critical section alone, or takes the lock on entering it, or
  gives it back on leaving it; other tasks stay where they are.
\<close>

definition lock_shape :: "tid \<Rightarrow> 'u sys \<Rightarrow> 'u sys \<Rightarrow> bool" where
  "lock_shape t s s' \<longleftrightarrow> (\<forall>x. x \<noteq> t \<longrightarrow> pc (tasks s' x) = pc (tasks s x)) \<and>
     (mutex (dev s') = mutex (dev s) \<and> holds (pc (tasks s' t)) = holds (pc (tasks s t)) \<or>
      mutex (dev s) = None \<and> mutex (dev s') = Some t \<and> holds (pc (tasks s' t)) \<or>
      mutex (dev s') = None \<and> holds (pc (tasks s t)) \<and> \<not> holds (pc (tasks s' t)))"

lemma lock_shape_mutex_inv:
  assumes "mutex_inv s" "lock_shape t s s'" shows "mutex_inv s'"
  unfolding mutex_inv_def
proof
  fix x
  show "holds (pc (tasks s' x)) \<longleftrightarrow> mutex (dev s') = Some x"
    using assms mutex_invD [OF assms(1), of t] mutex_invD [OF assms(1), of x]
    by (cases "x = t") (auto simp: lock_shape_def)
qed

lemma read_copy_shape:
  assumes "read_copy K L t s = Ret s' e"
  shows "mutex (dev s') = mutex (dev s)" "waitq (dev s') = waitq (dev s)"
    "pc (tasks s' x) = (if x = t then R_out else pc (tasks s x))"
    "private_data (tasks s' x) = private_data (tasks s x)"
  using assms by (auto simp: read_copy_def step_defs Let_def split: if_splits option.splits prod.splits)

lemma write_copy_shape:
  assumes "write_copy K L t s = Ret s' e"
  shows "mutex (dev s') = mutex (dev s)" "waitq (dev s') = waitq (dev s)"
    "pc (tasks s' x) = (if x = t then W_out else pc (tasks s x))"
    "private_data (tasks s' x) = private_data (tasks s x)"
  using assms by (auto simp: write_copy_def step_defs Let_def split: if_splits option.splits prod.splits)

lemma hello_read_shape:
  assumes "hello_read K L t s = Ret s' e"
  shows "lock_shape t s s'"
proof (cases "pc (tasks s t) = R_copy")
  case True
  then have "read_copy K L t s = Ret s' e"
    using assms by (simp add: hello_read_def Let_def split: if_splits)
  from read_copy_shape [OF this] show ?thesis using True by (simp add: lock_shape_def)
next
  case False
  then show ?thesis using assms
    by (cases "pc (tasks s t)")
      (auto simp: hello_read_def lock_shape_def step_defs Let_def split: if_splits)
qed

lemma hello_write_shape:
  assumes "hello_write K L t s = Ret s' e"
  shows "lock_shape t s s'"
proof (cases "pc (tasks s t) = W_copy")
  case True
  then have "write_copy K L t s = Ret s' e"
    using assms by (simp add: hello_write_def Let_def split: if_splits)
  from write_copy_shape [OF this] show ?thesis using True by (simp add: lock_shape_def)
next
  case False
  then show ?thesis using assms
    by (cases "pc (tasks s t)")
      (auto simp: hello_write_def lock_shape_def step_defs Let_def split: if_splits)
qed

lemma hello_ioctl_shape: "hello_ioctl t s = Ret s' e \<Longrightarrow> lock_shape t s s'"
  by (cases "pc (tasks s t)")
    (auto simp: hello_ioctl_def lock_shape_def step_defs split: if_splits)

text \<open>The second lock of \<open>hello_poll\<close> cannot be taken while the invariant holds.\<close>

lemma hello_poll_shape:
  "mutex_inv s \<Longrightarrow> hello_poll t s = Ret s' e \<Longrightarrow> lock_shape t s s' \<and> pc (tasks s t) \<noteq> P_lock2"
  using mutex_invD [of s t]
  by (cases "pc (tasks s t)")
    (auto simp: hello_poll_def lock_shape_def step_defs split: if_splits)

lemma step_mutex_inv:
  assumes "fifo_step K L s e s'" and "mutex_inv s"
  shows "mutex_inv s'"
  using assms(1)
proof (cases rule: fifo_step.cases)
  case (run_read t)
  then show ?thesis using assms(2) hello_read_shape lock_shape_mutex_inv by blast
next
  case (run_write t)
  then show ?thesis using assms(2) hello_write_shape lock_shape_mutex_inv by blast
next
  case (run_poll t)
  then show ?thesis using assms(2) hello_poll_shape lock_shape_mutex_inv by blast
next
  case (run_ioctl t)
  then show ?thesis using assms(2) hello_ioctl_shape lock_shape_mutex_inv by blast
qed (use assms(2) in \<open>force simp: mutex_inv_def step_defs entry_defs Let_def\<close>)+

section \<open>The two copies in closed form\<close>

definition flen :: "'u sys \<Rightarrow> nat" where
  "flen s = unat (current_len (dev s))"

definition content :: "'u sys \<Rightarrow> byte list" where
  "content s = take (flen s) (mem (dev s))"

text \<open>The number of bytes a read or a write at this point moves.\<close>

definition rcount :: "tid \<Rightarrow> 'u sys \<Rightarrow> nat" where
  "rcount t s = min (unat (count (tasks s t))) (flen s)"

definition wcount :: "tid \<Rightarrow> 'u sys \<Rightarrow> nat" where
  "wcount t s = min (unat (count (tasks s t))) (4096 - flen s)"

lemma flen_le: "data_inv s \<Longrightarrow> flen s \<le> 4096"
  by (simp add: data_inv_def flen_def word_le_nat_alt)

lemma length_content: "data_inv s \<Longrightarrow> length (content s) = flen s"
  using flen_le [of s] by (simp add: content_def data_inv_def)

lemma of_nat_flen: "of_nat (flen s) = current_len (dev s)"
  by (simp add: flen_def)

lemma unat_min_if: "unat (if c > (r :: u64) then r else c) = min (unat c) (unat r)"
  by (simp add: word_less_nat_alt)

lemma read_copy_run:
  assumes inv: "data_inv s"
    and c: "copy_to_user K (user s) (ubuf (tasks s t)) (take (rcount t s) (mem (dev s))) = (u', rest)"
  shows "read_copy K L t s =
    (if rest \<noteq> 0 then Ret (leave t (- EFAULT) R_out (s\<lparr>user := u'\<rparr>)) Tau
     else Ret (leave t (int (rcount t s)) R_out (wake_up_interruptible L WWait
            (s\<lparr>user := u', dev := (dev s)\<lparr>mem := memcpy L (mem (dev s)) 0 (rcount t s) (flen s - rcount t s),
                                        current_len := of_nat (flen s - rcount t s)\<rparr>\<rparr>)))
          (Consumed (take (rcount t s) (mem (dev s)))))"
proof -
  let ?len = "ucast (current_len (dev s)) :: u64"
  define cnt where "cnt = (if count (tasks s t) > ?len then ?len else count (tasks s t))"
  have len: "unat ?len = flen s" by (simp add: kword flen_def)
  have n: "unat cnt = rcount t s" unfolding cnt_def rcount_def unat_min_if len ..
  have le: "rcount t s \<le> flen s" "flen s \<le> 4096" using flen_le [OF inv] by (simp_all add: rcount_def)
  have mlen: "length (mem (dev s)) = 4096" using inv by (simp add: data_inv_def)
  have "cnt \<le> ?len" using le(1) by (simp add: word_le_nat_alt n len)
  then have sub: "unat (?len - cnt) = flen s - rcount t s" using unat_sub [of cnt ?len] by (simp add: n len)
  have n32: "unat (ucast cnt :: u32) = rcount t s" using le by (simp add: kword n)
  have "ucast cnt \<le> current_len (dev s)"
    using le(1) by (simp add: word_le_nat_alt n32 flip: flen_def)
  then have "unat (current_len (dev s) - ucast cnt) = flen s - rcount t s"
    using unat_sub [of "ucast cnt" "current_len (dev s)"] by (simp add: n32 flip: flen_def)
  moreover have "unat (of_nat (flen s - rcount t s) :: u32) = flen s - rcount t s"
    using le by (intro unat_of_nat_u32) simp
  ultimately have sub32: "current_len (dev s) - ucast cnt = of_nat (flen s - rcount t s)"
    by (simp only: word_unat_eq_iff)
  have si: "sint (ucast cnt :: u32) = int (rcount t s)"
    using sint_small_u32 [of "ucast cnt"] le by (simp add: n32)
  have ld: "mem_load (mem (dev s)) 0 (rcount t s) = Some (take (rcount t s) (mem (dev s)))"
    using le mlen by (simp add: mem_load_def)
  have ok: "\<not> rcount t s + (flen s - rcount t s) > length (mem (dev s))" using le mlen by simp
  show ?thesis
    by (simp only: read_copy_def Let_def cnt_def [symmetric] ld option.case c prod.case n sub sub32 si ok
        if_False)
qed

lemma write_copy_run:
  assumes inv: "data_inv s"
    and c: "copy_from_user K (user s) (ubuf (tasks s t)) (wcount t s) = (bs, rest)"
    and bs: "length bs = wcount t s"
  shows "write_copy K L t s =
    (let m' = take (flen s) (mem (dev s)) @ bs @ drop (flen s + wcount t s) (mem (dev s))
     in if rest \<noteq> 0 then Ret (leave t (- EFAULT) W_out (s\<lparr>dev := (dev s)\<lparr>mem := m'\<rparr>\<rparr>)) Tau
        else Ret (leave t (int (wcount t s)) W_out (wake_up_interruptible L RWait
            (s\<lparr>dev := (dev s)\<lparr>mem := m', current_len := of_nat (flen s + wcount t s)\<rparr>\<rparr>))) (Produced bs))"
proof -
  let ?room = "ucast (4096 - current_len (dev s)) :: u64"
  define cnt where "cnt = (if count (tasks s t) > ?room then ?room else count (tasks s t))"
  have le: "flen s + wcount t s \<le> 4096" "flen s \<le> 4096" using flen_le [OF inv] by (simp_all add: wcount_def)
  have mlen: "length (mem (dev s)) = 4096" and cl: "current_len (dev s) \<le> 4096"
    using inv by (simp_all add: data_inv_def)
  have room: "unat ?room = 4096 - flen s" using unat_sub [OF cl] by (simp add: kword flen_def)
  have n: "unat cnt = wcount t s" unfolding cnt_def wcount_def unat_min_if room ..
  have n32: "unat (ucast cnt :: u32) = wcount t s" using le by (simp add: kword n)
  have add32: "current_len (dev s) + ucast cnt = of_nat (flen s + wcount t s)"
    using le by (intro word_unat_eq_iff [THEN iffD2])
      (simp add: unat_word_ariths n32 unat_of_nat_u32 flip: flen_def)
  have si: "sint (ucast cnt :: u32) = int (wcount t s)"
    using sint_small_u32 [of "ucast cnt"] le by (simp add: n32)
  have st: "mem_store (mem (dev s)) (unat (current_len (dev s))) bs =
      Some (take (flen s) (mem (dev s)) @ bs @ drop (flen s + wcount t s) (mem (dev s)))"
    using le mlen bs by (simp add: mem_store_def flip: flen_def)
  show ?thesis
    by (simp only: write_copy_def Let_def cnt_def [symmetric] n c prod.case st option.case add32 si)
qed

section \<open>Refinement of a byte queue\<close>

text \<open>What each event means for the queue of bytes that the device stands for.\<close>

fun queue_step :: "event \<Rightarrow> byte list \<Rightarrow> byte list \<Rightarrow> bool" where
  "queue_step Tau q q' \<longleftrightarrow> q' = q"
| "queue_step (Consumed bs) q q' \<longleftrightarrow> q = bs @ q'"
| "queue_step (Produced bs) q q' \<longleftrightarrow> q' = q @ bs \<and> length q' \<le> HELLODEV_SIZE"
| "queue_step Cleared q q' \<longleftrightarrow> q' = replicate (length q) 0"

lemma dev_sel_steps [simp]:
  "dev (upd_task t f s) = dev s" "dev (goto t p s) = dev s" "dev (leave t v p s) = dev s"
  "dev (wake_up_interruptible L q s) = dev s"
  "mem (dev (mutex_unlock s)) = mem (dev s)" "current_len (dev (mutex_unlock s)) = current_len (dev s)"
  "mem (dev (add_wait L q t s)) = mem (dev s)" "current_len (dev (add_wait L q t s)) = current_len (dev s)"
  "mem (dev (remove_wait L q t s)) = mem (dev s)"
  "current_len (dev (remove_wait L q t s)) = current_len (dev s)"
  by (simp_all add: step_defs)

lemma user_sel_steps [simp]:
  "user (leave t v p s) = user s" "user (wake_up_interruptible L q s) = user s"
  by (simp_all add: step_defs)

text \<open>A step that does not touch the bytes.\<close>

definition same_data :: "'u sys \<Rightarrow> 'u sys \<Rightarrow> bool" where
  "same_data s s' \<longleftrightarrow> mem (dev s') = mem (dev s) \<and> current_len (dev s') = current_len (dev s)"

lemma same_data_content:
  assumes "same_data s s'"
  shows "flen s' = flen s" "content s' = content s" "data_inv s' \<longleftrightarrow> data_inv s"
  using assms by (simp_all add: same_data_def flen_def content_def data_inv_def)

lemma same_data_queue:
  assumes "same_data s s' \<and> e = Tau" "data_inv s"
  shows "data_inv s' \<and> flen s' = flen s \<and> queue_step e (content s) (content s')"
  using assms by (auto simp: same_data_def data_inv_def flen_def content_def)

lemma mutex_lock_same: "mutex_lock t p s = Ret s' e \<Longrightarrow> same_data s s' \<and> e = Tau"
  by (auto simp: mutex_lock_def same_data_def split: if_splits)

lemma hello_read_same:
  "hello_read K L t s = Ret s' e \<Longrightarrow> pc (tasks s t) \<noteq> R_copy \<Longrightarrow> same_data s s' \<and> e = Tau"
  by (cases "pc (tasks s t)")
    (auto simp: hello_read_def Let_def same_data_def dest: mutex_lock_same split: if_splits)

lemma hello_write_same:
  "hello_write K L t s = Ret s' e \<Longrightarrow> pc (tasks s t) \<noteq> W_copy \<Longrightarrow> same_data s s' \<and> e = Tau"
  by (cases "pc (tasks s t)")
    (auto simp: hello_write_def Let_def same_data_def dest: mutex_lock_same split: if_splits)

lemma hello_poll_same: "hello_poll t s = Ret s' e \<Longrightarrow> same_data s s' \<and> e = Tau"
  by (cases "pc (tasks s t)")
    (auto simp: hello_poll_def same_data_def dest: mutex_lock_same split: if_splits)

lemma hello_ioctl_data:
  assumes "data_inv s" "hello_ioctl t s = Ret s' e"
  shows "data_inv s' \<and> flen s' = flen s \<and> queue_step e (content s) (content s')"
proof (cases "pc (tasks s t) = I_clear")
  case True
  then show ?thesis using assms flen_le [OF assms(1)]
    by (auto simp: hello_ioctl_def data_inv_def content_def flen_def split: if_splits)
next
  case False
  then have "same_data s s' \<and> e = Tau" using assms(2)
    by (cases "pc (tasks s t)")
      (auto simp: hello_ioctl_def same_data_def dest: mutex_lock_same split: if_splits)
  then show ?thesis using assms(1) by (rule same_data_queue)
qed

lemma fifo_step_other:
  assumes "fifo_step K L s e s'"
    and "\<And>t. hello_read K L t s \<noteq> Ret s' e" "\<And>t. hello_write K L t s \<noteq> Ret s' e"
      "\<And>t. hello_ioctl t s \<noteq> Ret s' e"
  shows "same_data s s' \<and> e = Tau"
  using assms(1)
proof (cases rule: fifo_step.cases)
  case (run_poll t)
  then show ?thesis by (rule hello_poll_same)
qed (use assms(2-) in \<open>auto simp: same_data_def entry_defs Let_def\<close>)

context fifo_kernel
begin

lemma read_copy_data:
  assumes inv: "data_inv s" and r: "read_copy K L t s = Ret s' e"
  shows "data_inv s' \<and> (same_data s s' \<and> e = Tau \<or>
    e = Consumed (take (rcount t s) (content s)) \<and> flen s' = flen s - rcount t s \<and>
    mem (dev s') = memcpy L (mem (dev s)) 0 (rcount t s) (flen s - rcount t s) \<and>
    user_bytes (ub (user s')) (ubuf (tasks s t)) (rcount t s) = take (rcount t s) (content s))"
proof -
  obtain u' rest where c: "copy_to_user K (user s) (ubuf (tasks s t)) (take (rcount t s) (mem (dev s))) = (u', rest)"
    by fastforce
  have le: "rcount t s \<le> flen s" "flen s \<le> 4096" using flen_le [OF inv] by (simp_all add: rcount_def)
  have mlen: "length (mem (dev s)) = 4096" using inv by (simp add: data_inv_def)
  have len': "unat (of_nat (flen s - rcount t s) :: u32) = flen s - rcount t s"
    using le by (intro unat_of_nat_u32) simp
  have cl: "(of_nat (flen s - rcount t s) :: u32) \<le> 4096"
    using le by (simp only: word_le_nat_alt len') simp
  have tk: "take (rcount t s) (content s) = take (rcount t s) (mem (dev s))"
    using le by (simp add: content_def)
  have mc: "length (memcpy L (mem (dev s)) 0 (rcount t s) (flen s - rcount t s)) = 4096"
    using le mlen memcpy_len by simp
  show ?thesis
  proof (cases "rest = 0")
    case True
    then have "user_bytes (ub u') (ubuf (tasks s t)) (rcount t s) = take (rcount t s) (mem (dev s))"
      using to_ok [of "user s"] c le mlen by fastforce
    then show ?thesis
      using r read_copy_run [OF inv c, of L] True mc cl by (auto simp: data_inv_def flen_def [of s'] len' tk)
  next
    case False
    then show ?thesis using r read_copy_run [OF inv c] inv
      by (auto simp: same_data_def data_inv_def)
  qed
qed

lemma write_copy_data:
  assumes inv: "data_inv s" and r: "write_copy K L t s = Ret s' e"
  shows "data_inv s' \<and> (e = Tau \<and> flen s' = flen s \<and> content s' = content s \<or>
    e = Produced (user_bytes (ub (user s)) (ubuf (tasks s t)) (wcount t s)) \<and> flen s' = flen s + wcount t s \<and>
    content s' = content s @ user_bytes (ub (user s)) (ubuf (tasks s t)) (wcount t s))"
proof -
  obtain bs rest where c: "copy_from_user K (user s) (ubuf (tasks s t)) (wcount t s) = (bs, rest)"
    by fastforce
  then have bs: "length bs = wcount t s"
    using from_len [of "user s" "ubuf (tasks s t)"] by (metis fst_conv)
  have le: "flen s + wcount t s \<le> 4096" "flen s \<le> 4096" using flen_le [OF inv] by (simp_all add: wcount_def)
  have mlen: "length (mem (dev s)) = 4096" and cl: "current_len (dev s) \<le> 4096"
    using inv by (simp_all add: data_inv_def)
  have len': "unat (of_nat (flen s + wcount t s) :: u32) = flen s + wcount t s"
    using le by (intro unat_of_nat_u32) simp
  have cl': "(of_nat (flen s + wcount t s) :: u32) \<le> 4096"
    using le by (simp only: word_le_nat_alt len') simp
  note run = write_copy_run [OF inv c bs, of L, unfolded Let_def]
  show ?thesis
  proof (cases "rest = 0")
    case True
    then have "bs = user_bytes (ub (user s)) (ubuf (tasks s t)) (wcount t s)" using from_ok c by blast
    moreover have "take (flen s + wcount t s) (take (flen s) (mem (dev s)) @ bs @ drop (flen s + wcount t s) (mem (dev s)))
        = take (flen s) (mem (dev s)) @ bs"
      using le mlen bs by simp
    ultimately show ?thesis
      using r run True le mlen bs cl'
      by (auto simp: data_inv_def flen_def [of s'] content_def len' simp del: of_nat_add)
  next
    case False
    then have m': "mem (dev s') = take (flen s) (mem (dev s)) @ bs @ drop (flen s + wcount t s) (mem (dev s))"
      and c': "current_len (dev s') = current_len (dev s)" and "e = Tau"
      using r run by auto
    moreover have "flen s' = flen s" by (simp add: flen_def c')
    ultimately show ?thesis using le mlen bs cl by (simp add: data_inv_def content_def)
  qed
qed

lemma step_data_inv:
  assumes "fifo_step K L s e s'" and inv: "data_inv s"
  shows "data_inv s'"
  using assms(1)
proof (cases rule: fifo_step.cases)
  case (run_read t)
  show ?thesis
  proof (cases "pc (tasks s t) = R_copy")
    case True
    then have "read_copy K L t s = Ret s' e"
      using run_read by (simp add: hello_read_def Let_def split: if_splits)
    then show ?thesis using read_copy_data inv by blast
  qed (use run_read inv hello_read_same same_data_queue in blast)
next
  case (run_write t)
  show ?thesis
  proof (cases "pc (tasks s t) = W_copy")
    case True
    then have "write_copy K L t s = Ret s' e"
      using run_write by (simp add: hello_write_def Let_def split: if_splits)
    then show ?thesis using write_copy_data inv by blast
  qed (use run_write inv hello_write_same same_data_queue in blast)
next
  case (run_ioctl t)
  then show ?thesis using hello_ioctl_data inv by blast
next
  case (run_poll t)
  then show ?thesis using hello_poll_same same_data_queue inv by blast
qed (use inv in \<open>simp add: data_inv_def entry_defs Let_def\<close>)+

text \<open>
  One step refines one step of the byte queue, when the copy that closes the gap after a read
  either has disjoint ranges or is moved correctly anyway.
\<close>

lemma step_queue:
  assumes step: "fifo_step K L s e s'" and inv: "data_inv s"
    and moved: "\<And>bs. e = Consumed bs \<Longrightarrow> length bs \<le> flen s \<Longrightarrow>
      memcpy L (mem (dev s)) 0 (length bs) (flen s - length bs) =
        take (flen s - length bs) (drop (length bs) (mem (dev s))) @ drop (flen s - length bs) (mem (dev s))"
  shows "queue_step e (content s) (content s')"
  using step
proof (cases rule: fifo_step.cases)
  case (run_read t)
  show ?thesis
  proof (cases "pc (tasks s t) = R_copy")
    case True
    then have "read_copy K L t s = Ret s' e"
      using run_read by (simp add: hello_read_def Let_def split: if_splits)
    from read_copy_data [OF inv this] consider "same_data s s'" "e = Tau"
      | "e = Consumed (take (rcount t s) (content s))" "flen s' = flen s - rcount t s"
        "mem (dev s') = memcpy L (mem (dev s)) 0 (rcount t s) (flen s - rcount t s)"
      by blast
    then show ?thesis
    proof cases
      case 2
      have le: "rcount t s \<le> flen s" by (simp add: rcount_def)
      then have n: "length (take (rcount t s) (content s)) = rcount t s"
        using length_content [OF inv] by simp
      have "take (flen s - rcount t s) (mem (dev s')) = take (flen s - rcount t s) (drop (rcount t s) (mem (dev s)))"
        using moved [OF 2(1), unfolded n, OF le] 2(3) le flen_le [OF inv] inv by (simp add: data_inv_def)
      then have "content s' = drop (rcount t s) (content s)"
        by (simp add: content_def 2(2) drop_take)
      with 2(1) show ?thesis by simp
    qed (simp add: same_data_content)
  qed (use run_read inv hello_read_same same_data_queue in blast)
next
  case (run_write t)
  show ?thesis
  proof (cases "pc (tasks s t) = W_copy")
    case True
    then have "write_copy K L t s = Ret s' e"
      using run_write by (simp add: hello_write_def Let_def split: if_splits)
    from write_copy_data [OF inv this] show ?thesis
      using length_content [of s'] flen_le [of s'] by auto
  qed (use run_write inv hello_write_same same_data_queue in blast)
next
  case (run_ioctl t)
  then show ?thesis using hello_ioctl_data inv by blast
next
  case (run_poll t)
  then show ?thesis using hello_poll_same same_data_queue inv by blast
qed (simp_all add: content_def flen_def entry_defs Let_def)

lemma run_data_inv: "fifo_run K L s es s' \<Longrightarrow> data_inv s \<Longrightarrow> data_inv s'"
  by (induction rule: fifo_run.induct) (auto intro: step_data_inv)

end

section \<open>Sleeping tasks\<close>

text \<open>The program points at which a task is on the wait queue of its handler.\<close>

fun queued :: "pc \<Rightarrow> wq option" where
  "queued R_test = Some RWait" | "queued R_sched = Some RWait" | "queued R_sig = Some RWait"
| "queued R_relock = Some RWait" | "queued R_copy = Some RWait" | "queued R_out = Some RWait"
| "queued W_test = Some WWait" | "queued W_sched = Some WWait" | "queued W_sig = Some WWait"
| "queued W_relock = Some WWait" | "queued W_copy = Some WWait" | "queued W_out = Some WWait"
| "queued _ = None"

text \<open>
  A task is on its queue there, and it sleeps only while what it waits for has not happened: a
  sleeping reader means an empty FIFO, a sleeping writer a full one.
\<close>

definition wait_ok :: "hello_dev \<Rightarrow> tid \<Rightarrow> task \<Rightarrow> bool" where
  "wait_ok d x tk \<longleftrightarrow>
     (case queued (pc tk) of None \<Rightarrow> True | Some q \<Rightarrow> x \<in> set (waitq d q)) \<and>
     (pc tk = R_sched \<and> tstate tk = TASK_INTERRUPTIBLE \<longrightarrow> current_len d = 0) \<and>
     (pc tk = W_sched \<and> tstate tk = TASK_INTERRUPTIBLE \<longrightarrow> current_len d = 4096)"

definition wait_inv :: "'u sys \<Rightarrow> bool" where
  "wait_inv s \<longleftrightarrow> (\<forall>x. wait_ok (dev s) x (tasks s x))"

lemma wait_ok_frame:
  "wait_ok d x tk \<Longrightarrow> (\<And>q. x \<in> set (waitq d' q) \<longleftrightarrow> x \<in> set (waitq d q)) \<Longrightarrow>
   current_len d' = current_len d \<Longrightarrow> wait_ok d' x tk"
  by (auto simp: wait_ok_def split: option.splits)

lemma wait_invI:
  assumes "wait_inv s" and "wait_ok (dev s') t (tasks s' t)"
    and "\<And>x. x \<noteq> t \<Longrightarrow> tasks s' x = tasks s x"
    and "\<And>x q. x \<noteq> t \<Longrightarrow> x \<in> set (waitq (dev s') q) \<longleftrightarrow> x \<in> set (waitq (dev s) q)"
    and "current_len (dev s') = current_len (dev s)"
  shows "wait_inv s'"
  unfolding wait_inv_def
proof
  fix x
  show "wait_ok (dev s') x (tasks s' x)"
  proof (cases "x = t")
    case False
    then have "wait_ok (dev s) x (tasks s' x)" using assms(1,3) by (simp add: wait_inv_def)
    then show ?thesis by (rule wait_ok_frame) (use assms(4,5) False in auto)
  qed (use assms(2) in simp)
qed

lemma wait_inv_upd:
  assumes "wait_inv s" and "queued (pc (f (tasks s t))) = None"
  shows "wait_inv (upd_task t f s)"
proof (rule wait_invI [OF assms(1), of _ t])
  show "wait_ok (dev (upd_task t f s)) t (tasks (upd_task t f s) t)"
    using assms(2) by (cases "pc (f (tasks s t))") (simp_all add: wait_ok_def upd_task_def)
qed (simp_all add: upd_task_def)

lemma read_copy_tasks:
  assumes "data_inv s" "read_copy K L t s = Ret s' e"
  shows "tstate (tasks s' x) =
    (if e \<noteq> Tau \<and> x \<in> set (woken L WWait (waitq (dev s))) then TASK_RUNNING else tstate (tasks s x))"
proof -
  obtain u' rest where c: "copy_to_user K (user s) (ubuf (tasks s t)) (take (rcount t s) (mem (dev s))) = (u', rest)"
    by fastforce
  from assms(2) read_copy_run [OF assms(1) c, of L] show ?thesis
    by (auto simp: step_defs split: if_splits)
qed

lemma write_copy_tasks:
  assumes "data_inv s" "write_copy K L t s = Ret s' e"
  shows "tstate (tasks s' x) =
    (if e \<noteq> Tau \<and> x \<in> set (woken L RWait (waitq (dev s))) then TASK_RUNNING else tstate (tasks s x))"
  using assms(2)
  by (auto simp: write_copy_def Let_def step_defs split: if_splits option.splits prod.splits)

context fifo_kernel
begin

lemma read_copy_wait:
  assumes inv: "data_inv s" "wait_inv s" and pc: "pc (tasks s t) = R_copy"
    and r: "read_copy K L t s = Ret s' e"
  shows "wait_inv s'"
  unfolding wait_inv_def
proof
  fix x
  have ok: "wait_ok (dev s) x (tasks s x)" using inv(2) by (simp add: wait_inv_def)
  note sh = read_copy_shape [OF r] and ts = read_copy_tasks [OF inv(1) r, of x]
  have len: "current_len (dev s') = current_len (dev s)" if "e = Tau"
    using read_copy_data [OF inv(1) r] that by (auto simp: same_data_def)
  have zero: "current_len (dev s') = 0" if "current_len (dev s) = 0"
    using read_copy_data [OF inv(1) r] that
    by (auto simp: same_data_def flen_def unat_eq_zero)
  show "wait_ok (dev s') x (tasks s' x)"
  proof (cases "x = t")
    case True
    then show ?thesis using ok pc by (auto simp: wait_ok_def sh)
  next
    case False
    then show ?thesis using ok ts len zero
      by (cases "pc (tasks s x)") (auto simp: wait_ok_def sh woken_set split: if_splits)
  qed
qed

lemma write_copy_wait:
  assumes inv: "data_inv s" "wait_inv s" and pc: "pc (tasks s t) = W_copy"
    and r: "write_copy K L t s = Ret s' e"
  shows "wait_inv s'"
  unfolding wait_inv_def
proof
  fix x
  have ok: "wait_ok (dev s) x (tasks s x)" using inv(2) by (simp add: wait_inv_def)
  note sh = write_copy_shape [OF r] and ts = write_copy_tasks [OF inv(1) r, of x]
  have len: "current_len (dev s') = current_len (dev s)" if "e = Tau"
    using write_copy_data [OF inv(1) r] that by (auto simp: flen_def word_unat_eq_iff)
  have full: "current_len (dev s') = 4096" if "current_len (dev s) = 4096"
    using write_copy_data [OF inv(1) r] that
    by (auto simp: flen_def wcount_def word_unat_eq_iff)
  show "wait_ok (dev s') x (tasks s' x)"
  proof (cases "x = t")
    case True
    then show ?thesis using ok pc by (auto simp: wait_ok_def sh)
  next
    case False
    then show ?thesis using ok ts len full
      by (cases "pc (tasks s x)") (auto simp: wait_ok_def sh woken_set split: if_splits)
  qed
qed

lemma hello_read_wait:
  assumes inv: "data_inv s" "wait_inv s" and r: "hello_read K L t s = Ret s' e"
  shows "wait_inv s'"
proof (cases "pc (tasks s t) = R_copy")
  case True
  then have "read_copy K L t s = Ret s' e"
    using r by (simp add: hello_read_def Let_def split: if_splits)
  then show ?thesis using read_copy_wait inv True by blast
next
  case False
  have ok: "wait_ok (dev s) t (tasks s t)" using inv(2) by (simp add: wait_inv_def)
  show ?thesis
  proof (rule wait_invI [OF inv(2), of _ t])
    show "wait_ok (dev s') t (tasks s' t)" using ok r False
      by (cases "pc (tasks s t)")
        (auto simp: hello_read_def wait_ok_def step_defs Let_def add_wait_set split: if_splits)
  qed (use r False in \<open>cases "pc (tasks s t)";
      force simp: hello_read_def step_defs Let_def add_wait_set remove_wait_other split: if_splits\<close>)+
qed

lemma hello_write_wait:
  assumes inv: "data_inv s" "wait_inv s" and r: "hello_write K L t s = Ret s' e"
  shows "wait_inv s'"
proof (cases "pc (tasks s t) = W_copy")
  case True
  then have "write_copy K L t s = Ret s' e"
    using r by (simp add: hello_write_def Let_def split: if_splits)
  then show ?thesis using write_copy_wait inv True by blast
next
  case False
  have ok: "wait_ok (dev s) t (tasks s t)" using inv(2) by (simp add: wait_inv_def)
  show ?thesis
  proof (rule wait_invI [OF inv(2), of _ t])
    show "wait_ok (dev s') t (tasks s' t)" using ok r False
      by (cases "pc (tasks s t)")
        (auto simp: hello_write_def wait_ok_def step_defs Let_def add_wait_set split: if_splits)
  qed (use r False in \<open>cases "pc (tasks s t)";
      force simp: hello_write_def step_defs Let_def add_wait_set remove_wait_other split: if_splits\<close>)+
qed

lemma step_wait_inv:
  assumes step: "fifo_step K L s e s'" and inv: "data_inv s" "wait_inv s"
  shows "wait_inv s'"
proof -
  have ok: "\<And>x. wait_ok (dev s) x (tasks s x)" using inv(2) by (simp add: wait_inv_def)
  show ?thesis using step
  proof (cases rule: fifo_step.cases)
    case (run_read t)
    then show ?thesis using inv hello_read_wait by blast
  next
    case (run_write t)
    then show ?thesis using inv hello_write_wait by blast
  next
    case (run_poll t)
    then show ?thesis using ok
      by (intro wait_invI [OF inv(2), of _ t]; cases "pc (tasks s t)")
        (auto simp: hello_poll_def wait_ok_def step_defs split: if_splits)
  next
    case (run_ioctl t)
    then show ?thesis using ok
      by (intro wait_invI [OF inv(2), of _ t]; cases "pc (tasks s t)")
        (auto simp: hello_ioctl_def wait_ok_def step_defs split: if_splits)
  next
    case (signal t)
    then show ?thesis using ok [of t]
      by (intro wait_invI [OF inv(2), of _ t]) (auto simp: wait_ok_def step_defs)
  next
    case (user_store u)
    then show ?thesis using ok by (simp add: wait_inv_def)
  qed (use inv(2) in \<open>auto simp: entry_defs goto_def leave_def Let_def intro!: wait_inv_upd\<close>)
qed

end

section \<open>Reachable states\<close>

definition fifo_inv :: "'u sys \<Rightarrow> bool" where
  "fifo_inv s \<longleftrightarrow> mutex_inv s \<and> data_inv s \<and> wait_inv s \<and> open_inv s"

lemma fifo_start_inv: "fifo_inv (fifo_start u)"
  by (simp add: fifo_inv_def mutex_inv_def data_inv_def wait_inv_def wait_ok_def open_inv_def
      fifo_start_def idle_task_def fresh_dev_def)

text \<open>A step keeps every file open, and only a task with an open file takes one.\<close>

lemma handler_private:
  "hello_read K L t s = Ret s' e \<Longrightarrow> private_data (tasks s t) \<and> private_data (tasks s' x) = private_data (tasks s x)"
  "hello_write K L t s = Ret s' e \<Longrightarrow> private_data (tasks s t) \<and> private_data (tasks s' x) = private_data (tasks s x)"
  "hello_poll t s = Ret s' e \<Longrightarrow> private_data (tasks s t) \<and> private_data (tasks s' x) = private_data (tasks s x)"
  "hello_ioctl t s = Ret s' e \<Longrightarrow> private_data (tasks s t) \<and> private_data (tasks s' x) = private_data (tasks s x)"
  by (cases "pc (tasks s t)"; auto simp: hello_read_def hello_write_def hello_poll_def hello_ioctl_def Let_def
      step_defs dest: read_copy_shape(4) write_copy_shape(4) split: if_splits)+

lemma lock_shape_open:
  assumes "open_inv s" "lock_shape t s s'" "private_data (tasks s t)"
    and "\<And>x. private_data (tasks s' x) = private_data (tasks s x)"
  shows "open_inv s'"
  unfolding open_inv_def
proof (intro allI impI)
  fix x assume "pc (tasks s' x) \<noteq> Idle"
  then show "private_data (tasks s' x)"
    using assms by (cases "x = t") (auto simp: open_inv_def lock_shape_def)
qed

lemma step_open_inv:
  assumes "fifo_step K L s e s'" and inv: "mutex_inv s" "open_inv s"
  shows "open_inv s'"
  using assms(1)
proof (cases rule: fifo_step.cases)
  case (run_read t)
  show ?thesis
    by (rule lock_shape_open [OF inv(2) hello_read_shape [OF run_read]])
      (use handler_private(1) [OF run_read] in blast)+
next
  case (run_write t)
  show ?thesis
    by (rule lock_shape_open [OF inv(2) hello_write_shape [OF run_write]])
      (use handler_private(2) [OF run_write] in blast)+
next
  case (run_poll t)
  show ?thesis
    by (rule lock_shape_open [OF inv(2) hello_poll_shape [OF inv(1) run_poll, THEN conjunct1]])
      (use handler_private(3) [OF run_poll] in blast)+
next
  case (run_ioctl t)
  show ?thesis
    by (rule lock_shape_open [OF inv(2) hello_ioctl_shape [OF run_ioctl]])
      (use handler_private(4) [OF run_ioctl] in blast)+
qed (use inv(2) in \<open>auto simp: open_inv_def step_defs entry_defs Let_def\<close>)

context fifo_kernel
begin

lemma step_inv: "fifo_step K L s e s' \<Longrightarrow> fifo_inv s \<Longrightarrow> fifo_inv s'"
  using step_mutex_inv step_data_inv step_wait_inv step_open_inv by (metis fifo_inv_def)

lemma run_inv: "fifo_run K L s es s' \<Longrightarrow> fifo_inv s \<Longrightarrow> fifo_inv s'"
  by (induction rule: fifo_run.induct) (auto intro: step_inv)

lemma no_fault:
  assumes "fifo_inv s" and "pc (tasks s t) \<noteq> Idle"
  shows "hello_read K L t s \<noteq> Fault f" "hello_write K L t s \<noteq> Fault f"
    "hello_poll t s \<noteq> Fault f" "hello_ioctl t s \<noteq> Fault f"
proof -
  have p: "private_data (tasks s t)" and inv: "data_inv s"
    using assms by (auto simp: fifo_inv_def open_inv_def)
  have "read_copy K L t s \<noteq> Fault f"
  proof -
    obtain u' rest where "copy_to_user K (user s) (ubuf (tasks s t)) (take (rcount t s) (mem (dev s))) = (u', rest)"
      by fastforce
    then show ?thesis using read_copy_run [OF inv] by simp
  qed
  then show "hello_read K L t s \<noteq> Fault f" using p
    by (cases "pc (tasks s t)") (auto simp: hello_read_def Let_def mutex_lock_def)
  have "write_copy K L t s \<noteq> Fault f"
  proof -
    obtain bs rest where c: "copy_from_user K (user s) (ubuf (tasks s t)) (wcount t s) = (bs, rest)"
      by fastforce
    then have "length bs = wcount t s" using from_len [of "user s" "ubuf (tasks s t)"] by (metis fst_conv)
    from write_copy_run [OF inv c this] show ?thesis by (simp add: Let_def)
  qed
  then show "hello_write K L t s \<noteq> Fault f" using p
    by (cases "pc (tasks s t)") (auto simp: hello_write_def Let_def mutex_lock_def)
  show "hello_poll t s \<noteq> Fault f" "hello_ioctl t s \<noteq> Fault f" using p
    by (cases "pc (tasks s t)"; simp add: hello_poll_def hello_ioctl_def mutex_lock_def)+
qed

end

end
