(* ===== verification/Globalfifo_Spec.thy ===== *)
theory Globalfifo_Spec
  imports Globalfifo_Run
begin

text \<open>
  What the FIFO device promises to its users: the bytes come out in the order they went in, no
  wake-up is lost, and what an uncontended call returns; and where it fails them: a poll never
  comes back, and a read that leaves more bytes than it takes relies on an overlapping \<open>memcpy\<close>.
\<close>

section \<open>The stream of bytes\<close>








section \<open>A poll never gives the mutex back\<close>

lemma hello_event_holds:
  "hello_read K L t s = Ret s' e \<Longrightarrow> e \<noteq> Tau \<Longrightarrow> holds (pc (tasks s t))"
  "hello_write K L t s = Ret s' e \<Longrightarrow> e \<noteq> Tau \<Longrightarrow> holds (pc (tasks s t))"
  "hello_ioctl t s = Ret s' e \<Longrightarrow> e \<noteq> Tau \<Longrightarrow> holds (pc (tasks s t))"
  by (cases "pc (tasks s t)"; auto simp: hello_read_def hello_write_def hello_ioctl_def mutex_lock_def Let_def
      split: if_splits)+

definition poll_stuck :: "tid \<Rightarrow> 'u sys \<Rightarrow> bool" where
  "poll_stuck t s \<longleftrightarrow> pc (tasks s t) \<in> {P_mask, P_lock2} \<and> mutex (dev s) = Some t"

lemma lock_shape_stuck:
  assumes "lock_shape x s s'" "x \<noteq> t" "mutex_inv s" "poll_stuck t s"
  shows "poll_stuck t s'"
  using assms mutex_invD [OF assms(3), of x] by (auto simp: lock_shape_def poll_stuck_def)

lemma stuck_not_runnable:
  assumes "poll_stuck t s"
  shows "hello_read K L t s \<noteq> Ret s' e" "hello_write K L t s \<noteq> Ret s' e" "hello_ioctl t s \<noteq> Ret s' e"
  using assms by (auto simp: poll_stuck_def hello_read_def hello_write_def hello_ioctl_def Let_def)

lemma step_stuck:
  assumes step: "fifo_step K L s e s'" and inv: "mutex_inv s" and st: "poll_stuck t s"
  shows "poll_stuck t s' \<and> e = Tau"
  using step
proof (cases rule: fifo_step.cases)
  case (run_read x)
  then have "x \<noteq> t" using stuck_not_runnable [OF st] by metis
  moreover have "\<not> holds (pc (tasks s x))"
    using mutex_invD [OF inv, of x] st \<open>x \<noteq> t\<close> by (simp add: poll_stuck_def)
  ultimately show ?thesis
    using lock_shape_stuck [OF hello_read_shape [OF run_read] _ inv st] hello_event_holds(1) [OF run_read] by blast
next
  case (run_write x)
  then have "x \<noteq> t" using stuck_not_runnable [OF st] by metis
  moreover have "\<not> holds (pc (tasks s x))"
    using mutex_invD [OF inv, of x] st \<open>x \<noteq> t\<close> by (simp add: poll_stuck_def)
  ultimately show ?thesis
    using lock_shape_stuck [OF hello_write_shape [OF run_write] _ inv st] hello_event_holds(2) [OF run_write] by blast
next
  case (run_ioctl x)
  then have "x \<noteq> t" using stuck_not_runnable [OF st] by metis
  moreover have "\<not> holds (pc (tasks s x))"
    using mutex_invD [OF inv, of x] st \<open>x \<noteq> t\<close> by (simp add: poll_stuck_def)
  ultimately show ?thesis
    using lock_shape_stuck [OF hello_ioctl_shape [OF run_ioctl] _ inv st] hello_event_holds(3) [OF run_ioctl] by blast
next
  case (run_poll x)
  show ?thesis
  proof (cases "x = t")
    case True
    then show ?thesis using run_poll st
      by (cases "pc (tasks s t)") (auto simp: hello_poll_def poll_stuck_def step_defs split: if_splits)
  next
    case False
    then show ?thesis
      using lock_shape_stuck [OF hello_poll_shape [OF inv run_poll, THEN conjunct1] _ inv st]
        hello_poll_same [OF run_poll] by blast
  qed
qed (use st in \<open>auto simp: poll_stuck_def step_defs entry_defs Let_def\<close>)

section \<open>Uncontended calls\<close>

text \<open>\<open>n\<close> steps of one handler with no other task in between.\<close>

fun solo :: "('s \<Rightarrow> ('s, 'e) run) \<Rightarrow> nat \<Rightarrow> 's \<Rightarrow> ('s, 'e list) run" where
  "solo h 0 s = Ret s []"
| "solo h (Suc n) s =
     (case h s of
        Ret s' e \<Rightarrow> (case solo h n s' of Ret s'' es \<Rightarrow> Ret s'' (e # es) | Block s'' \<Rightarrow> Block s'' | Fault f \<Rightarrow> Fault f)
      | Block s' \<Rightarrow> Block s' | Fault f \<Rightarrow> Fault f)"

lemma fifo_run_Cons: "fifo_run K L s' es s'' \<Longrightarrow> fifo_step K L s e s' \<Longrightarrow> fifo_run K L s (e # es) s''"
proof (induction rule: fifo_run.induct)
  case (run_nil s')
  then show ?case using fifo_run.run_snoc [OF fifo_run.run_nil] by fastforce
next
  case (run_snoc s' es x e' y)
  then show ?case using fifo_run.run_snoc by fastforce
qed

lemma fifo_run_trans: "fifo_run K L s' fs s'' \<Longrightarrow> fifo_run K L s es s' \<Longrightarrow> fifo_run K L s (es @ fs) s''"
proof (induction rule: fifo_run.induct)
  case (run_snoc s' fs x e y)
  then show ?case using fifo_run.run_snoc by fastforce
qed simp

lemma solo_run:
  assumes "\<And>s s' e. h s = Ret s' e \<Longrightarrow> fifo_step K L s e s'" and "solo h n s = Ret s' es"
  shows "fifo_run K L s es s'"
  using assms(2)
proof (induction n arbitrary: s es)
  case 0
  then show ?case by (simp add: fifo_run.run_nil)
next
  case (Suc n)
  then obtain s1 e es1 where "h s = Ret s1 e" "solo h n s1 = Ret s' es1" "es = e # es1"
    by (auto split: run.splits)
  then show ?case using Suc.IH assms(1) fifo_run_Cons by blast
qed

lemma solo_Cons: "h s = Ret s' e \<Longrightarrow> solo h n s' = Ret s'' es \<Longrightarrow> solo h (Suc n) s = Ret s'' (e # es)"
  by simp

text \<open>Taking the mutex and entering the queue, then the way out.\<close>

definition entered :: "fifo_lib \<Rightarrow> wq \<Rightarrow> pc \<Rightarrow> tid \<Rightarrow> 'u sys \<Rightarrow> 'u sys" where
  "entered L q p t s = goto t p (add_wait L q t (s\<lparr>dev := (dev s)\<lparr>mutex := Some t\<rparr>\<rparr>))"

lemma read_enter:
  assumes "private_data (tasks s t)" "pc (tasks s t) = R_lock" "mutex (dev s) = None"
  shows "solo (hello_read K L t) 2 s = Ret (entered L RWait R_test t s) [Tau, Tau]"
  using assms by (simp add: numeral_2_eq_2 hello_read_def Let_def step_defs entered_def)

lemma read_leave:
  assumes "private_data (tasks s t)" "pc (tasks s t) = R_out"
  shows "\<exists>s'. solo (hello_read K L t) 2 s = Ret s' [Tau, Tau] \<and> pc (tasks s' t) = Idle \<and> private_data (tasks s' t) \<and>
    mutex (dev s') = None \<and> ret (tasks s' t) = ret (tasks s t) \<and> same_data s s' \<and> user s' = user s"
  using assms by (simp add: numeral_2_eq_2 hello_read_def Let_def step_defs same_data_def)

lemma solo_add:
  "solo h m s = Ret s1 es1 \<Longrightarrow> solo h n s1 = Ret s2 es2 \<Longrightarrow> solo h (m + n) s = Ret s2 (es1 @ es2)"
  by (induction m arbitrary: s es1) (auto split: run.splits)

lemma write_enter:
  assumes "private_data (tasks s t)" "pc (tasks s t) = W_lock" "mutex (dev s) = None"
  shows "solo (hello_write K L t) 2 s = Ret (entered L WWait W_test t s) [Tau, Tau]"
  using assms by (simp add: numeral_2_eq_2 hello_write_def Let_def step_defs entered_def)

lemma write_leave:
  assumes "private_data (tasks s t)" "pc (tasks s t) = W_out"
  shows "\<exists>s'. solo (hello_write K L t) 2 s = Ret s' [Tau, Tau] \<and> pc (tasks s' t) = Idle \<and> private_data (tasks s' t) \<and>
    mutex (dev s') = None \<and> ret (tasks s' t) = ret (tasks s t) \<and> same_data s s' \<and> user s' = user s"
  using assms by (simp add: numeral_2_eq_2 hello_write_def Let_def step_defs same_data_def)

lemma entered_sel [simp]:
  "mem (dev (entered L q p t s)) = mem (dev s)" "current_len (dev (entered L q p t s)) = current_len (dev s)"
  "user (entered L q p t s) = user s" "pc (tasks (entered L q p t s) t) = p"
  "private_data (tasks (entered L q p t s) t) = private_data (tasks s t)"
  "nonblock (tasks (entered L q p t s) t) = nonblock (tasks s t)"
  "ubuf (tasks (entered L q p t s) t) = ubuf (tasks s t)"
  "count (tasks (entered L q p t s) t) = count (tasks s t)"
  by (simp_all add: entered_def step_defs)

lemma goto_sel [simp]:
  "user (goto t p s) = user s" "pc (tasks (goto t p s) t) = p"
  "private_data (tasks (goto t p s) t) = private_data (tasks s t)"
  "ubuf (tasks (goto t p s) t) = ubuf (tasks s t)" "count (tasks (goto t p s) t) = count (tasks s t)"
  by (simp_all add: step_defs)

lemma leave_sel [simp]:
  "pc (tasks (leave t v p s) t) = p" "ret (tasks (leave t v p s) t) = v"
  "private_data (tasks (leave t v p s) t) = private_data (tasks s t)"
  "private_data (tasks (wake_up_interruptible L q s) x) = private_data (tasks s x)"
  by (simp_all add: step_defs)

lemma flen_cong: "current_len (dev s') = current_len (dev s) \<Longrightarrow> flen s' = flen s"
  by (simp add: flen_def)

lemma data_inv_cong:
  "mem (dev s') = mem (dev s) \<Longrightarrow> current_len (dev s') = current_len (dev s) \<Longrightarrow> data_inv s' = data_inv s"
  by (simp add: data_inv_def)

lemma content_cong:
  "mem (dev s') = mem (dev s) \<Longrightarrow> current_len (dev s') = current_len (dev s) \<Longrightarrow> content s' = content s"
  by (simp add: content_def flen_def)

lemma solo_one: "h s = Ret s' e \<Longrightarrow> solo h 1 s = Ret s' [e]"
  by simp

text \<open>One call with nobody in its way, up to its return value and to the queue it leaves.\<close>

definition call_done :: "tid \<Rightarrow> int \<Rightarrow> byte list \<Rightarrow> 'u sys \<Rightarrow> bool" where
  "call_done t r q s \<longleftrightarrow> pc (tasks s t) = Idle \<and> private_data (tasks s t) \<and> mutex (dev s) = None \<and> ret (tasks s t) = r \<and>
     content s = q \<and> data_inv s"

lemma read_finish:
  assumes "private_data (tasks s t)" "pc (tasks s t) = R_out" "data_inv s"
  shows "\<exists>s'. solo (hello_read K L t) 2 s = Ret s' [Tau, Tau] \<and>
    call_done t (ret (tasks s t)) (content s) s' \<and> user s' = user s"
proof -
  obtain s' where "solo (hello_read K L t) 2 s = Ret s' [Tau, Tau]" "pc (tasks s' t) = Idle" "private_data (tasks s' t)"
    "mutex (dev s') = None" "ret (tasks s' t) = ret (tasks s t)" "same_data s s'" "user s' = user s"
    using read_leave [OF assms(1,2)] by blast
  then show ?thesis
    using content_cong [of s' s] data_inv_cong [of s' s] assms(3) by (auto simp: call_done_def same_data_def)
qed

lemma write_finish:
  assumes "private_data (tasks s t)" "pc (tasks s t) = W_out" "data_inv s"
  shows "\<exists>s'. solo (hello_write K L t) 2 s = Ret s' [Tau, Tau] \<and>
    call_done t (ret (tasks s t)) (content s) s' \<and> user s' = user s"
proof -
  obtain s' where "solo (hello_write K L t) 2 s = Ret s' [Tau, Tau]" "pc (tasks s' t) = Idle" "private_data (tasks s' t)"
    "mutex (dev s') = None" "ret (tasks s' t) = ret (tasks s t)" "same_data s s'" "user s' = user s"
    using write_leave [OF assms(1,2)] by blast
  then show ?thesis
    using content_cong [of s' s] data_inv_cong [of s' s] assms(3) by (auto simp: call_done_def same_data_def)
qed

context fifo_kernel
begin

lemma write_alone:
  assumes inv: "data_inv s" and pd: "private_data (tasks s t)" and pc: "pc (tasks s t) = W_lock"
    and mx: "mutex (dev s) = None" and room: "flen s < 4096"
    and c: "copy_from_user K (user s) (ubuf (tasks s t)) (wcount t s) = (bs, rest)"
  shows "\<exists>s'. solo (hello_write K L t) 6 s =
       Ret s' [Tau, Tau, Tau, if rest = 0 then Produced bs else Tau, Tau, Tau] \<and> user s' = user s \<and>
     call_done t (if rest = 0 then int (length bs) else - EFAULT)
       (if rest = 0 then content s @ bs else content s) s'"
proof -
  define s2 where "s2 = goto t W_copy (entered L WWait W_test t s)"
  have same: "mem (dev s2) = mem (dev s)" "current_len (dev s2) = current_len (dev s)" "user s2 = user s"
    "ubuf (tasks s2 t) = ubuf (tasks s t)" "count (tasks s2 t) = count (tasks s t)"
    "private_data (tasks s2 t)" "pc (tasks s2 t) = W_copy"
    using pd by (simp_all add: s2_def)
  note cong = flen_cong [OF same(2)] content_cong [OF same(1,2)] data_inv_cong [OF same(1,2)]
  have inv2: "data_inv s2" using inv cong by simp
  have wc: "wcount t s2 = wcount t s" using same cong by (simp add: wcount_def)
  have len: "length bs = wcount t s" using from_len [of "user s" "ubuf (tasks s t)" "wcount t s"] c by simp
  have "current_len (dev s) \<noteq> 4096" using room by (auto simp: flen_def)
  then have "hello_write K L t (entered L WWait W_test t s) = Ret s2 Tau"
    using pd by (simp add: hello_write_def s2_def)
  then have in3: "solo (hello_write K L t) (2 + 1) s = Ret s2 [Tau, Tau, Tau]"
    using solo_add [OF write_enter [OF pd pc mx] solo_one] by fastforce
  have bs: "rest = 0 \<Longrightarrow> bs = user_bytes (ub (user s)) (ubuf (tasks s t)) (wcount t s)"
    using from_ok c by blast
  have c2: "copy_from_user K (user s2) (ubuf (tasks s2 t)) (wcount t s2) = (bs, rest)"
    using c same wc by simp
  have len2: "length bs = wcount t s2" using len wc by simp
  obtain s3 e where r3: "write_copy K L t s2 = Ret s3 e" and e: "e = (if rest = 0 then Produced bs else Tau)"
    and t3: "pc (tasks s3 t) = W_out" "private_data (tasks s3 t)" "user s3 = user s"
    and v3: "ret (tasks s3 t) = (if rest = 0 then int (length bs) else - EFAULT)"
    using write_copy_run [OF inv2 c2 len2, of L] same wc len by (cases "rest = 0") (simp_all add: Let_def)
  have d3: "data_inv s3" "content s3 = (if rest = 0 then content s @ bs else content s)"
    using write_copy_data [OF inv2 r3] e bs same wc cong by auto
  have "hello_write K L t s2 = Ret s3 e" using same r3 by (simp add: hello_write_def)
  then have in4: "solo (hello_write K L t) (2 + 1 + 1) s = Ret s3 [Tau, Tau, Tau, e]"
    using solo_add [OF in3 solo_one] by fastforce
  obtain s' where out: "solo (hello_write K L t) 2 s3 = Ret s' [Tau, Tau]"
    and fin: "call_done t (ret (tasks s3 t)) (content s3) s'" "user s' = user s3"
    using write_finish [OF t3(2,1) d3(1)] by blast
  have "solo (hello_write K L t) (2 + 1 + 1 + 2) s = Ret s' ([Tau, Tau, Tau, e] @ [Tau, Tau])"
    by (rule solo_add [OF in4 out])
  then show ?thesis using fin t3 v3 d3 e by (intro exI [of _ s']) simp
qed

lemma read_alone:
  assumes inv: "data_inv s" and pd: "private_data (tasks s t)" and pc: "pc (tasks s t) = R_lock"
    and mx: "mutex (dev s) = None" and some: "0 < flen s"
    and c: "copy_to_user K (user s) (ubuf (tasks s t)) (take (rcount t s) (content s)) = (u', rest)"
    and moved: "memcpy L (mem (dev s)) 0 (rcount t s) (flen s - rcount t s) =
      take (flen s - rcount t s) (drop (rcount t s) (mem (dev s))) @ drop (flen s - rcount t s) (mem (dev s))"
  shows "\<exists>s'. solo (hello_read K L t) 6 s =
       Ret s' [Tau, Tau, Tau, if rest = 0 then Consumed (take (rcount t s) (content s)) else Tau, Tau, Tau] \<and>
     user s' = u' \<and>
     call_done t (if rest = 0 then int (rcount t s) else - EFAULT)
       (if rest = 0 then drop (rcount t s) (content s) else content s) s'"
proof -
  define s2 where "s2 = goto t R_copy (entered L RWait R_test t s)"
  have same: "mem (dev s2) = mem (dev s)" "current_len (dev s2) = current_len (dev s)" "user s2 = user s"
    "ubuf (tasks s2 t) = ubuf (tasks s t)" "count (tasks s2 t) = count (tasks s t)"
    "private_data (tasks s2 t)" "pc (tasks s2 t) = R_copy"
    using pd by (simp_all add: s2_def)
  note cong = flen_cong [OF same(2)] content_cong [OF same(1,2)] data_inv_cong [OF same(1,2)]
  have inv2: "data_inv s2" using inv cong by simp
  have rc: "rcount t s2 = rcount t s" using same cong by (simp add: rcount_def)
  have tk: "take (rcount t s) (content s) = take (rcount t s) (mem (dev s))"
    by (simp add: content_def rcount_def)
  have "current_len (dev s) \<noteq> 0" using some by (auto simp: flen_def)
  then have "hello_read K L t (entered L RWait R_test t s) = Ret s2 Tau"
    using pd by (simp add: hello_read_def s2_def)
  then have in3: "solo (hello_read K L t) (2 + 1) s = Ret s2 [Tau, Tau, Tau]"
    using solo_add [OF read_enter [OF pd pc mx] solo_one] by fastforce
  have c2: "copy_to_user K (user s2) (ubuf (tasks s2 t)) (take (rcount t s2) (mem (dev s2))) = (u', rest)"
    using c same rc tk by simp
  obtain s3 e where r3: "read_copy K L t s2 = Ret s3 e"
    and e: "e = (if rest = 0 then Consumed (take (rcount t s) (content s)) else Tau)"
    and t3: "pc (tasks s3 t) = R_out" "private_data (tasks s3 t)" "user s3 = u'"
    and v3: "ret (tasks s3 t) = (if rest = 0 then int (rcount t s) else - EFAULT)"
    using read_copy_run [OF inv2 c2, of L] same rc tk by (cases "rest = 0") simp_all
  have d3: "data_inv s3" using read_copy_data [OF inv2 r3] by blast
  have le: "rcount t s \<le> flen s" "flen s \<le> length (mem (dev s))"
    using flen_le [OF inv] inv by (simp_all add: rcount_def data_inv_def)
  have q3: "content s3 = (if rest = 0 then drop (rcount t s) (content s) else content s)"
    using read_copy_data [OF inv2 r3] e same rc cong moved le
    flen_cong [of s3 s] by (auto simp: content_def same_data_def drop_take)
  have "hello_read K L t s2 = Ret s3 e" using same r3 by (simp add: hello_read_def)
  then have in4: "solo (hello_read K L t) (2 + 1 + 1) s = Ret s3 [Tau, Tau, Tau, e]"
    using solo_add [OF in3 solo_one] by fastforce
  obtain s' where out: "solo (hello_read K L t) 2 s3 = Ret s' [Tau, Tau]"
    and fin: "call_done t (ret (tasks s3 t)) (content s3) s'" "user s' = user s3"
    using read_finish [OF t3(2,1) d3(1)] by blast
  have "solo (hello_read K L t) (2 + 1 + 1 + 2) s = Ret s' ([Tau, Tau, Tau, e] @ [Tau, Tau])"
    by (rule solo_add [OF in4 out])
  then show ?thesis using fin t3 v3 q3 e by (intro exI [of _ s']) simp
qed

end



lemma write_full_alone:
  assumes "data_inv s" and pd: "private_data (tasks s t)" and pc: "pc (tasks s t) = W_lock"
    and mx: "mutex (dev s) = None" and z: "current_len (dev s) = 4096" and nb: "nonblock (tasks s t)"
  shows "\<exists>s'. solo (hello_write K L t) 5 s = Ret s' [Tau, Tau, Tau, Tau, Tau] \<and>
    user s' = user s \<and> call_done t (- EAGAIN) (content s) s'"
proof -
  define s1 where "s1 = entered L WWait W_test t s"
  define s2 where "s2 = leave t (- EAGAIN) W_out s1"
  have "hello_write K L t s1 = Ret s2 Tau" using pd z nb by (simp add: hello_write_def s1_def s2_def)
  then have in3: "solo (hello_write K L t) (2 + 1) s = Ret s2 [Tau, Tau, Tau]"
    using solo_add [OF write_enter [OF pd pc mx, of K L, folded s1_def] solo_one] by fastforce
  have same: "mem (dev s2) = mem (dev s)" "current_len (dev s2) = current_len (dev s)" "user s2 = user s"
    "private_data (tasks s2 t)" "pc (tasks s2 t) = W_out" "ret (tasks s2 t) = - EAGAIN"
    using pd by (simp_all add: s2_def s1_def)
  then have inv2: "data_inv s2" "content s2 = content s" using assms(1) data_inv_cong content_cong by blast+
  obtain s' where out: "solo (hello_write K L t) 2 s2 = Ret s' [Tau, Tau]"
    and fin: "call_done t (ret (tasks s2 t)) (content s2) s'" "user s' = user s2"
    using write_finish [OF same(4,5) inv2(1)] by blast
  have "solo (hello_write K L t) (2 + 1 + 2) s = Ret s' ([Tau, Tau, Tau] @ [Tau, Tau])"
    by (rule solo_add [OF in3 out])
  then show ?thesis using fin same inv2 by (intro exI [of _ s']) simp
qed

section \<open>Concrete runs\<close>

text \<open>Task 0 opens the device and writes three bytes of a user memory filled with sevens.\<close>

definition demo_user :: umem where "demo_user = (\<lambda>_. Some 7)"

definition demo_open :: "umem sys" where "demo_open = hello_open 0 (fifo_start demo_user)"

lemma demo_open_sel [simp]:
  "data_inv demo_open" "private_data (tasks demo_open 0)" "pc (tasks demo_open 0) = Idle"
  "mutex (dev demo_open) = None" "current_len (dev demo_open) = 0" "user demo_open = demo_user"
  "flen demo_open = 0" "content demo_open = []"
  by (simp_all add: demo_open_def hello_open_def step_defs fifo_start_def fresh_dev_def idle_task_def
      data_inv_def flen_def content_def)

lemma demo_copy: "copy_from_user flat_uaccess demo_user 0 n = (replicate n 7, 0)"
proof -
  have "user_bytes (flat_byte demo_user) 0 n = replicate n 7"
    by (rule user_bytes_eqI) (simp_all add: flat_byte_def demo_user_def)
  then show ?thesis
    using flat_from_mapped [of n demo_user 0] by (simp add: flat_uaccess_def) (simp add: demo_user_def)
qed

lemma call_sel [simp]:
  "dev (call_write t b n nb s) = dev s" "user (call_write t b n nb s) = user s"
  "dev (call_read t b n nb s) = dev s" "user (call_read t b n nb s) = user s"
  "pc (tasks (call_write t b n nb s) t) = W_lock" "pc (tasks (call_read t b n nb s) t) = R_lock"
  "ubuf (tasks (call_write t b n nb s) t) = b" "ubuf (tasks (call_read t b n nb s) t) = b"
  "count (tasks (call_write t b n nb s) t) = n" "count (tasks (call_read t b n nb s) t) = n"
  "nonblock (tasks (call_write t b n nb s) t) = nb" "nonblock (tasks (call_read t b n nb s) t) = nb"
  "private_data (tasks (call_write t b n nb s) t) = private_data (tasks s t)"
  "private_data (tasks (call_read t b n nb s) t) = private_data (tasks s t)"
  by (simp_all add: call_write_def call_read_def step_defs)

lemma call_data [simp]:
  "data_inv (call_write t b n nb s) = data_inv s" "data_inv (call_read t b n nb s) = data_inv s"
  "flen (call_write t b n nb s) = flen s" "flen (call_read t b n nb s) = flen s"
  "content (call_write t b n nb s) = content s" "content (call_read t b n nb s) = content s"
  by (simp_all add: data_inv_def flen_def content_def)

lemma demo_open_run: "fifo_run K L (fifo_start demo_user) [Tau] demo_open"
  unfolding demo_open_def
  by (rule fifo_run_Cons [OF fifo_run.run_nil fifo_step.enter_open]) (simp add: fifo_start_def idle_task_def)

lemma demo_write_run:
  "\<exists>s. fifo_run flat_uaccess (list_lib copy_up) (fifo_start demo_user)
       [Tau, Tau, Tau, Tau, Tau, Produced [7, 7, 7], Tau, Tau] s \<and>
     call_done 0 3 [7, 7, 7] s \<and> user s = demo_user"
proof -
  let ?s = "call_write 0 0 3 True demo_open"
  have w: "wcount 0 ?s = 3" by (simp add: wcount_def)
  have c: "copy_from_user flat_uaccess (user ?s) (ubuf (tasks ?s 0)) (wcount 0 ?s) = ([7, 7, 7], 0)"
    using demo_copy [of 3] w by (simp add: numeral_3_eq_3)
  have "fifo_step flat_uaccess (list_lib copy_up) demo_open Tau ?s"
    by (rule fifo_step.enter_write) simp_all
  then have r: "fifo_run flat_uaccess (list_lib copy_up) (fifo_start demo_user) ([Tau] @ [Tau]) ?s"
    using fifo_run_trans [OF fifo_run_Cons [OF fifo_run.run_nil] demo_open_run] by fast
  obtain s where s: "solo (hello_write flat_uaccess (list_lib copy_up) 0) 6 ?s =
      Ret s [Tau, Tau, Tau, Produced [7, 7, 7], Tau, Tau]" "user s = user ?s" "call_done 0 3 [7, 7, 7] s"
    using up_lib.write_alone [OF _ _ _ _ _ c] by auto
  have "fifo_run flat_uaccess (list_lib copy_up) ?s [Tau, Tau, Tau, Produced [7, 7, 7], Tau, Tau] s"
    by (rule solo_run [OF fifo_step.run_write s(1)])
  from fifo_run_trans [OF this r] s(2,3) show ?thesis by auto
qed

section \<open>Properties\<close>

text \<open>
  C2. In every reachable state of the FIFO, however the processes are scheduled, at most one task is
  between taking and giving back the mutex, the fill level never exceeds the 4096 bytes of the
  buffer, and no task inside a handler is about to make a faulty access.
\<close>

theorem fifo_safe:
  assumes "fifo_kernel K ub L" and "fifo_run K L (fifo_start u) es s"
  shows "(\<forall>t t'. holds (pc (tasks s t)) \<longrightarrow> holds (pc (tasks s t')) \<longrightarrow> t = t') \<and>
    length (mem (dev s)) = HELLODEV_SIZE \<and> unat (current_len (dev s)) \<le> HELLODEV_SIZE \<and>
    (\<forall>t f. pc (tasks s t) \<noteq> Idle \<longrightarrow> hello_read K L t s \<noteq> Fault f \<and> hello_write K L t s \<noteq> Fault f \<and>
       hello_poll t s \<noteq> Fault f \<and> hello_ioctl t s \<noteq> Fault f)"
proof -
  have inv: "fifo_inv s" by (rule fifo_kernel.run_inv [OF assms fifo_start_inv])
  have "t = t'" if "holds (pc (tasks s t))" "holds (pc (tasks s t'))" for t t'
    using inv that by (auto simp: fifo_inv_def mutex_inv_def)
  moreover have "length (mem (dev s)) = HELLODEV_SIZE" "flen s \<le> HELLODEV_SIZE"
    using inv flen_le by (auto simp: fifo_inv_def data_inv_def)
  ultimately show ?thesis
    using fifo_kernel.no_fault [OF assms(1) inv] by (auto simp: flen_def)
qed

theorem fifo_safe_witness:
  "\<exists>s. fifo_run flat_uaccess (list_lib copy_up) (fifo_start demo_user)
       [Tau, Tau, Tau, Tau, Tau, Produced [7, 7, 7], Tau, Tau] s \<and> content s = [7, 7, 7] \<and>
     unat (current_len (dev s)) \<le> HELLODEV_SIZE"
  using demo_write_run fifo_safe [OF up_lib.fifo_kernel_axioms] unfolding call_done_def by blast





text \<open>
  C30. A task that has entered the body of \<open>hello_poll\<close> in any reachable state never leaves it and
  keeps the mutex for ever, because line 185 locks where it should unlock; from then on nobody
  reads, writes or clears a byte, whatever happens.
\<close>

theorem fifo_poll_deadlock:
  assumes "fifo_kernel K ub L" and "fifo_run K L (fifo_start u) es s" and "pc (tasks s t) = P_mask"
    and "fifo_run K L s es' s'"
  shows "pc (tasks s' t) \<in> {P_mask, P_lock2} \<and> mutex (dev s') = Some t \<and> set es' \<subseteq> {Tau}"
proof -
  have inv: "fifo_inv s" by (rule fifo_kernel.run_inv [OF assms(1,2) fifo_start_inv])
  have st: "poll_stuck t s"
    using inv mutex_invD [of s t] assms(3) by (auto simp: fifo_inv_def poll_stuck_def)
  have "poll_stuck t s' \<and> fifo_inv s' \<and> set es' \<subseteq> {Tau}"
    using assms(4) st inv
  proof (induction rule: fifo_run.induct)
    case (run_snoc s es s' e s'')
    then have ih: "poll_stuck t s'" "fifo_inv s'" "set es \<subseteq> {Tau}" by auto
    then have "poll_stuck t s'' \<and> e = Tau"
      using step_stuck [OF run_snoc.hyps(2)] by (simp add: fifo_inv_def)
    then show ?case using ih fifo_kernel.step_inv [OF assms(1) run_snoc.hyps(2)] by auto
  qed simp
  then show ?thesis by (simp add: poll_stuck_def)
qed

theorem fifo_poll_deadlock_witness:
  "\<exists>s. fifo_run flat_uaccess (list_lib copy_up) (fifo_start demo_user) [Tau, Tau, Tau] s \<and>
     pc (tasks s 0) = P_mask \<and>
     (\<forall>es' s'. fifo_run flat_uaccess (list_lib copy_up) s es' s' \<longrightarrow> mutex (dev s') = Some 0)"
proof -
  let ?L = "list_lib copy_up"
  let ?s = "goto 0 P_lock demo_open"
  have "fifo_step flat_uaccess ?L demo_open Tau ?s" by (rule fifo_step.enter_poll) simp_all
  then have r: "fifo_run flat_uaccess ?L (fifo_start demo_user) ([Tau] @ [Tau]) ?s"
    using fifo_run_trans [OF fifo_run_Cons [OF fifo_run.run_nil] demo_open_run] by fast
  let ?s1 = "goto 0 P_mask (?s\<lparr>dev := (dev ?s)\<lparr>mutex := Some 0\<rparr>\<rparr>)"
  have "hello_poll 0 ?s = Ret ?s1 Tau" by (simp add: hello_poll_def mutex_lock_def)
  then have "fifo_run flat_uaccess ?L ?s [Tau] ?s1"
    by (rule fifo_run_Cons [OF fifo_run.run_nil fifo_step.run_poll])
  from fifo_run_trans [OF this r]
  have run: "fifo_run flat_uaccess ?L (fifo_start demo_user) [Tau, Tau, Tau] ?s1" by simp
  have "pc (tasks ?s1 0) = P_mask" by simp
  from fifo_poll_deadlock [OF up_lib.fifo_kernel_axioms run this] run this show ?thesis by blast
qed



text \<open>
  C20. An uncontended write to a FIFO that is not full returns after six steps. It appends the first
  \<open>min(count, 4096 - current_len)\<close> bytes of the user buffer and returns their number, or, when the
  buffer faults, returns \<open>-EFAULT\<close> and adds nothing. On a full FIFO a non-blocking write returns
  \<open>-EAGAIN\<close>. The mutex is free afterwards in all cases.
\<close>

theorem fifo_write_alone:
  assumes "fifo_kernel K ub L" and "data_inv s" and "private_data (tasks s t)" and "mutex (dev s) = None"
  shows "let c = call_write t b n nb s; k = min (unat n) (HELLODEV_SIZE - length (content s));
      bs = user_bytes (ub (user s)) b k
    in if length (content s) < HELLODEV_SIZE
       then \<exists>s'. solo (hello_write K L t) 6 c =
             Ret s' [Tau, Tau, Tau, if snd (copy_from_user K (user s) b k) = 0 then Produced bs else Tau, Tau, Tau] \<and>
           user s' = user s \<and>
           (if snd (copy_from_user K (user s) b k) = 0
            then call_done t (int k) (content s @ bs) s'
            else call_done t (- EFAULT) (content s) s')
       else nb \<longrightarrow> (\<exists>s'. solo (hello_write K L t) 5 c = Ret s' [Tau, Tau, Tau, Tau, Tau] \<and>
           user s' = user s \<and> call_done t (- EAGAIN) (content s) s')"
proof -
  let ?c = "call_write t b n nb s"
  let ?k = "min (unat n) (HELLODEV_SIZE - length (content s))"
  note len = length_content [OF assms(2)]
  show ?thesis
  proof (cases "length (content s) < HELLODEV_SIZE")
    case False
    then have "unat (current_len (dev s)) = unat (4096 :: u32)"
      using len flen_le [OF assms(2)] by (simp add: flen_def)
    then have "current_len (dev ?c) = 4096" by (simp only: word_unat_eq_iff call_sel)
    then show ?thesis
      using write_full_alone [of ?c t K L] assms(2-4) False by (simp add: Let_def)
  next
    case True
    have k: "wcount t ?c = ?k" using len by (simp add: wcount_def)
    obtain bs rest where c: "copy_from_user K (user s) b ?k = (bs, rest)" by fastforce
    then have lb: "length bs = ?k"
      using user_access.from_len [OF fifo_kernel.axioms(1) [OF assms(1)], of "user s" b ?k] by simp
    have ok: "rest = 0 \<Longrightarrow> bs = user_bytes (ub (user s)) b ?k"
      using user_access.from_ok [OF fifo_kernel.axioms(1) [OF assms(1)]] c by fastforce
    show ?thesis
      using fifo_kernel.write_alone [OF assms(1), of ?c t bs rest] assms(2-4) True len c ok k lb
      by (cases "rest = 0") (auto simp: Let_def)
  qed
qed

theorem fifo_write_alone_witness:
  "\<exists>s'. solo (hello_write flat_uaccess (list_lib copy_up) 0) 6 (call_write 0 0 3 True demo_open) =
      Ret s' [Tau, Tau, Tau, Produced [7, 7, 7], Tau, Tau] \<and> call_done 0 3 [7, 7, 7] s'"
proof -
  have "user_bytes (flat_byte demo_user) 0 3 = [7, 7, 7]"
    by (simp add: user_bytes_def flat_byte_def demo_user_def numeral_3_eq_3)
  then show ?thesis
    using fifo_write_alone [OF up_lib.fifo_kernel_axioms, of demo_open 0 0 3 True] demo_copy [of 3]
    by (simp add: Let_def) blast
qed


definition unloaded :: "int \<Rightarrow> fifo_module" where
  "unloaded maj = \<lparr>hello_major = maj, devp = None, res = no_resources\<rparr>"

text \<open>
  Loading the FIFO module: a load that fails leaves no region and no device behind; one that
  succeeds leaves an empty FIFO and is undone by unloading, but the device can be opened before its
  mutex and its wait queues are initialised.
\<close>

theorem fifo_load:
  assumes "chrdev_numbers E" and init: "hello_init E (unloaded maj) = (rv, m)"
  shows "if rv < 0 then regions (res m) = [] \<and> devp m = None \<and> cdev_live (res m) = None
    else rv = 0 \<and> devp m = Some fresh_dev \<and> length (regions (res m)) = 1 \<and>
      init_log (res m) = [EvRegion, EvAlloc] @
        (if cdev_add_ret E (mkdev E (hello_major m) 0) = 0 then [EvCdevAdd] else []) @ [EvMutexInit, EvWaitqInit] \<and>
      devp (hello_exit E m) = None \<and> regions (res (hello_exit E m)) = [] \<and>
      cdev_live (res (hello_exit E m)) = None"
  using init chrdev_numbers.alloc_minor_zero [OF assms(1)]
  by (cases "maj = 0"; cases "kzalloc_ok E")
    (auto simp: hello_init_def hello_exit_def hello_setup_cdev_def unloaded_def no_resources_def
      Let_def errno_defs split: if_splits)

theorem fifo_load_witness:
  "\<exists>m. hello_init (linux_chrdev 5) (unloaded 0) = (0, m) \<and>
    init_log (res m) = [EvRegion, EvAlloc, EvCdevAdd, EvMutexInit, EvWaitqInit] \<and>
    devp (hello_exit (linux_chrdev 5) m) = None"
proof -
  obtain rv m where i: "hello_init (linux_chrdev 5) (unloaded 0) = (rv, m)" by fastforce
  then have "rv = 0" by (simp add: hello_init_def unloaded_def linux_chrdev_def Let_def)
  then show ?thesis
    using i fifo_load [OF linux_chrdev.chrdev_numbers_axioms i] by (auto simp: linux_chrdev_def)
qed

end
