(* ===== verification/Bdev.thy ===== *)
theory Bdev
  imports Kernel_Prelude
begin

text \<open>
  The RAM block device of \<open>src/bdev/main.c\<close>: the request handler with its 32-bit offset, the copy
  of every segment that it prints, and load and unload. A request carries the page buffers of its
  segments; the block layer and \<open>vmalloc\<close> are parameters.
\<close>

section \<open>Model\<close>

definition RAMBLOCK_SIZE :: u32 where "RAMBLOCK_SIZE = 16 * 1024 * 1024"
definition SECTOR_SIZE :: nat where "SECTOR_SIZE = 512"

datatype req_op = REQ_OP_READ | REQ_OP_WRITE | REQ_OP_OTHER
datatype blk_status = BLK_STS_OK | BLK_STS_IOERR

record request =
  rq_pos :: u64
  rq_sectors :: u32
  rq_passthrough :: bool
  rq_op :: req_op
  rq_segments :: "byte list list"

text \<open>
  \<open>ram\<close> is the block behind \<open>ramblock_data\<close>, \<open>capacity\<close> the capacity of \<open>ramblock_disk\<close>, \<open>vmallocs\<close> the
  number of calls of \<open>vmalloc\<close> made so far and \<open>ended\<close> what \<open>blk_mq_end_request\<close> reported, latest
  first.
\<close>

record ramblock =
  ram :: "nat \<Rightarrow> byte"
  capacity :: u64
  vmallocs :: nat
  ended :: "blk_status list"

type_synonym vmalloc = "nat \<Rightarrow> nat \<Rightarrow> byte list option"

definition ram_get :: "(nat \<Rightarrow> byte) \<Rightarrow> nat \<Rightarrow> nat \<Rightarrow> byte list" where
  "ram_get d off n = map (\<lambda>i. d (off + i)) [0..<n]"

definition ram_put :: "(nat \<Rightarrow> byte) \<Rightarrow> nat \<Rightarrow> byte list \<Rightarrow> nat \<Rightarrow> byte" where
  "ram_put d off bs = (\<lambda>i. if off \<le> i \<and> i < off + length bs then bs ! (i - off) else d i)"

definition in_ram :: "nat \<Rightarrow> nat \<Rightarrow> bool" where
  "in_ram off n \<longleftrightarrow> off + n \<le> unat RAMBLOCK_SIZE"

text \<open>
  Copying a segment to the scratch block and printing it with \<open>%s\<close>: the print reads up to the first
  zero byte, wherever it is.
\<close>

definition log_copy :: "byte list option \<Rightarrow> byte list \<Rightarrow> fault option" where
  "log_copy data bs =
     (case data of
        None \<Rightarrow> if bs = [] then None else Some NullDeref
      | Some blk \<Rightarrow> (case mem_store blk 0 bs of
            None \<Rightarrow> Some OutOfBounds
          | Some d \<Rightarrow> if 0 \<in> set d then None else Some OutOfBounds))"

definition do_segment :: "vmalloc \<Rightarrow> req_op \<Rightarrow> nat \<Rightarrow> byte list \<Rightarrow> ramblock \<Rightarrow> (ramblock, byte list) run" where
  "do_segment V opr off buf st =
     (let data = V (vmallocs st) (length buf); st1 = st\<lparr>vmallocs := Suc (vmallocs st)\<rparr>
      in case opr of
           REQ_OP_READ \<Rightarrow>
             if \<not> in_ram off (length buf) then Fault OutOfBounds
             else let bs = ram_get (ram st) off (length buf)
                  in (case log_copy data bs of Some f \<Rightarrow> Fault f | None \<Rightarrow> Ret st1 bs)
         | REQ_OP_WRITE \<Rightarrow>
             if \<not> in_ram off (length buf) then Fault OutOfBounds
             else (case log_copy data buf of Some f \<Rightarrow> Fault f
                   | None \<Rightarrow> Ret (st1\<lparr>ram := ram_put (ram st) off buf\<rparr>) buf)
         | REQ_OP_OTHER \<Rightarrow> Ret st1 buf)"

fun rq_for_each_segment :: "vmalloc \<Rightarrow> req_op \<Rightarrow> u32 \<Rightarrow> byte list list \<Rightarrow> ramblock \<Rightarrow>
    (ramblock, byte list list \<times> blk_status) run" where
  "rq_for_each_segment V opr offset [] st = Ret st ([], BLK_STS_OK)"
| "rq_for_each_segment V opr offset (buf # bufs) st =
     (if offset + of_nat (length buf) > RAMBLOCK_SIZE then Ret st (buf # bufs, BLK_STS_IOERR)
      else case do_segment V opr (unat offset) buf st of
             Fault f \<Rightarrow> Fault f
           | Block s \<Rightarrow> Block s
           | Ret st1 buf1 \<Rightarrow>
               (case rq_for_each_segment V opr (offset + of_nat (length buf)) bufs st1 of
                  Fault f \<Rightarrow> Fault f
                | Block s \<Rightarrow> Block s
                | Ret st2 (bufs2, status) \<Rightarrow> Ret st2 (buf1 # bufs2, status)))"

definition blk_mq_end_request :: "blk_status \<Rightarrow> ramblock \<Rightarrow> ramblock" where
  "blk_mq_end_request status st = st\<lparr>ended := status # ended st\<rparr>"

definition ramblock_process_request :: "vmalloc \<Rightarrow> request \<Rightarrow> ramblock \<Rightarrow>
    (ramblock, byte list list \<times> blk_status) run" where
  "ramblock_process_request V req st =
     (let start_sector = rq_pos req; nr_sectors = rq_sectors req;
          offset = ucast (start_sector * of_nat SECTOR_SIZE) :: u32;
          end_request = (\<lambda>s bufs status. Ret (blk_mq_end_request status s) (bufs, status))
      in if start_sector + ucast nr_sectors > capacity st then end_request st (rq_segments req) BLK_STS_IOERR
         else if rq_passthrough req then end_request st (rq_segments req) BLK_STS_IOERR
         else case rq_for_each_segment V (rq_op req) offset (rq_segments req) st of
                Fault f \<Rightarrow> Fault f
              | Block s \<Rightarrow> Block s
              | Ret st1 (bufs, status) \<Rightarrow> end_request st1 bufs status)"

text \<open>
  Load and unload. The record says which of the kernel calls succeed; \<open>blk_mq_alloc_disk\<close> makes
  the disk together with a queue, and \<open>put_disk\<close> releases the queue the disk points to.
\<close>

record blk_env =
  vmalloc_disk_ok :: bool
  tag_set_ret :: int
  alloc_disk_err :: int
  init_queue_err :: int

record blk_module =
  data_live :: bool
  tags_live :: bool
  disk_live :: bool
  disk_added :: bool
  disk_capacity :: u64
  queues :: nat

definition blk_unloaded :: blk_module where
  "blk_unloaded = \<lparr>data_live = False, tags_live = False, disk_live = False, disk_added = False,
     disk_capacity = 0, queues = 0\<rparr>"

definition ramblock_init :: "blk_env \<Rightarrow> blk_module \<Rightarrow> int \<times> blk_module" where
  "ramblock_init E m =
     (if \<not> vmalloc_disk_ok E then (- ENOMEM, m)
      else let m1 = m\<lparr>data_live := True\<rparr>
        in if tag_set_ret E \<noteq> 0 then (- ENOMEM, m1\<lparr>data_live := False\<rparr>)
           else let m2 = m1\<lparr>tags_live := True\<rparr>
             in if alloc_disk_err E < 0 then (alloc_disk_err E, m2\<lparr>tags_live := False, data_live := False\<rparr>)
                else let m3 = m2\<lparr>disk_live := True, queues := queues m2 + 1,
                                disk_capacity := of_nat (unat RAMBLOCK_SIZE div SECTOR_SIZE)\<rparr>
                  in if init_queue_err E < 0 then (- ENOMEM, m3\<lparr>tags_live := False\<rparr>)
                     else (0, m3\<lparr>queues := queues m3 + 1, disk_added := True\<rparr>))"

definition ramblock_exit :: "blk_module \<Rightarrow> blk_module" where
  "ramblock_exit m =
     (let m1 = (if disk_live m
                then m\<lparr>disk_added := False, disk_live := False, queues := queues m - 1\<rparr> else m)
      in m1\<lparr>tags_live := False, data_live := False\<rparr>)"

section \<open>The allocator\<close>

text \<open>\<open>vmalloc\<close> fails or returns a block at least as long as the request.\<close>

locale vmalloc_api =
  fixes V :: vmalloc
  assumes vmalloc_len: "V i n = Some blk \<Longrightarrow> n \<le> length blk"
begin

lemma log_copy_ok:
  assumes "V i (length bs) \<noteq> None" and "0 \<in> set bs"
  shows "log_copy (V i (length bs)) bs = None"
  using assms vmalloc_len [of i "length bs"] by (auto simp: log_copy_def mem_store_def)

end

text \<open>Whole pages, as the kernel gives them out.\<close>

definition page_vmalloc :: vmalloc where
  "page_vmalloc i n = Some (replicate (4096 * ((n + 4095) div 4096)) 0)"

interpretation pages: vmalloc_api page_vmalloc
  by unfold_locales (auto simp: page_vmalloc_def)

section \<open>The segment loop\<close>

lemma ramblock_size [simp]: "unat RAMBLOCK_SIZE = 16777216"
  by (simp add: RAMBLOCK_SIZE_def)

lemma length_ram_get [simp]: "length (ram_get d off n) = n"
  by (simp add: ram_get_def)

lemma ram_get_add: "ram_get d off (m + n) = ram_get d off m @ ram_get d (off + m) n"
  by (rule nth_equalityI) (auto simp: ram_get_def nth_append)


lemma ram_put_append: "ram_put (ram_put d off a) (off + length a) b = ram_put d off (a @ b)"
  by (rule ext) (auto simp: ram_put_def nth_append)

lemma ram_put_Nil [simp]: "ram_put d off [] = d"
  by (rule ext) (auto simp: ram_put_def)

text \<open>Every buffer of the list can be printed.\<close>

fun loggable :: "vmalloc \<Rightarrow> nat \<Rightarrow> byte list list \<Rightarrow> bool" where
  "loggable V i [] = True"
| "loggable V i (b # bs) = (log_copy (V i (length b)) b = None \<and> loggable V (Suc i) bs)"

text \<open>The disk from \<open>off\<close> on, cut into pieces as long as the buffers.\<close>

fun ram_pieces :: "(nat \<Rightarrow> byte) \<Rightarrow> nat \<Rightarrow> byte list list \<Rightarrow> byte list list" where
  "ram_pieces d off [] = []"
| "ram_pieces d off (b # bs) = ram_get d off (length b) # ram_pieces d (off + length b) bs"

lemma concat_ram_pieces: "concat (ram_pieces d off bufs) = ram_get d off (length (concat bufs))"
  by (induction bufs arbitrary: off) (simp_all add: ram_get_add ram_get_def [of _ _ 0])

lemma map_length_ram_pieces [simp]: "map length (ram_pieces d off bufs) = map length bufs"
  by (induction bufs arbitrary: off) simp_all

lemma offset_in:
  assumes "o1 + n \<le> 16777216"
  shows "\<not> (of_nat o1 :: u32) + of_nat n > RAMBLOCK_SIZE" "unat (of_nat o1 :: u32) = o1"
    "in_ram o1 n"
proof -
  have "unat (of_nat (o1 + n) :: u32) = o1 + n" using assms by (intro unat_of_nat_u32) simp
  then show "\<not> (of_nat o1 :: u32) + of_nat n > RAMBLOCK_SIZE"
    using assms by (simp add: word_less_nat_alt)
  show "unat (of_nat o1 :: u32) = o1" using assms by (intro unat_of_nat_u32) simp
  show "in_ram o1 n" using assms by (simp add: in_ram_def)
qed

lemma segments_read:
  assumes "off + length (concat bufs) \<le> 16777216" and "loggable V (vmallocs st) (ram_pieces (ram st) off bufs)"
  shows "rq_for_each_segment V REQ_OP_READ (of_nat off) bufs st =
    Ret (st\<lparr>vmallocs := vmallocs st + length bufs\<rparr>) (ram_pieces (ram st) off bufs, BLK_STS_OK)"
  using assms
proof (induction bufs arbitrary: off st)
  case (Cons b bufs)
  have o1: "off + length b \<le> 16777216" using Cons.prems(1) by simp
  let ?st = "st\<lparr>vmallocs := Suc (vmallocs st)\<rparr>"
  have "do_segment V REQ_OP_READ off b st = Ret ?st (ram_get (ram st) off (length b))"
    using Cons.prems(2) offset_in(3) [OF o1] by (simp add: do_segment_def)
  moreover have "rq_for_each_segment V REQ_OP_READ (of_nat (off + length b)) bufs ?st =
      Ret (?st\<lparr>vmallocs := vmallocs ?st + length bufs\<rparr>) (ram_pieces (ram ?st) (off + length b) bufs, BLK_STS_OK)"
    by (rule Cons.IH) (use Cons.prems in simp_all)
  ultimately show ?case using offset_in(1,2) [OF o1] by simp
qed simp

lemma segments_write:
  assumes "off + length (concat bufs) \<le> 16777216" and "loggable V (vmallocs st) bufs"
  shows "rq_for_each_segment V REQ_OP_WRITE (of_nat off) bufs st =
    Ret (st\<lparr>vmallocs := vmallocs st + length bufs, ram := ram_put (ram st) off (concat bufs)\<rparr>) (bufs, BLK_STS_OK)"
  using assms
proof (induction bufs arbitrary: off st)
  case (Cons b bufs)
  have o1: "off + length b \<le> 16777216" using Cons.prems(1) by simp
  let ?st = "st\<lparr>vmallocs := Suc (vmallocs st), ram := ram_put (ram st) off b\<rparr>"
  have "do_segment V REQ_OP_WRITE off b st = Ret ?st b"
    using Cons.prems(2) offset_in(3) [OF o1] by (simp add: do_segment_def)
  moreover have "rq_for_each_segment V REQ_OP_WRITE (of_nat (off + length b)) bufs ?st =
      Ret (?st\<lparr>vmallocs := vmallocs ?st + length bufs, ram := ram_put (ram ?st) (off + length b) (concat bufs)\<rparr>)
        (bufs, BLK_STS_OK)"
    by (rule Cons.IH) (use Cons.prems in simp_all)
  ultimately show ?case using offset_in(1,2) [OF o1] by (simp add: ram_put_append)
qed simp

text \<open>What the block layer guarantees of a request: its segments add up to its sectors.\<close>

definition well_formed :: "request \<Rightarrow> bool" where
  "well_formed req \<longleftrightarrow> length (concat (rq_segments req)) = unat (rq_sectors req) * SECTOR_SIZE"

definition full_disk :: "ramblock \<Rightarrow> bool" where
  "full_disk st \<longleftrightarrow> unat (capacity st) * SECTOR_SIZE = unat RAMBLOCK_SIZE"

abbreviation rq_start :: "request \<Rightarrow> nat" where
  "rq_start req \<equiv> unat (rq_pos req) * SECTOR_SIZE"

lemma request_range:
  assumes wf: "well_formed req" and disk: "full_disk st"
    and fits: "unat (rq_pos req) + unat (rq_sectors req) \<le> unat (capacity st)"
  shows "\<not> rq_pos req + ucast (rq_sectors req) > capacity st"
    and "ucast (rq_pos req * of_nat SECTOR_SIZE) = (of_nat (rq_start req) :: u32)"
    and "rq_start req + length (concat (rq_segments req)) \<le> 16777216"
proof -
  have cap: "unat (capacity st) = 32768" using disk by (simp add: full_disk_def SECTOR_SIZE_def)
  have "unat (rq_pos req + ucast (rq_sectors req)) = unat (rq_pos req) + unat (rq_sectors req)"
    using fits cap by (simp add: unat_word_ariths kword)
  then show "\<not> rq_pos req + ucast (rq_sectors req) > capacity st"
    using fits by (simp add: word_less_nat_alt)
  have "unat (rq_pos req * of_nat SECTOR_SIZE) = rq_start req"
    using fits cap by (simp add: unat_word_ariths SECTOR_SIZE_def)
  then have "unat (ucast (rq_pos req * of_nat SECTOR_SIZE) :: u32) = unat (of_nat (rq_start req) :: u32)"
    by (simp only: unat_ucast_64_32 unat_of_nat) simp
  then show "ucast (rq_pos req * of_nat SECTOR_SIZE) = (of_nat (rq_start req) :: u32)"
    by (simp only: word_unat_eq_iff)
  show "rq_start req + length (concat (rq_segments req)) \<le> 16777216"
    using fits cap wf by (simp add: well_formed_def SECTOR_SIZE_def)
qed

lemma segments_other:
  assumes "off + length (concat bufs) \<le> 16777216"
  shows "rq_for_each_segment V REQ_OP_OTHER (of_nat off) bufs st =
    Ret (st\<lparr>vmallocs := vmallocs st + length bufs\<rparr>) (bufs, BLK_STS_OK)"
  using assms
proof (induction bufs arbitrary: off st)
  case (Cons b bufs)
  have o1: "off + length b \<le> 16777216" using Cons.prems(1) by simp
  have "rq_for_each_segment V REQ_OP_OTHER (of_nat (off + length b)) bufs (st\<lparr>vmallocs := Suc (vmallocs st)\<rparr>) =
      Ret (st\<lparr>vmallocs := Suc (vmallocs st) + length bufs\<rparr>) (bufs, BLK_STS_OK)"
    using Cons.IH [of "off + length b" "st\<lparr>vmallocs := Suc (vmallocs st)\<rparr>"] Cons.prems by simp
  then show ?case using offset_in(1,2) [OF o1] by (simp add: do_segment_def)
qed simp

text \<open>A disk filled with ones, and requests for the two halves of its second sector.\<close>

definition demo_disk :: ramblock where
  "demo_disk = \<lparr>ram = (\<lambda>_. 1), capacity = 32768, vmallocs = 0, ended = []\<rparr>"

definition demo_request :: "req_op \<Rightarrow> request" where
  "demo_request p = \<lparr>rq_pos = 1, rq_sectors = 1, rq_passthrough = False, rq_op = p,
     rq_segments = [replicate 256 0, replicate 256 0]\<rparr>"

lemma demo_bounds:
  "well_formed (demo_request p)" "full_disk demo_disk"
  "unat (rq_pos (demo_request p)) + unat (rq_sectors (demo_request p)) \<le> unat (capacity demo_disk)"
  "\<not> rq_passthrough (demo_request p)"
  by (simp_all add: well_formed_def demo_request_def full_disk_def demo_disk_def SECTOR_SIZE_def)

lemma page_vmalloc_256: "length bs = 256 \<Longrightarrow> log_copy (page_vmalloc i (length bs)) bs = None"
  by (auto simp: log_copy_def page_vmalloc_def mem_store_def)

lemma demo_loggable:
  "loggable page_vmalloc i (rq_segments (demo_request p))"
  "loggable page_vmalloc i (ram_pieces d off (rq_segments (demo_request p)))"
  using page_vmalloc_256 by (simp_all add: demo_request_def)

section \<open>Properties\<close>

text \<open>
  C18. A well-formed request inside the capacity, whose segments the handler can print, is served
  completely and reported once: a read fills the segments with exactly the bytes of the disk from
  the start sector on and leaves the disk alone, a write puts the bytes of the segments there and
  changes no other byte, and any other operation changes nothing.
\<close>

theorem ramblock_request:
  assumes "well_formed req" "full_disk st" "\<not> rq_passthrough req"
    and "unat (rq_pos req) + unat (rq_sectors req) \<le> unat (capacity st)"
    and "loggable V (vmallocs st)
      (if rq_op req = REQ_OP_READ then ram_pieces (ram st) (rq_start req) (rq_segments req) else rq_segments req)"
  shows "\<exists>st' bufs. ramblock_process_request V req st = Ret st' (bufs, BLK_STS_OK) \<and>
    ended st' = BLK_STS_OK # ended st \<and> capacity st' = capacity st \<and>
    map length bufs = map length (rq_segments req) \<and>
    concat bufs = (if rq_op req = REQ_OP_READ
      then ram_get (ram st) (rq_start req) (unat (rq_sectors req) * SECTOR_SIZE) else concat (rq_segments req)) \<and>
    ram st' = (if rq_op req = REQ_OP_WRITE
      then ram_put (ram st) (rq_start req) (concat (rq_segments req)) else ram st)"
proof (cases "rq_op req")
  case REQ_OP_READ
  then show ?thesis
    using assms request_range [OF assms(1,2,4)]
      segments_read [of "rq_start req" "rq_segments req" V st] concat_ram_pieces [of "ram st" "rq_start req" "rq_segments req"]
    by (simp add: ramblock_process_request_def Let_def blk_mq_end_request_def well_formed_def)
next
  case REQ_OP_WRITE
  then show ?thesis
    using assms request_range [OF assms(1,2,4)] segments_write [of "rq_start req" "rq_segments req" V st]
    by (simp add: ramblock_process_request_def Let_def blk_mq_end_request_def)
next
  case REQ_OP_OTHER
  then show ?thesis
    using assms request_range [OF assms(1,2,4)] segments_other [of "rq_start req" "rq_segments req" V st]
    by (simp add: ramblock_process_request_def Let_def blk_mq_end_request_def)
qed

theorem ramblock_request_witness:
  "\<exists>st' bufs. ramblock_process_request page_vmalloc (demo_request REQ_OP_READ) demo_disk =
     Ret st' (bufs, BLK_STS_OK) \<and> concat bufs = ram_get (\<lambda>_. 1) 512 512"
  using ramblock_request [of "demo_request REQ_OP_READ" demo_disk page_vmalloc] demo_bounds demo_loggable
  by (simp add: demo_request_def demo_disk_def SECTOR_SIZE_def) blast



text \<open>
  C33. A request that does not fit the capacity, and one that is passed through from user space, is
  refused with \<open>BLK_STS_IOERR\<close>; no byte of the disk or of the segments changes. This holds as long as
  the sum of start sector and length does not exceed 64 bits.
\<close>

theorem ramblock_refuses:
  assumes "unat (rq_pos req) + unat (rq_sectors req) < 2 ^ 64"
    and "unat (rq_pos req) + unat (rq_sectors req) > unat (capacity st) \<or> rq_passthrough req"
  shows "ramblock_process_request V req st =
    Ret (st\<lparr>ended := BLK_STS_IOERR # ended st\<rparr>) (rq_segments req, BLK_STS_IOERR)"
proof -
  have "unat (rq_pos req + ucast (rq_sectors req)) = unat (rq_pos req) + unat (rq_sectors req)"
    using assms(1) by (simp add: unat_word_ariths kword)
  then show ?thesis
    using assms(2) by (auto simp: ramblock_process_request_def Let_def blk_mq_end_request_def word_less_nat_alt)
qed

theorem ramblock_refuses_witness:
  "ramblock_process_request page_vmalloc ((demo_request REQ_OP_WRITE)\<lparr>rq_pos := 32768\<rparr>) demo_disk =
    Ret (demo_disk\<lparr>ended := [BLK_STS_IOERR]\<rparr>) ([replicate 256 0, replicate 256 0], BLK_STS_IOERR)"
proof -
  have "unat (32768 :: u64) + unat (1 :: u32) > unat (32768 :: u64)" by simp
  then show ?thesis
    using ramblock_refuses [of "(demo_request REQ_OP_WRITE)\<lparr>rq_pos := 32768\<rparr>" demo_disk page_vmalloc]
    by (simp add: demo_request_def demo_disk_def)
qed

text \<open>
  C34. The capacity test wraps around: a request for the last sector of a 64-bit disk passes it, its
  32-bit offset passes the second test as well, and the handler then accesses memory far behind the
  16 MB block.
\<close>

theorem ramblock_wraps:
  assumes "rq_pos req = - 1" "rq_sectors req = 1" "\<not> rq_passthrough req" "rq_op req \<noteq> REQ_OP_OTHER"
    and "rq_segments req = [buf]" "well_formed req"
  shows "ramblock_process_request V req st = Fault OutOfBounds"
proof -
  have len: "length buf = 512" using assms by (simp add: well_formed_def SECTOR_SIZE_def)
  have off: "ucast (rq_pos req * of_nat SECTOR_SIZE) = (- 512 :: u32)"
    using assms(1) by (simp add: SECTOR_SIZE_def)
  have "unat (- 512 :: u32) = 4294966784" by simp
  then have "\<not> in_ram (unat (- 512 :: u32)) 512" by (simp add: in_ram_def)
  then have "do_segment V (rq_op req) (unat (- 512 :: u32)) buf st = Fault OutOfBounds"
    using assms(4) len by (cases "rq_op req") (simp_all add: do_segment_def)
  moreover have "\<not> (- 512 :: u32) + of_nat (length buf) > RAMBLOCK_SIZE" by (simp add: len)
  moreover have "\<not> rq_pos req + ucast (rq_sectors req) > capacity st" using assms(1,2) by simp
  ultimately show ?thesis
    using assms(3,5) off by (simp add: ramblock_process_request_def Let_def)
qed

theorem ramblock_wraps_witness:
  "ramblock_process_request page_vmalloc
     \<lparr>rq_pos = - 1, rq_sectors = 1, rq_passthrough = False, rq_op = REQ_OP_WRITE,
       rq_segments = [replicate 512 0]\<rparr> demo_disk = Fault OutOfBounds"
  by (rule ramblock_wraps) (simp_all add: well_formed_def SECTOR_SIZE_def)

text \<open>
  The handler prints every segment with \<open>%s\<close>. Writing a page that has no zero byte, with the
  scratch block of exactly one page that \<open>vmalloc\<close> gives, reads past the end of that block.
\<close>

theorem ramblock_print_overrun:
  assumes "\<not> rq_passthrough req" "rq_op req = REQ_OP_WRITE" "rq_segments req = buf # bufs"
    and "well_formed req" "full_disk st" "unat (rq_pos req) + unat (rq_sectors req) \<le> unat (capacity st)"
    and "V (vmallocs st) (length buf) = Some blk" "length blk = length buf" "0 \<notin> set buf"
  shows "ramblock_process_request V req st = Fault OutOfBounds"
proof -
  note r = request_range [OF assms(4-6)]
  have o1: "rq_start req + length buf \<le> 16777216" using r(3) assms(3) by simp
  have "log_copy (V (vmallocs st) (length buf)) buf = Some OutOfBounds"
    using assms(7-9) by (simp add: log_copy_def mem_store_def)
  then have "do_segment V REQ_OP_WRITE (rq_start req) buf st = Fault OutOfBounds"
    using offset_in(3) [OF o1] by (simp add: do_segment_def)
  then show ?thesis
    using assms(1-3) r offset_in(1,2) [OF o1] by (simp add: ramblock_process_request_def Let_def)
qed

theorem ramblock_print_overrun_witness:
  "ramblock_process_request page_vmalloc
     \<lparr>rq_pos = 0, rq_sectors = 8, rq_passthrough = False, rq_op = REQ_OP_WRITE,
       rq_segments = [replicate 4096 1]\<rparr> demo_disk = Fault OutOfBounds"
  by (rule ramblock_print_overrun [where blk = "replicate 4096 0" and buf = "replicate 4096 1" and bufs = "[]"])
    (simp_all add: well_formed_def SECTOR_SIZE_def full_disk_def demo_disk_def page_vmalloc_def)

text \<open>
  Load and unload of the block device: what is held after each way to load it. Failures before
  the queue is made release everything; a failure to make the queue keeps the memory and the disk;
  a load that succeeds and its unload leave one queue behind, the one that \<open>blk_mq_alloc_disk\<close> made.
\<close>

theorem ramblock_load:
  assumes "ramblock_init E blk_unloaded = (rv, m)"
  shows "if rv = 0
     then disk_added m \<and> unat (disk_capacity m) * SECTOR_SIZE = unat RAMBLOCK_SIZE \<and>
       ramblock_exit m = blk_unloaded\<lparr>disk_capacity := disk_capacity m, queues := 1\<rparr>
     else rv < 0 \<and> (if vmalloc_disk_ok E \<and> tag_set_ret E = 0 \<and> \<not> alloc_disk_err E < 0
       then rv = - ENOMEM \<and> data_live m \<and> disk_live m \<and> \<not> tags_live m \<and> queues m = 1
       else m = blk_unloaded)"
  using assms
  by (auto simp: ramblock_init_def blk_unloaded_def ramblock_exit_def Let_def errno_defs SECTOR_SIZE_def
      split: if_splits)

theorem ramblock_load_witness:
  "queues (ramblock_exit (snd (ramblock_init
     \<lparr>vmalloc_disk_ok = True, tag_set_ret = 0, alloc_disk_err = 0, init_queue_err = 0\<rparr> blk_unloaded))) = 1"
proof -
  let ?E = "\<lparr>vmalloc_disk_ok = True, tag_set_ret = 0, alloc_disk_err = 0, init_queue_err = 0\<rparr>"
  obtain rv m where i: "ramblock_init ?E blk_unloaded = (rv, m)" by fastforce
  then have "rv = 0" by (simp add: ramblock_init_def Let_def)
  then show ?thesis using ramblock_load [OF i] i by simp
qed

end
