(* ===== verification/Kernel_Heap.thy ===== *)
theory Kernel_Heap
  imports Kernel_Prelude "HOL-Library.Sublist"
begin

text \<open>
  The kernel heap and the C string functions as the library-like modules use them: \<open>kmalloc\<close> and
  \<open>krealloc\<close> are parameters with their documented contract, blocks are byte lists that may be
  longer than asked for, and a heap state counts the calls and the live blocks and keeps the log of
  \<open>printk\<close>.
\<close>

section \<open>Sequencing\<close>

definition run_bind :: "('s, 'a) run \<Rightarrow> ('s \<Rightarrow> 'a \<Rightarrow> ('s, 'b) run) \<Rightarrow> ('s, 'b) run" where
  "run_bind r k = (case r of Ret s v \<Rightarrow> k s v | Block s \<Rightarrow> Block s | Fault f \<Rightarrow> Fault f)"

lemma run_bind_simps [simp]:
  "run_bind (Ret s v) k = k s v" "run_bind (Block s) k = Block s" "run_bind (Fault f) k = Fault f"
  by (simp_all add: run_bind_def)

section \<open>Heap\<close>

datatype klog = LogStr "byte list" | LogInt int | LogNull

record kheap =
  calls :: nat
  live :: int
  klog :: "klog list"

record kalloc =
  kmalloc :: "nat \<Rightarrow> nat \<Rightarrow> byte list option"
  krealloc :: "nat \<Rightarrow> byte list \<Rightarrow> nat \<Rightarrow> byte list option"

definition do_kmalloc :: "kalloc \<Rightarrow> nat \<Rightarrow> kheap \<Rightarrow> byte list option \<times> kheap" where
  "do_kmalloc A n h =
     (case kmalloc A (calls h) n of
        None \<Rightarrow> (None, h\<lparr>calls := Suc (calls h)\<rparr>)
      | Some b \<Rightarrow> (Some b, h\<lparr>calls := Suc (calls h), live := live h + 1\<rparr>))"

definition do_krealloc :: "kalloc \<Rightarrow> byte list option \<Rightarrow> nat \<Rightarrow> kheap \<Rightarrow> byte list option \<times> kheap" where
  "do_krealloc A b n h =
     (case b of
        None \<Rightarrow> do_kmalloc A n h
      | Some old \<Rightarrow> (krealloc A (calls h) old n, h\<lparr>calls := Suc (calls h)\<rparr>))"

definition do_kfree :: "byte list option \<Rightarrow> kheap \<Rightarrow> kheap" where
  "do_kfree b h = (case b of None \<Rightarrow> h | Some _ \<Rightarrow> h\<lparr>live := live h - 1\<rparr>)"

definition log_add :: "klog \<Rightarrow> kheap \<Rightarrow> kheap" where
  "log_add e h = h\<lparr>klog := klog h @ [e]\<rparr>"

lemma log_add_sel [simp]:
  "calls (log_add e h) = calls h" "live (log_add e h) = live h" "klog (log_add e h) = klog h @ [e]"
  by (simp_all add: log_add_def)

text \<open>\<open>kmalloc\<close> gives at least what was asked for; \<open>krealloc\<close> also keeps the old contents.\<close>

locale kalloc_api =
  fixes A :: kalloc
  assumes kmalloc_len: "kmalloc A i n = Some b \<Longrightarrow> n \<le> length b"
    and krealloc_len: "krealloc A i b n = Some b' \<Longrightarrow> n \<le> length b'"
    and krealloc_keeps: "krealloc A i b n = Some b' \<Longrightarrow>
      take (min (length b) n) b' = take (min (length b) n) b"

text \<open>An allocator with a smallest object size, which never fails and zeroes nothing.\<close>

definition slab :: "nat \<Rightarrow> kalloc" where
  "slab m = \<lparr>kmalloc = (\<lambda>_ n. Some (replicate (max m n) 165)),
     krealloc = (\<lambda>_ b n. Some (if n \<le> length b then b else b @ replicate (n - length b) 165))\<rparr>"

interpretation slab: kalloc_api "slab m"
  by unfold_locales (auto simp: slab_def split: if_splits)

section \<open>Blocks by address\<close>

text \<open>
  A heap in which the blocks have an address: the live ones and the number of \<open>kmalloc\<close> calls, which
  the allocator is given. Modules extend the record by their own state.
\<close>

record heap =
  hblocks :: "addr list"
  hcalls :: nat

type_synonym addr_alloc = "addr list \<Rightarrow> nat \<Rightarrow> addr option"

definition halloc :: "addr_alloc \<Rightarrow> 'z heap_scheme \<Rightarrow> addr option \<times> 'z heap_scheme" where
  "halloc A h =
     (case A (hblocks h) (hcalls h) of
        None \<Rightarrow> (None, h\<lparr>hcalls := Suc (hcalls h)\<rparr>)
      | Some a \<Rightarrow> (Some a, h\<lparr>hcalls := Suc (hcalls h), hblocks := a # hblocks h\<rparr>))"

definition hfree :: "addr \<Rightarrow> 'z heap_scheme \<Rightarrow> ('z heap_scheme, unit) run" where
  "hfree a h = (if a \<in> set (hblocks h) then Ret (h\<lparr>hblocks := remove1 a (hblocks h)\<rparr>) () else Fault DoubleFree)"

lemma length_remove1_int: "a \<in> set xs \<Longrightarrow> int (length (remove1 a xs)) = int (length xs) - 1"
  by (induction xs) auto

text \<open>Freeing a list of blocks.\<close>

fun hfree_all :: "addr list \<Rightarrow> 'z heap_scheme \<Rightarrow> ('z heap_scheme, unit) run" where
  "hfree_all [] h = Ret h ()"
| "hfree_all (a # as) h = run_bind (hfree a h) (\<lambda>h1 _. hfree_all as h1)"

lemma hfree_all_ok:
  "distinct as \<Longrightarrow> set as \<subseteq> set (hblocks h) \<Longrightarrow> distinct (hblocks h) \<Longrightarrow>
   \<exists>bs. hfree_all as h = Ret (h\<lparr>hblocks := bs\<rparr>) () \<and> set bs = set (hblocks h) - set as \<and> distinct bs"
proof (induction "as" arbitrary: h)
  case Nil
  then show ?case by (auto intro!: exI [of _ "hblocks h"])
next
  case (Cons a "as")
  let ?h = "h\<lparr>hblocks := remove1 a (hblocks h)\<rparr>"
  have "hfree a h = Ret ?h ()" using Cons.prems(2) by (simp add: hfree_def)
  moreover have "\<exists>bs. hfree_all as ?h = Ret (?h\<lparr>hblocks := bs\<rparr>) () \<and> set bs = set (hblocks ?h) - set as \<and> distinct bs"
    using Cons.prems by (intro Cons.IH) auto
  ultimately show ?case using Cons.prems(3) by auto
qed

text \<open>What the kernel promises: a new block is not one of the live ones.\<close>

locale fresh_alloc =
  fixes A :: addr_alloc
  assumes alloc_fresh: "A lv i = Some a \<Longrightarrow> a \<notin> set lv"

locale total_alloc = fresh_alloc +
  assumes alloc_total: "A lv i \<noteq> None"
begin

lemma halloc_Some:
  "\<exists>a. a \<notin> set (hblocks h) \<and> A (hblocks h) (hcalls h) = Some a \<and>
     halloc A h = (Some a, h\<lparr>hcalls := Suc (hcalls h), hblocks := a # hblocks h\<rparr>)"
  using alloc_total [of "hblocks h" "hcalls h"] alloc_fresh [of "hblocks h" "hcalls h"] by (auto simp: halloc_def)

end

text \<open>An allocator that never fails and gives an address above all live ones.\<close>

definition next_addr :: addr_alloc where
  "next_addr lv i = Some (Suc (sum_list lv))"

lemma next_addr_fresh: "next_addr lv i = Some a \<Longrightarrow> a \<notin> set lv"
  using member_le_sum_list [of a lv] by (auto simp: next_addr_def)

interpretation next_addr: total_alloc next_addr
  by unfold_locales (simp_all add: next_addr_fresh, simp add: next_addr_def)

section \<open>C strings\<close>

text \<open>The bytes before the first zero; a block without a zero is read past its end.\<close>

definition cstr :: "byte list \<Rightarrow> byte list" where
  "cstr b = takeWhile (\<lambda>c. c \<noteq> 0) b"

definition has_nul :: "byte list \<Rightarrow> bool" where
  "has_nul b \<longleftrightarrow> 0 \<in> set b"

text \<open>What \<open>strncpy\<close> stores: \<open>n\<close> bytes, zero after the end of the source string.\<close>

fun strncpy :: "byte list \<Rightarrow> nat \<Rightarrow> byte list option" where
  "strncpy src 0 = Some []"
| "strncpy [] (Suc n) = None"
| "strncpy (c # cs) (Suc n) =
     (if c = 0 then Some (replicate (Suc n) 0) else map_option ((#) c) (strncpy cs n))"

fun strncmp :: "byte list \<Rightarrow> byte list \<Rightarrow> nat \<Rightarrow> int option" where
  "strncmp a b 0 = Some 0"
| "strncmp [] b (Suc n) = None"
| "strncmp (x # a) [] (Suc n) = None"
| "strncmp (x # a) (y # b) (Suc n) =
     (if x \<noteq> y then Some (if x < y then - 1 else 1) else if x = 0 then Some 0 else strncmp a b n)"

fun strstr :: "byte list \<Rightarrow> byte list \<Rightarrow> bool" where
  "strstr [] sub \<longleftrightarrow> sub = []"
| "strstr (c # s) sub \<longleftrightarrow> take (length sub) (c # s) = sub \<or> strstr s sub"

lemma strncpy_plain: "0 \<notin> set (take n src) \<Longrightarrow> n \<le> length src \<Longrightarrow> strncpy src n = Some (take n src)"
  by (induction src n rule: strncpy.induct) auto

lemma strncpy_pad:
  "0 \<notin> set d \<Longrightarrow> strncpy (d @ [0]) n = Some (if length d < n then d @ replicate (n - length d) 0 else take n d)"
proof (induction d arbitrary: n)
  case Nil
  then show ?case by (cases n) simp_all
next
  case (Cons c d)
  then show ?case by (cases n) auto
qed

lemma strncmp_eq_iff:
  "0 \<notin> set (take n b) \<Longrightarrow> n \<le> length a \<Longrightarrow> n \<le> length b \<Longrightarrow>
   \<exists>r. strncmp a b n = Some r \<and> (r = 0 \<longleftrightarrow> take n a = take n b)"
  by (induction a b n rule: strncmp.induct) auto

lemma strstr_sublist: "strstr s sub \<longleftrightarrow> sublist sub s"
proof (induction s)
  case (Cons c s)
  have "take (length sub) (c # s) = sub \<longleftrightarrow> prefix sub (c # s)"
    by (metis append_take_drop_id prefix_def append_eq_conv_conj)
  then show ?case using Cons by (simp add: sublist_Cons_right)
qed simp

lemma cstr_append: "0 \<notin> set a \<Longrightarrow> cstr (a @ 0 # b) = a"
  unfolding cstr_def by (subst takeWhile_append2) auto

lemma cstr_at: "0 \<notin> set (take n b) \<Longrightarrow> n < length b \<Longrightarrow> b ! n = 0 \<Longrightarrow> cstr b = take n b"
  using cstr_append [of "take n b" "drop (Suc n) b"] by (metis id_take_nth_drop)

end
