(* ===== verification/StrView.thy ===== *)
theory StrView
  imports Kernel_Heap
begin

text \<open>
  The growable strings of \<open>src/string/main.c\<close>: creation, growth, joining, searching, and the
  scenario that the module runs when it is loaded. C strings that are passed in are given without
  their terminating zero.
\<close>

section \<open>Model\<close>

definition STRING_CAP :: u64 where "STRING_CAP = 64"

text \<open>\<open>sizeof(string_t)\<close> is the size of a pointer; the structure takes 24 bytes.\<close>

definition sizeof_string_t :: nat where "sizeof_string_t = 8"
definition sizeof_string_view :: nat where "sizeof_string_view = 24"

record string_view =
  str :: "byte list option"
  len :: u32
  cap :: u64

text \<open>One byte stored at a position of a block.\<close>

definition put_nul :: "byte list \<Rightarrow> nat \<Rightarrow> byte list option" where
  "put_nul b i = mem_store b i [0]"

definition string_new_cap :: "kalloc \<Rightarrow> byte list \<Rightarrow> u64 \<Rightarrow> kheap \<Rightarrow> (kheap, string_view option) run" where
  "string_new_cap A s cp h =
     (if of_nat (length s) > cp then Ret h None
      else case do_kmalloc A sizeof_string_t h of
        (None, h1) \<Rightarrow> Ret h1 None
      | (Some hdr, h1) \<Rightarrow>
          if length hdr < sizeof_string_view then Fault OutOfBounds
          else (case do_kmalloc A (unat cp) h1 of
            (None, h2) \<Rightarrow> Ret (do_kfree (Some hdr) h2) None
          | (Some b, h2) \<Rightarrow>
              (case mem_store b 0 s of
                 None \<Rightarrow> Fault OutOfBounds
               | Some b1 \<Rightarrow>
                   (case put_nul b1 (length s) of
                      None \<Rightarrow> Fault OutOfBounds
                    | Some b2 \<Rightarrow> Ret h2 (Some \<lparr>str = Some b2, len = of_nat (length s), cap = cp\<rparr>)))))"

definition string_new :: "kalloc \<Rightarrow> byte list \<Rightarrow> kheap \<Rightarrow> (kheap, string_view option) run" where
  "string_new A s h = string_new_cap A s STRING_CAP h"

text \<open>Both blocks, the structure itself being one of them.\<close>

definition string_free :: "string_view option \<Rightarrow> kheap \<Rightarrow> kheap" where
  "string_free s h = (case s of None \<Rightarrow> h | Some v \<Rightarrow> (do_kfree (str v) h)\<lparr>live := live (do_kfree (str v) h) - 1\<rparr>)"

text \<open>
  One turn of the loop in \<open>string_growup\<close>. \<open>do_div\<close> leaves the quotient in its first argument and
  returns the remainder.
\<close>

definition growup_step :: "u64 \<Rightarrow> u64" where
  "growup_step c =
     (if c \<le> 4096 then c + c
      else if c \<le> 8192 then (let q = c div 2; factor = c mod 2 in q + factor)
      else (let q = c div 4; factor = c mod 4 in q + factor))"

partial_function (option) growup_cap :: "u64 \<Rightarrow> u64 \<Rightarrow> u64 option" where
  "growup_cap want c = (if want \<ge> c then growup_cap want (growup_step c) else Some c)"

definition string_growup :: "kalloc \<Rightarrow> string_view \<Rightarrow> u64 \<Rightarrow> kheap \<Rightarrow> (kheap, string_view) run" where
  "string_growup A s want h =
     (case growup_cap want (cap s) of
        None \<Rightarrow> Block h
      | Some c \<Rightarrow>
          if \<not> want \<ge> cap s then Ret h s
          else let (b, h1) = do_krealloc A (str s) (unat c) h in Ret h1 (s\<lparr>cap := c, str := b\<rparr>))"

text \<open>\<open>strncat\<close> starts at the first zero of the target and stores at most \<open>n\<close> bytes and a zero.\<close>

definition strncat :: "byte list \<Rightarrow> byte list \<Rightarrow> nat \<Rightarrow> byte list option" where
  "strncat b s n = (if \<not> has_nul b then None else mem_store b (length (cstr b)) (take n s @ [0]))"

definition string_append :: "string_view \<Rightarrow> byte list \<Rightarrow> u32 \<Rightarrow> kheap \<Rightarrow> (kheap, string_view) run" where
  "string_append s s2 l h =
     (case str s of
        None \<Rightarrow> Fault NullDeref
      | Some b \<Rightarrow>
          (case strncat b s2 (unat (cap s - ucast (len s))) of
             None \<Rightarrow> Fault OutOfBounds
           | Some b1 \<Rightarrow>
               (case put_nul b1 (unat (len s + l)) of
                  None \<Rightarrow> Fault OutOfBounds
                | Some b2 \<Rightarrow> Ret h (s\<lparr>str := Some b2, len := len s + l\<rparr>))))"

definition string_join :: "kalloc \<Rightarrow> string_view \<Rightarrow> byte list \<Rightarrow> kheap \<Rightarrow> (kheap, string_view) run" where
  "string_join A s s2 h =
     (let l = of_nat (length s2) :: u32; total = ucast (len s + l) :: u64
      in run_bind (if total \<ge> cap s then string_growup A s total h else Ret h s)
           (\<lambda>h1 s1. string_append s1 s2 l h1))"

text \<open>
  The searches read the string and change nothing: \<open>None\<close> is a read outside the block or through a
  null pointer.
\<close>

definition match_at :: "string_view \<Rightarrow> nat \<Rightarrow> byte list \<Rightarrow> bool option" where
  "match_at s i s2 =
     (case str s of None \<Rightarrow> None
      | Some b \<Rightarrow> map_option (\<lambda>r. r = 0) (strncmp (drop i b) (s2 @ [0]) (length s2)))"

fun index_from :: "string_view \<Rightarrow> byte list \<Rightarrow> nat \<Rightarrow> nat \<Rightarrow> int option" where
  "index_from s s2 i 0 = Some (- 1)"
| "index_from s s2 i (Suc n) =
     (case match_at s i s2 of None \<Rightarrow> None
      | Some True \<Rightarrow> Some (int i)
      | Some False \<Rightarrow> index_from s s2 (Suc i) n)"

definition string_index :: "string_view \<Rightarrow> byte list \<Rightarrow> int option" where
  "string_index s s2 =
     (if length s2 > unat (len s) then Some (- 1) else index_from s s2 0 (Suc (unat (len s) - length s2)))"

fun last_index_from :: "string_view \<Rightarrow> byte list \<Rightarrow> nat \<Rightarrow> int option" where
  "last_index_from s s2 0 = Some (- 1)"
| "last_index_from s s2 (Suc i) =
     (case match_at s i s2 of None \<Rightarrow> None
      | Some True \<Rightarrow> Some (int i)
      | Some False \<Rightarrow> last_index_from s s2 i)"

definition string_last_index :: "string_view \<Rightarrow> byte list \<Rightarrow> int option" where
  "string_last_index s s2 =
     (if length s2 > unat (len s) then Some (- 1) else last_index_from s s2 (Suc (unat (len s) - length s2)))"

definition string_len :: "string_view \<Rightarrow> int" where
  "string_len s = sint (len s)"

definition string_has_prefix :: "string_view \<Rightarrow> byte list \<Rightarrow> bool option" where
  "string_has_prefix s p = (if length p > unat (len s) then Some False else match_at s 0 p)"

definition string_has_suffix :: "string_view \<Rightarrow> byte list \<Rightarrow> bool option" where
  "string_has_suffix s p =
     (if length p > unat (len s) then Some False else match_at s (unat (len s) - length p) p)"

definition string_has_substring :: "string_view \<Rightarrow> byte list \<Rightarrow> bool option" where
  "string_has_substring s p =
     (if length p > unat (len s) then Some False
      else case str s of None \<Rightarrow> None
        | Some b \<Rightarrow> if has_nul b then Some (strstr (cstr b) p) else None)"

text \<open>Copies of the string or of a part of it, in a fresh block.\<close>

definition copy_out :: "kalloc \<Rightarrow> string_view \<Rightarrow> nat \<Rightarrow> nat \<Rightarrow> nat \<Rightarrow> kheap \<Rightarrow> (kheap, byte list option) run" where
  "copy_out A s from n room h =
     (case do_kmalloc A room h of
        (None, h1) \<Rightarrow> Ret h1 None
      | (Some b, h1) \<Rightarrow>
          (case str s of None \<Rightarrow> Fault NullDeref
           | Some src \<Rightarrow>
               (case Option.bind (strncpy (drop from src) n) (mem_store b 0) of
                  None \<Rightarrow> Fault OutOfBounds
                | Some b1 \<Rightarrow>
                    (case put_nul b1 n of None \<Rightarrow> Fault OutOfBounds | Some b2 \<Rightarrow> Ret h1 (Some b2)))))"

definition string_char :: "kalloc \<Rightarrow> string_view \<Rightarrow> kheap \<Rightarrow> (kheap, byte list option) run" where
  "string_char A s h = copy_out A s 0 (unat (len s)) (unat (len s + 1)) h"

text \<open>\<open>end\<close> is compared as an unsigned number, \<open>start\<close> and \<open>end\<close> as signed ones.\<close>

definition string_substring :: "kalloc \<Rightarrow> string_view \<Rightarrow> 32 word \<Rightarrow> 32 word \<Rightarrow> kheap \<Rightarrow>
    (kheap, byte list option) run" where
  "string_substring A s start fin h =
     (if sint start < 0 \<or> fin > len s \<or> sint start \<ge> sint fin then Ret h None
      else copy_out A s (nat (sint start)) (nat (sint fin - sint start)) (unat (scast (fin - start + 1) :: u64)) h)"

definition print_block :: "byte list option \<Rightarrow> kheap \<Rightarrow> (kheap, unit) run" where
  "print_block b h =
     (case b of None \<Rightarrow> Ret (log_add LogNull h) ()
      | Some x \<Rightarrow> if has_nul x then Ret (log_add (LogStr (cstr x)) h) () else Fault OutOfBounds)"

definition string_print :: "string_view \<Rightarrow> kheap \<Rightarrow> (kheap, unit) run" where
  "string_print s h = print_block (str s) h"

text \<open>The scenario of \<open>__do_init\<close>.\<close>

definition ascii :: "string \<Rightarrow> byte list" where
  "ascii s = map of_char s"

definition search :: "'a option \<Rightarrow> kheap \<Rightarrow> (kheap, 'a) run" where
  "search r h = (case r of None \<Rightarrow> Fault OutOfBounds | Some v \<Rightarrow> Ret h v)"

definition log_flag :: "bool \<Rightarrow> kheap \<Rightarrow> kheap" where
  "log_flag b h = log_add (LogInt (of_bool b)) h"

definition string_do_init :: "kalloc \<Rightarrow> kheap \<Rightarrow> (kheap, int) run" where
  "string_do_init A h =
     (let (p, h1) = do_kmalloc A 64 h; h2 = do_kfree p h1
      in run_bind (string_new_cap A (ascii ''a'') 2 h2) (\<lambda>h3 sv.
        case sv of None \<Rightarrow> Ret h3 (- ENOMEM)
        | Some s0 \<Rightarrow>
          run_bind (string_join A s0 (ascii ''bc'') h3) (\<lambda>h4 s1.
          run_bind (string_print s1 h4) (\<lambda>h5 _.
          run_bind (string_join A s1 (ascii ''!!'') h5) (\<lambda>h6 s2.
          run_bind (string_char A s2 (log_add (LogInt (string_len s2)) h6)) (\<lambda>h7 c.
          run_bind (print_block c h7) (\<lambda>h8 _.
          run_bind (search (string_has_prefix s2 (ascii ''a'')) (do_kfree c h8)) (\<lambda>h9 pre.
          run_bind (search (string_has_suffix s2 (ascii ''!!'')) (log_flag pre h9)) (\<lambda>h10 suf.
          run_bind (string_join A s2 (ascii ''hello world, this is a test'') (log_flag suf h10)) (\<lambda>h11 s3.
          run_bind (string_print s3 h11) (\<lambda>h12 _.
          run_bind (search (string_index s3 (ascii ''bc'')) h12) (\<lambda>h13 i.
          run_bind (search (string_last_index s3 (ascii ''is'')) (log_add (LogInt i) h13)) (\<lambda>h14 j.
          run_bind (search (string_has_substring s3 (ascii ''bc'')) (log_add (LogInt j) h14)) (\<lambda>h15 sub.
          run_bind (string_substring A s3 1 3 (log_flag sub h15)) (\<lambda>h16 d.
          run_bind (print_block d h16) (\<lambda>h17 _.
            Ret (string_free (Some s3) (do_kfree d h17)) (- EINVAL)))))))))))))))))"

section \<open>Well-formed strings\<close>

definition view_ok :: "string_view \<Rightarrow> bool" where
  "view_ok s \<longleftrightarrow> (case str s of None \<Rightarrow> False
     | Some b \<Rightarrow> unat (cap s) \<le> length b \<and> unat (len s) < unat (cap s) \<and>
         0 \<notin> set (take (unat (len s)) b) \<and> b ! unat (len s) = 0)"

definition sval :: "string_view \<Rightarrow> byte list" where
  "sval s = (case str s of None \<Rightarrow> [] | Some b \<Rightarrow> take (unat (len s)) b)"

lemma view_okE:
  assumes "view_ok s"
  obtains b rest where "str s = Some b" "b = sval s @ 0 # rest" "0 \<notin> set (sval s)"
    "length (sval s) = unat (len s)" "unat (cap s) \<le> length b" "unat (len s) < unat (cap s)"
proof -
  from assms obtain b where b: "str s = Some b" "unat (cap s) \<le> length b" "unat (len s) < unat (cap s)"
    "0 \<notin> set (take (unat (len s)) b)" "b ! unat (len s) = 0"
    by (auto simp: view_ok_def split: option.splits)
  have "sval s = take (unat (len s)) b" using b by (simp add: sval_def)
  moreover have "b = take (unat (len s)) b @ 0 # drop (Suc (unat (len s))) b"
    using b id_take_nth_drop [of "unat (len s)" b] by simp
  moreover have "length (take (unat (len s)) b) = unat (len s)" using b by simp
  ultimately show ?thesis using b that [of b "drop (Suc (unat (len s))) b"] by simp
qed

lemma view_okI:
  assumes "str s = Some (v @ 0 # rest)" "0 \<notin> set v" "length v = unat (len s)"
    "unat (cap s) \<le> length (v @ 0 # rest)" "unat (len s) < unat (cap s)"
  shows "view_ok s \<and> sval s = v"
  using assms by (simp add: view_ok_def sval_def nth_append)

section \<open>Growth\<close>

lemma growup_small: "unat c \<le> 4096 \<Longrightarrow> unat (growup_step c) = 2 * unat c"
  by (simp add: growup_step_def word_le_nat_alt unat_word_ariths)

lemma growup_even:
  assumes "4096 < unat c" "unat c \<le> 8192" "even (unat c)"
  shows "2 * unat (growup_step c) = unat c"
proof -
  have "unat (c mod 2) = 0" using assms(3) by (simp add: unat_word_ariths even_iff_mod_2_eq_zero)
  then have "c mod 2 = 0" by (simp add: unat_eq_zero)
  then have "growup_step c = c div 2" using assms by (simp add: growup_step_def word_le_nat_alt)
  moreover have "unat (c div 2) = unat c div 2" by (simp add: unat_div)
  ultimately show ?thesis using assms(3) by simp
qed

text \<open>The capacities \<open>c 2\<^sup>k\<close> are the ones the loop goes through.\<close>

lemma growup_doubles:
  assumes "unat want < unat c * 2 ^ k" and "\<And>j. j < k \<Longrightarrow> unat c * 2 ^ j \<le> unat want \<and> unat c * 2 ^ j \<le> 4096"
  shows "\<exists>r. growup_cap want c = Some r \<and> unat r = unat c * 2 ^ k"
  using assms
proof (induction k arbitrary: c)
  case 0
  then show ?case by (subst growup_cap.simps) (simp add: word_le_nat_alt)
next
  case (Suc k)
  from Suc.prems(2) [of 0] have c: "unat c \<le> unat want" "unat c \<le> 4096" by simp_all
  have g: "unat (growup_step c) * 2 ^ j = unat c * 2 ^ Suc j" for j by (simp add: growup_small c)
  have "\<exists>r. growup_cap want (growup_step c) = Some r \<and> unat r = unat (growup_step c) * 2 ^ k"
    by (rule Suc.IH; use Suc.prems g in \<open>metis Suc_less_eq\<close>)
  then show ?case using c g by (subst growup_cap.simps) (simp add: word_le_nat_alt)
qed

lemma growup_stuck:
  assumes "growup_cap want c = Some r" and "\<And>x. P x \<Longrightarrow> x \<le> want \<and> P (growup_step x)"
  shows "\<not> P c"
proof (rule growup_cap.raw_induct [OF _ assms(1), of "\<lambda>w c r. w = want \<longrightarrow> \<not> P c", simplified])
  fix f :: "u64 \<Rightarrow> u64 \<Rightarrow> u64 option" and w c r
  assume "\<And>w c r. f w c = Some r \<Longrightarrow> w = want \<longrightarrow> \<not> P c"
    and "(if w \<ge> c then f w (growup_step c) else Some c) = Some r"
  then show "w = want \<longrightarrow> \<not> P c" using assms(2) [of c] by (auto split: if_splits)
qed

lemma growup_loops:
  assumes "unat c * 2 ^ i = m" "even m" "4096 < m" "m \<le> 8192" "m \<le> unat want"
  shows "growup_cap want c = None"
proof (rule ccontr)
  assume "growup_cap want c \<noteq> None"
  then obtain r where r: "growup_cap want c = Some r" by blast
  let ?P = "\<lambda>x :: u64. \<exists>i. unat x * 2 ^ i = m"
  have "x \<le> want \<and> ?P (growup_step x)" if "?P x" for x
  proof -
    from that obtain j where j: "unat x * 2 ^ j = m" by blast
    then have "unat x \<le> m" by (metis le_add1 mult.commute mult_le_mono1 mult_numeral_1 numeral_One one_le_numeral one_le_power)
    show ?thesis
    proof (cases j)
      case 0
      then have "2 * unat (growup_step x) = m" using growup_even [of x] j assms by simp
      then have "unat (growup_step x) * 2 ^ 1 = m" by simp
      then show ?thesis using \<open>unat x \<le> m\<close> assms(5) unfolding word_le_nat_alt by (metis order_trans)
    next
      case (Suc k)
      then have "2 * (unat x * 2 ^ k) = m" using j by simp
      moreover have "unat x \<le> unat x * 2 ^ k" by simp
      ultimately have "unat x \<le> 4096" using assms(4) by linarith
      then have "unat (growup_step x) * 2 ^ k = m" using growup_small Suc j by simp
      then show ?thesis using \<open>unat x \<le> m\<close> assms(5) by (auto simp: word_le_nat_alt)
    qed
  qed
  from growup_stuck [OF r, of ?P, OF this] assms(1) show False by blast
qed

lemma growup_top:
  assumes "0 < n" "n \<le> 4096"
  shows "\<exists>k. 4096 < n * 2 ^ Suc k \<and> n * 2 ^ Suc k \<le> (8192 :: nat)"
proof -
  define k where "k = (LEAST k. 4096 < n * 2 ^ k)"
  have "4096 < n * 2 ^ 13" using assms(1) by simp
  then have gt: "4096 < n * 2 ^ k" unfolding k_def by (rule LeastI)
  then obtain j where j: "k = Suc j" using assms(2) by (cases k) auto
  then have "\<not> 4096 < n * 2 ^ j" using not_less_Least [of j "\<lambda>k. 4096 < n * 2 ^ k"] by (simp add: k_def)
  then have "n * 2 ^ Suc j \<le> 8192" by simp
  with gt j show ?thesis by blast
qed

text \<open>Growing from a capacity up to 4096 returns exactly if no reachable capacity above 4096 is too small.\<close>

lemma growup_returns:
  assumes "0 < unat c" "unat c \<le> 4096"
    and reach: "\<And>k. unat c * 2 ^ k \<le> unat want \<Longrightarrow> unat c * 2 ^ k \<le> 4096"
  shows "\<exists>r k. growup_cap want c = Some r \<and> unat r = unat c * 2 ^ k \<and> unat want < unat r \<and>
    (k \<noteq> 0 \<longrightarrow> unat r \<le> 2 * unat want)"
proof -
  define k where "k = (LEAST k. unat want < unat c * 2 ^ k)"
  have "\<exists>k. unat want < unat c * 2 ^ k"
  proof -
    from growup_top [OF assms(1,2)] obtain j where "4096 < unat c * 2 ^ Suc j" by blast
    with reach [of "Suc j"] show ?thesis by (metis not_le)
  qed
  then have gt: "unat want < unat c * 2 ^ k" unfolding k_def by (rule LeastI_ex)
  have lt: "unat c * 2 ^ j \<le> unat want \<and> unat c * 2 ^ j \<le> 4096" if "j < k" for j
    using not_less_Least [of j "\<lambda>k. unat want < unat c * 2 ^ k"] that reach [of j] by (simp add: k_def not_less)
  from growup_doubles [OF gt lt] obtain r where r: "growup_cap want c = Some r" "unat r = unat c * 2 ^ k" by blast
  moreover have "unat r \<le> 2 * unat want" if "k \<noteq> 0"
    using lt [of "k - 1"] that r by (cases k) simp_all
  ultimately show ?thesis using gt by metis
qed

section \<open>Joining\<close>

lemma unat_total:
  assumes "unat (n :: u32) + m < 2 ^ 32"
  shows "unat (n + of_nat m) = unat n + m" "unat (ucast (n + of_nat m) :: u64) = unat n + m"
proof -
  have "unat (of_nat m :: u32) = m" using assms by (intro unat_of_nat_u32) simp
  then show "unat (n + of_nat m) = unat n + m" using assms by (simp add: unat_word_ariths)
  then show "unat (ucast (n + of_nat m) :: u64) = unat n + m" by (simp add: kword)
qed

lemma append_ok:
  assumes ok: "view_ok s" and "0 \<notin> set s2" and fits: "unat (len s) + length s2 < unat (cap s)"
    and small: "unat (len s) + length s2 < 2 ^ 32"
  shows "\<exists>s'. string_append s s2 (of_nat (length s2)) h = Ret h s' \<and> view_ok s' \<and>
    sval s' = sval s @ s2 \<and> cap s' = cap s \<and> unat (len s') = unat (len s) + length s2"
proof -
  from ok obtain b rest where b: "str s = Some b" "b = sval s @ 0 # rest" "0 \<notin> set (sval s)"
    "length (sval s) = unat (len s)" "unat (cap s) \<le> length b" by (rule view_okE) blast
  let ?n = "unat (len s)" and ?m = "length s2"
  have tot: "unat (len s + of_nat ?m) = ?n + ?m" by (rule unat_total(1) [OF small])
  have "(ucast (len s) :: u64) \<le> cap s" using fits by (simp add: word_le_nat_alt kword)
  then have room: "unat (cap s - ucast (len s)) = unat (cap s) - ?n"
    using unat_sub [of "ucast (len s)" "cap s"] by (simp add: kword)
  have "cstr b = sval s" using b cstr_append by metis
  moreover have "has_nul b" using b(2) by (simp add: has_nul_def)
  moreover have "take (unat (cap s) - ?n) s2 = s2" using fits by simp
  ultimately have cat: "strncat b s2 (unat (cap s - ucast (len s))) = Some (sval s @ s2 @ 0 # drop ?m rest)"
    using b fits by (simp add: strncat_def room mem_store_def)
  have nul: "put_nul (sval s @ s2 @ 0 # drop ?m rest) (?n + ?m) = Some ((sval s @ s2) @ 0 # drop ?m rest)"
    using b(4) by (simp add: put_nul_def mem_store_def)
  define s' where "s' = s\<lparr>str := Some ((sval s @ s2) @ 0 # drop ?m rest), len := len s + of_nat ?m\<rparr>"
  have "string_append s s2 (of_nat ?m) h = Ret h s'"
    unfolding string_append_def b(1) option.case cat tot nul s'_def ..
  moreover have "view_ok s' \<and> sval s' = sval s @ s2"
    by (rule view_okI [where rest = "drop ?m rest"]) (use b assms(2) fits tot in \<open>auto simp: s'_def\<close>)
  ultimately show ?thesis using tot by (auto simp: s'_def)
qed

context kalloc_api
begin

lemma growup_ok:
  assumes ok: "view_ok s" and want: "unat want \<le> 4096" "cap s \<le> want"
    and alloc: "\<And>i b n. krealloc A i b n \<noteq> None"
  shows "\<exists>s' h'. string_growup A s want h = Ret h' s' \<and> view_ok s' \<and> sval s' = sval s \<and> len s' = len s \<and>
    unat want < unat (cap s') \<and> unat (cap s') \<le> 2 * unat want \<and> live h' = live h \<and> klog h' = klog h"
proof -
  from ok obtain b rest where b: "str s = Some b" "b = sval s @ 0 # rest" "0 \<notin> set (sval s)"
    "length (sval s) = unat (len s)" "unat (cap s) \<le> length b" "unat (len s) < unat (cap s)"
    by (rule view_okE) blast
  have cw: "unat (cap s) \<le> unat want" using want(2) by (simp add: word_le_nat_alt)
  have c0: "0 < unat (cap s)" "unat (cap s) \<le> 4096" using b(6) cw want(1) by linarith+
  have reach: "unat (cap s) * 2 ^ k \<le> 4096" if "unat (cap s) * 2 ^ k \<le> unat want" for k
    using that want(1) by (rule order_trans)
  obtain r k where r: "growup_cap want (cap s) = Some r" "unat r = unat (cap s) * 2 ^ k" "unat want < unat r"
    "k \<noteq> 0 \<longrightarrow> unat r \<le> 2 * unat want"
    using growup_returns [OF c0 reach] by blast
  have k: "k \<noteq> 0" using r cw by (cases k) auto
  obtain b' where b': "krealloc A (calls h) b (unat r) = Some b'" using alloc by blast
  let ?n = "unat (len s)"
  have "Suc ?n \<le> min (length b) (unat r)" using b r cw by linarith
  then have "take (Suc ?n) b' = take (Suc ?n) b"
    using arg_cong [OF krealloc_keeps [OF b'], of "take (Suc ?n)"] by (simp only: take_take min.absorb1)
  also have "\<dots> = sval s @ [0]" by (simp add: b(2) flip: b(4))
  finally have split: "b' = sval s @ 0 # drop (Suc ?n) b'"
    using append_take_drop_id [of "Suc ?n" b'] by simp
  define s' where "s' = s\<lparr>cap := r, str := Some b'\<rparr>"
  have "string_growup A s want h = Ret (h\<lparr>calls := Suc (calls h)\<rparr>) s'"
    using r(1) want(2) b(1) b' by (simp add: string_growup_def do_krealloc_def s'_def)
  moreover have "view_ok s' \<and> sval s' = sval s"
    by (rule view_okI [where rest = "drop (Suc ?n) b'"])
      (use b split krealloc_len [OF b'] r cw in \<open>auto simp: s'_def\<close>)
  ultimately show ?thesis using r(3,4) k by (auto simp: s'_def)
qed

lemma join_ok:
  assumes ok: "view_ok s" and "0 \<notin> set s2" and small: "unat (len s) + length s2 \<le> 4096"
    and alloc: "\<And>i b n. krealloc A i b n \<noteq> None"
  shows "\<exists>s' h'. string_join A s s2 h = Ret h' s' \<and> view_ok s' \<and> sval s' = sval s @ s2 \<and>
    unat (len s') = unat (len s) + length s2 \<and> live h' = live h \<and> klog h' = klog h"
proof -
  let ?t = "ucast (len s + of_nat (length s2)) :: u64"
  have t: "unat ?t = unat (len s) + length s2" by (rule unat_total) (use small in simp)
  show ?thesis
  proof (cases "?t \<ge> cap s")
    case True
    then obtain s1 h1 where g: "string_growup A s ?t h = Ret h1 s1" "view_ok s1" "sval s1 = sval s"
      "len s1 = len s" "unat ?t < unat (cap s1)" "live h1 = live h" "klog h1 = klog h"
      using growup_ok [OF ok _ True alloc, of h] t small by auto
    have fits: "unat (len s1) + length s2 < unat (cap s1)" "unat (len s1) + length s2 < 2 ^ 32"
      using g(4,5) t small by auto
    have "string_join A s s2 h = string_append s1 s2 (of_nat (length s2)) h1"
      using True g(1) by (simp add: string_join_def Let_def)
    then show ?thesis
      using append_ok [OF g(2) assms(2) fits, of h1] g(3,4,6,7) by auto
  next
    case False
    then have "unat (len s) + length s2 < unat (cap s)" using t by (simp add: word_le_nat_alt)
    moreover have "string_join A s s2 h = string_append s s2 (of_nat (length s2)) h"
      using False by (simp add: string_join_def Let_def)
    ultimately show ?thesis using append_ok [OF ok assms(2), of h] small by auto
  qed
qed

end

section \<open>Creation and searching\<close>

definition occurs_at :: "byte list \<Rightarrow> byte list \<Rightarrow> nat \<Rightarrow> bool" where
  "occurs_at v p i \<longleftrightarrow> i + length p \<le> length v \<and> take (length p) (drop i v) = p"

lemma match_at_ok:
  assumes "view_ok s" "0 \<notin> set p" "i + length p \<le> length (sval s)"
  shows "match_at s i p = Some (occurs_at (sval s) p i)"
proof -
  obtain b rest where b: "str s = Some b" "b = sval s @ 0 # rest" by (rule view_okE [OF assms(1)])
  let ?n = "length p"
  have tk: "take ?n (drop i b) = take ?n (drop i (sval s))" using b(2) assms(3) by simp
  have "\<exists>r. strncmp (drop i b) (p @ [0]) ?n = Some r \<and> (r = 0 \<longleftrightarrow> take ?n (drop i b) = take ?n (p @ [0]))"
    by (rule strncmp_eq_iff) (use assms b(2) in auto)
  then obtain r where "strncmp (drop i b) (p @ [0]) ?n = Some r" "r = 0 \<longleftrightarrow> take ?n (drop i b) = p"
    by auto
  then show ?thesis using b(1) assms(3) by (simp add: match_at_def occurs_at_def tk)
qed

lemma occurs_at_bound: "occurs_at v p i \<Longrightarrow> i + length p \<le> length v"
  by (simp add: occurs_at_def)

text \<open>The first occurrence at or after \<open>lo\<close>, or \<open>-1\<close>.\<close>

definition first_at :: "byte list \<Rightarrow> byte list \<Rightarrow> nat \<Rightarrow> int \<Rightarrow> bool" where
  "first_at v p lo r \<longleftrightarrow>
     (if r = - 1 then \<forall>j\<ge>lo. \<not> occurs_at v p j
      else \<exists>k\<ge>lo. r = int k \<and> occurs_at v p k \<and> (\<forall>j\<ge>lo. j < k \<longrightarrow> \<not> occurs_at v p j))"

lemma first_at_here: "occurs_at v p lo \<Longrightarrow> first_at v p lo (int lo)"
  by (auto simp: first_at_def)

lemma first_at_next:
  assumes "\<not> occurs_at v p lo" "first_at v p (Suc lo) r"
  shows "first_at v p lo r"
proof -
  have later: "j \<ge> Suc lo" if "j \<ge> lo" "occurs_at v p j" for j
    using that assms(1) by (cases "j = lo") simp_all
  show ?thesis
  proof (cases "r = - 1")
    case True
    then show ?thesis using assms(2) later by (auto simp: first_at_def)
  next
    case False
    then obtain k where "k \<ge> Suc lo" "r = int k" "occurs_at v p k" "\<forall>j\<ge>Suc lo. j < k \<longrightarrow> \<not> occurs_at v p j"
      using assms(2) by (auto simp: first_at_def)
    then have "k \<ge> lo \<and> r = int k \<and> occurs_at v p k \<and> (\<forall>j\<ge>lo. j < k \<longrightarrow> \<not> occurs_at v p j)"
      using later by auto
    then show ?thesis using False by (auto simp: first_at_def)
  qed
qed

lemma index_from_ok:
  assumes "view_ok s" "0 \<notin> set p" "i + n + length p = Suc (length (sval s))"
  shows "\<exists>r. index_from s p i n = Some r \<and> first_at (sval s) p i r"
  using assms(3)
proof (induction n arbitrary: i)
  case 0
  then show ?case by (auto simp: first_at_def dest: occurs_at_bound)
next
  case (Suc n)
  have m: "match_at s i p = Some (occurs_at (sval s) p i)"
    using match_at_ok [OF assms(1,2), of i] Suc.prems by simp
  show ?case
  proof (cases "occurs_at (sval s) p i")
    case True
    then show ?thesis using m first_at_here by simp
  next
    case False
    obtain r where "index_from s p (Suc i) n = Some r" "first_at (sval s) p (Suc i) r"
      using Suc.IH [of "Suc i"] Suc.prems by auto
    then show ?thesis using m False first_at_next by simp
  qed
qed

lemma last_index_from_ok:
  assumes "view_ok s" "0 \<notin> set p" "n + length p \<le> Suc (length (sval s))"
  shows "\<exists>r. last_index_from s p n = Some r \<and>
    (if r = - 1 then \<forall>j<n. \<not> occurs_at (sval s) p j
     else \<exists>k<n. r = int k \<and> occurs_at (sval s) p k \<and> (\<forall>j. k < j \<longrightarrow> j < n \<longrightarrow> \<not> occurs_at (sval s) p j))"
  using assms(3)
proof (induction n)
  case (Suc n)
  have m: "match_at s n p = Some (occurs_at (sval s) p n)"
    using match_at_ok [OF assms(1,2), of n] Suc.prems by simp
  show ?case
  proof (cases "occurs_at (sval s) p n")
    case True
    then show ?thesis using m by auto
  next
    case False
    then show ?thesis using m Suc by (auto split: if_splits simp: less_Suc_eq)
  qed
qed simp

lemma string_index_ok:
  assumes "view_ok s" "0 \<notin> set p"
  shows "\<exists>r. string_index s p = Some r \<and> first_at (sval s) p 0 r"
proof -
  have n: "length (sval s) = unat (len s)" by (rule view_okE [OF assms(1)])
  show ?thesis
  proof (cases "length p > unat (len s)")
    case True
    then show ?thesis using n by (auto simp: string_index_def first_at_def dest: occurs_at_bound)
  next
    case False
    then show ?thesis
      using index_from_ok [OF assms, of 0 "Suc (unat (len s) - length p)"] n
      by (simp add: string_index_def del: index_from.simps)
  qed
qed

text \<open>The last occurrence, or \<open>-1\<close>.\<close>

definition last_at :: "byte list \<Rightarrow> byte list \<Rightarrow> int \<Rightarrow> bool" where
  "last_at v p r \<longleftrightarrow>
     (if r = - 1 then \<forall>i. \<not> occurs_at v p i
      else \<exists>k. r = int k \<and> occurs_at v p k \<and> (\<forall>j>k. \<not> occurs_at v p j))"

lemma string_last_index_ok:
  assumes "view_ok s" "0 \<notin> set p"
  shows "\<exists>r. string_last_index s p = Some r \<and> last_at (sval s) p r"
proof -
  have n: "length (sval s) = unat (len s)" by (rule view_okE [OF assms(1)])
  show ?thesis
  proof (cases "length p > unat (len s)")
    case True
    then show ?thesis using n by (auto simp: string_last_index_def last_at_def dest: occurs_at_bound)
  next
    case False
    let ?n = "Suc (unat (len s) - length p)"
    have in_range: "j < ?n" if "occurs_at (sval s) p j" for j
      using occurs_at_bound [OF that] n False by simp
    have "\<exists>r. last_index_from s p ?n = Some r \<and>
      (if r = - 1 then \<forall>j<?n. \<not> occurs_at (sval s) p j
       else \<exists>k<?n. r = int k \<and> occurs_at (sval s) p k \<and> (\<forall>j. k < j \<longrightarrow> j < ?n \<longrightarrow> \<not> occurs_at (sval s) p j))"
      by (rule last_index_from_ok [OF assms]) (use n False in simp)
    then show ?thesis
      using False in_range unfolding string_last_index_def last_at_def by (metis (no_types, lifting))
  qed
qed

lemma occurs_sublist: "(\<exists>i. occurs_at v p i) \<longleftrightarrow> sublist p v"
proof
  assume "\<exists>i. occurs_at v p i"
  then obtain i where "take (length p) (drop i v) = p" by (auto simp: occurs_at_def)
  then show "sublist p v" using sublist_take [of "length p" "drop i v"] sublist_drop [of i v] by (metis sublist_order.dual_order.trans)
next
  assume "sublist p v"
  then obtain a b where "v = a @ p @ b" by (auto simp: sublist_def)
  then have "occurs_at v p (length a)" by (simp add: occurs_at_def)
  then show "\<exists>i. occurs_at v p i" ..
qed

lemma string_has_ok:
  assumes "view_ok s" "0 \<notin> set p"
  shows "string_has_prefix s p = Some (prefix p (sval s))"
    and "string_has_suffix s p = Some (suffix p (sval s))"
    and "string_has_substring s p = Some (sublist p (sval s))"
proof -
  obtain b rest where b: "str s = Some b" "b = sval s @ 0 # rest" "0 \<notin> set (sval s)"
    and n: "length (sval s) = unat (len s)" by (rule view_okE [OF assms(1)])
  have "occurs_at (sval s) p 0 \<longleftrightarrow> prefix p (sval s)"
    by (auto simp: occurs_at_def prefix_def) (metis append_take_drop_id)
  then show "string_has_prefix s p = Some (prefix p (sval s))"
    using match_at_ok [OF assms, of 0] n prefix_length_le [of p "sval s"] by (auto simp: string_has_prefix_def)
  have "occurs_at (sval s) p (length (sval s) - length p) \<longleftrightarrow> suffix p (sval s)" if "length p \<le> length (sval s)"
    using that by (auto simp: occurs_at_def suffix_def) (metis append_take_drop_id)
  then show "string_has_suffix s p = Some (suffix p (sval s))"
    using match_at_ok [OF assms, of "length (sval s) - length p"] n suffix_length_le [of p "sval s"]
    by (auto simp: string_has_suffix_def)
  have "cstr b = sval s" "has_nul b" using b cstr_append by (metis, simp add: has_nul_def)
  then show "string_has_substring s p = Some (sublist p (sval s))"
    using b n sublist_length_le [of p "sval s"] by (auto simp: string_has_substring_def strstr_sublist)
qed

section \<open>Copies and the scenario\<close>

text \<open>An allocator that never fails and whose smallest object holds a \<open>struct string_view\<close>.\<close>

definition generous :: "kalloc \<Rightarrow> bool" where
  "generous A \<longleftrightarrow> (\<forall>i n. kmalloc A i n \<noteq> None) \<and> (\<forall>i b n. krealloc A i b n \<noteq> None) \<and>
     (\<forall>i b. kmalloc A i sizeof_string_t = Some b \<longrightarrow> sizeof_string_view \<le> length b)"

lemma generous_slab: "24 \<le> m \<Longrightarrow> generous (slab m)"
  by (simp add: generous_def slab_def sizeof_string_view_def)

lemma do_kmalloc_Some:
  "kmalloc A (calls h) n = Some b \<Longrightarrow>
   do_kmalloc A n h = (Some b, h\<lparr>calls := Suc (calls h), live := live h + 1\<rparr>)"
  by (simp add: do_kmalloc_def)

lemma do_kfree_sel [simp]: "live (do_kfree (Some b) h) = live h - 1" "klog (do_kfree p h) = klog h"
  by (cases p; simp add: do_kfree_def)+

lemma new_cap_run:
  assumes hdr: "kmalloc A (calls h) sizeof_string_t = Some hdr"
    and b: "kmalloc A (Suc (calls h)) (unat cp) = Some b" and l: "unat cp \<le> length b"
    and s: "length s < 2 ^ 31" "length s \<le> unat cp" and z: "0 \<notin> set s"
  shows "if length hdr < sizeof_string_view \<or> length b \<le> length s
    then string_new_cap A s cp h = Fault OutOfBounds
    else \<exists>v h'. string_new_cap A s cp h = Ret h' (Some v) \<and> sval v = s \<and> cap v = cp \<and>
      unat (len v) = length s \<and> (length s < unat cp \<longrightarrow> view_ok v) \<and> live h' = live h + 2 \<and> klog h' = klog h"
proof -
  have n64: "unat (of_nat (length s) :: u64) = length s" using s by (intro unat_of_nat_u64) simp
  have n32: "unat (of_nat (length s) :: u32) = length s" using s by (intro unat_of_nat_u32) simp
  have le: "\<not> (of_nat (length s) :: u64) > cp" using s(2) by (simp add: word_less_nat_alt n64)
  let ?h1 = "h\<lparr>calls := Suc (calls h), live := live h + 1\<rparr>"
  let ?h2 = "h\<lparr>calls := Suc (Suc (calls h)), live := live h + 2\<rparr>"
  have a: "do_kmalloc A sizeof_string_t h = (Some hdr, ?h1)" "do_kmalloc A (unat cp) ?h1 = (Some b, ?h2)"
    using do_kmalloc_Some [OF hdr] b by (simp_all add: do_kmalloc_def)
  have st: "mem_store b 0 s = Some (s @ drop (length s) b)" using s(2) l by (simp add: mem_store_def)
  show ?thesis
  proof (cases "length hdr < sizeof_string_view \<or> length b \<le> length s")
    case True
    then show ?thesis using le a st by (auto simp: string_new_cap_def put_nul_def mem_store_def)
  next
    case False
    let ?b = "s @ 0 # drop (Suc (length s)) b"
    let ?v = "\<lparr>str = Some ?b, len = of_nat (length s), cap = cp\<rparr>"
    have "put_nul (s @ drop (length s) b) (length s) = Some ?b"
      using False by (simp add: put_nul_def mem_store_def)
    then have "string_new_cap A s cp h = Ret ?h2 (Some ?v)"
      using le a st False by (simp add: string_new_cap_def)
    moreover have "view_ok ?v \<and> sval ?v = s" if "length s < unat cp"
      by (rule view_okI [where rest = "drop (Suc (length s)) b"]) (use that z l n32 in auto)
    moreover have "sval ?v = s" using n32 by (simp add: sval_def)
    ultimately show ?thesis using False n32 by auto
  qed
qed

context kalloc_api
begin

lemma new_cap_ok:
  assumes "generous A" "length s < 2 ^ 31" "length s < unat cp" "0 \<notin> set s"
  shows "\<exists>v h'. string_new_cap A s cp h = Ret h' (Some v) \<and> view_ok v \<and> sval v = s \<and>
      unat (len v) = length s \<and> live h' = live h + 2 \<and> klog h' = klog h"
proof -
  obtain hdr b where a: "kmalloc A (calls h) sizeof_string_t = Some hdr" "kmalloc A (Suc (calls h)) (unat cp) = Some b"
    "sizeof_string_view \<le> length hdr"
    using assms(1) by (metis generous_def option.exhaust)
  then show ?thesis
    using new_cap_run [OF a(1,2) kmalloc_len [OF a(2)] assms(2) _ assms(4)] kmalloc_len [OF a(2)] assms(3) by auto
qed

lemma copy_out_ok:
  assumes ok: "view_ok s" and r: "from + n \<le> unat (len s)" "n < room" and alloc: "kmalloc A (calls h) room \<noteq> None"
  shows "\<exists>b h'. copy_out A s from n room h = Ret h' (Some b) \<and> has_nul b \<and>
    cstr b = take n (drop from (sval s)) \<and> live h' = live h + 1 \<and> klog h' = klog h"
proof -
  obtain src rest where b: "str s = Some src" "src = sval s @ 0 # rest" "0 \<notin> set (sval s)"
    and n: "length (sval s) = unat (len s)" by (rule view_okE [OF ok])
  obtain blk where blk: "kmalloc A (calls h) room = Some blk" using alloc by blast
  let ?p = "take n (drop from (sval s))"
  have tk: "take n (drop from src) = ?p" using b(2) r n by simp
  have z: "0 \<notin> set ?p" using b(3) by (meson in_set_dropD in_set_takeD)
  have lp: "length ?p = n" using r n by simp
  have cp: "strncpy (drop from src) n = Some ?p"
    using strncpy_plain [of n "drop from src"] tk z b(2) r n by simp
  have room: "n < length blk" using kmalloc_len [OF blk] r(2) by simp
  then have st: "mem_store blk 0 ?p = Some (?p @ drop n blk)" using lp by (simp add: mem_store_def)
  have nul: "put_nul (?p @ drop n blk) n = Some (?p @ 0 # drop (Suc n) blk)"
    using lp room by (simp add: put_nul_def mem_store_def)
  have "copy_out A s from n room h =
      Ret (h\<lparr>calls := Suc (calls h), live := live h + 1\<rparr>) (Some (?p @ 0 # drop (Suc n) blk))"
    unfolding copy_out_def do_kmalloc_Some [OF blk] prod.case option.case b(1) cp bind.bind_lunit st nul ..
  then show ?thesis using cstr_append [OF z] by (auto simp: has_nul_def)
qed

end

lemma print_block_ok: "has_nul b \<Longrightarrow> print_block (Some b) h = Ret (log_add (LogStr (cstr b)) h) ()"
  by (simp add: print_block_def)

lemma string_print_ok: "view_ok s \<Longrightarrow> string_print s h = Ret (log_add (LogStr (sval s)) h) ()"
  by (erule view_okE) (metis cstr_append has_nul_def in_set_conv_decomp print_block_ok string_print_def)

lemma search_Some [simp]: "search (Some v) h = Ret h v"
  by (simp add: search_def)

lemma string_free_live: "view_ok s \<Longrightarrow> live (string_free (Some s) h) = live h - 2 \<and> klog (string_free (Some s) h) = klog h"
  by (erule view_okE) (simp add: string_free_def)

definition demo_text :: "byte list" where
  "demo_text = ascii ''abc!!hello world, this is a test''"

lemma demo_bytes:
  "ascii ''a'' @ ascii ''bc'' = ascii ''abc''" "ascii ''abc'' @ ascii ''!!'' = ascii ''abc!!''"
  "ascii ''abc!!'' @ ascii ''hello world, this is a test'' = demo_text"
  "length (ascii x) = length x"
  by (simp_all add: ascii_def demo_text_def)

lemma demo_nonzero:
  "0 \<notin> set (ascii ''a'')" "0 \<notin> set (ascii ''bc'')" "0 \<notin> set (ascii ''!!'')" "0 \<notin> set (ascii ''is'')"
  "0 \<notin> set (ascii ''hello world, this is a test'')"
  by code_simp+

lemma demo_index:
  assumes "first_at demo_text (ascii ''bc'') 0 r"
  shows "r = 1"
proof -
  have "occurs_at demo_text (ascii ''bc'') 1" "\<not> occurs_at demo_text (ascii ''bc'') 0" by code_simp+
  then show ?thesis using assms by (auto simp: first_at_def split: if_splits) (metis One_nat_def less_one linorder_neqE_nat)+
qed

lemma demo_last_index:
  assumes "last_at demo_text (ascii ''is'') r"
  shows "r = 23"
proof -
  have here: "occurs_at demo_text (ascii ''is'') 23" by code_simp
  have none: "\<forall>j \<in> set [24..<32]. \<not> occurs_at demo_text (ascii ''is'') j" by code_simp
  have later: "j \<le> 23" if "occurs_at demo_text (ascii ''is'') j" for j
  proof (rule ccontr)
    assume "\<not> j \<le> 23"
    moreover have "j < 32" using that by (simp add: occurs_at_def demo_text_def ascii_def)
    ultimately have "j \<in> set [24..<32]" unfolding set_upt by simp
    then show False using none that by blast
  qed
  from assms here obtain k where k: "r = int k" "occurs_at demo_text (ascii ''is'') k"
    "\<forall>j>k. \<not> occurs_at demo_text (ascii ''is'') j" by (auto simp: last_at_def split: if_splits)
  then have "k = 23" using here later [OF k(2)] by (metis le_neq_implies_less)
  with k show ?thesis by simp
qed

lemma demo_has:
  "prefix (ascii ''a'') (ascii ''abc!!'')" "suffix (ascii ''!!'') (ascii ''abc!!'')"
  "sublist (ascii ''bc'') demo_text"
  by code_simp+

context kalloc_api
begin

lemma do_init_ok:
  assumes g: "generous A"
  shows "\<exists>h'. string_do_init A h = Ret h' (- EINVAL) \<and> live h' = live h \<and>
    klog h' = klog h @ [LogStr (ascii ''abc''), LogInt 5, LogStr (ascii ''abc!!''), LogInt 1, LogInt 1,
      LogStr demo_text, LogInt 1, LogInt 23, LogInt 1, LogStr (ascii ''bc'')]"
proof -
  have re: "\<And>i b n. krealloc A i b n \<noteq> None" and km: "\<And>i n. kmalloc A i n \<noteq> None"
    using g by (simp_all add: generous_def)
  note len = demo_bytes(4)
  obtain p where p: "kmalloc A (calls h) 64 = Some p" using km by blast
  let ?h2 = "do_kfree (Some p) (h\<lparr>calls := Suc (calls h), live := live h + 1\<rparr>)"
  obtain s0 h3 where s0: "string_new_cap A (ascii ''a'') 2 ?h2 = Ret h3 (Some s0)" "view_ok s0"
    "sval s0 = ascii ''a''" "unat (len s0) = 1" "live h3 = live h + 2" "klog h3 = klog h"
    using new_cap_ok [OF g, of "ascii ''a''" 2 ?h2] demo_nonzero(1) by (auto simp: len)
  obtain s1 h4 where s1: "string_join A s0 (ascii ''bc'') h3 = Ret h4 s1" "view_ok s1" "sval s1 = ascii ''abc''"
    "unat (len s1) = 3" "live h4 = live h3" "klog h4 = klog h3"
    using join_ok [OF s0(2) demo_nonzero(2) _ re, of h3] s0(3,4) demo_bytes(1) by (auto simp: len)
  let ?h5 = "log_add (LogStr (ascii ''abc'')) h4"
  obtain s2 h6 where s2: "string_join A s1 (ascii ''!!'') ?h5 = Ret h6 s2" "view_ok s2" "sval s2 = ascii ''abc!!''"
    "unat (len s2) = 5" "live h6 = live ?h5" "klog h6 = klog ?h5"
    using join_ok [OF s1(2) demo_nonzero(3) _ re, of ?h5] s1(3,4) demo_bytes(2) by (auto simp: len)
  have l5: "string_len s2 = 5" "unat (len s2 + 1) = 6"
    using s2(4) sint_small_u32 [of "len s2"] by (simp_all add: string_len_def unat_word_ariths)
  let ?h6 = "log_add (LogInt 5) h6"
  obtain c h7 where c: "string_char A s2 ?h6 = Ret h7 (Some c)" "has_nul c" "cstr c = ascii ''abc!!''"
    "live h7 = live ?h6 + 1" "klog h7 = klog ?h6"
    using copy_out_ok [OF s2(2), of 0 5 6 ?h6] km s2(3,4) l5 by (auto simp: string_char_def len)
  let ?h10 = "log_flag True (log_flag True (do_kfree (Some c) (log_add (LogStr (ascii ''abc!!'')) h7)))"
  have fl: "string_has_prefix s2 (ascii ''a'') = Some True" "string_has_suffix s2 (ascii ''!!'') = Some True"
    using string_has_ok(1) [OF s2(2) demo_nonzero(1)] string_has_ok(2) [OF s2(2) demo_nonzero(3)] s2(3) demo_has
    by simp_all
  obtain s3 h11 where s3: "string_join A s2 (ascii ''hello world, this is a test'') ?h10 = Ret h11 s3" "view_ok s3"
    "sval s3 = demo_text" "unat (len s3) = 32" "live h11 = live ?h10" "klog h11 = klog ?h10"
    using join_ok [OF s2(2) demo_nonzero(5) _ re, of ?h10] s2(3,4) demo_bytes(3) by (auto simp: len)
  have ix: "string_index s3 (ascii ''bc'') = Some 1" "string_last_index s3 (ascii ''is'') = Some 23"
    "string_has_substring s3 (ascii ''bc'') = Some True"
    using string_index_ok [OF s3(2) demo_nonzero(2)] string_last_index_ok [OF s3(2) demo_nonzero(4)]
      string_has_ok(3) [OF s3(2) demo_nonzero(2)] demo_index demo_last_index demo_has(3) s3(3) by auto
  let ?h15 = "log_flag True (log_add (LogInt 23) (log_add (LogInt 1) (log_add (LogStr demo_text) h11)))"
  obtain d h16 where d: "string_substring A s3 1 3 ?h15 = Ret h16 (Some d)" "has_nul d" "cstr d = ascii ''bc''"
    "live h16 = live ?h15 + 1" "klog h16 = klog ?h15"
  proof -
    have sub: "string_substring A s3 1 3 ?h15 = copy_out A s3 1 2 3 ?h15"
      using s3(4) by (simp add: string_substring_def word_less_nat_alt)
    have "take 2 (drop 1 demo_text) = ascii ''bc''" by code_simp
    then show ?thesis using copy_out_ok [OF s3(2), of 1 2 3 ?h15] km s3(3,4) that sub by auto
  qed
  show ?thesis
    using string_free_live [OF s3(2)] s0 s1 s2 c d s3 ix fl l5 p
    by (simp add: string_do_init_def do_kmalloc_def string_print_ok print_block_ok log_flag_def)
qed

end

text \<open>A string holding \<open>ab\<close> in a block of exactly its capacity, for the concrete instances below.\<close>

definition demo_view :: string_view where
  "demo_view = \<lparr>str = Some [97, 98, 0, 165], len = 2, cap = 4\<rparr>"

definition demo_heap :: kheap where
  "demo_heap = \<lparr>calls = 0, live = 0, klog = []\<rparr>"

lemma demo_view_ok: "view_ok demo_view" "sval demo_view = [97, 98]"
  by (simp_all add: view_ok_def demo_view_def sval_def)

section \<open>Properties\<close>

text \<open>
  C6. Joining a string of bytes to a well-formed string returns the concatenation in a well-formed
  string, growing the buffer when needed and keeping the number of live blocks, as long as the
  result has at most 4096 bytes and \<open>krealloc\<close> does not fail.
\<close>

theorem string_join_spec:
  assumes "kalloc_api A" and "view_ok s" and "0 \<notin> set s2" and "unat (len s) + length s2 \<le> 4096"
    and "\<And>i b n. krealloc A i b n \<noteq> None"
  shows "\<exists>s' h'. string_join A s s2 h = Ret h' s' \<and> view_ok s' \<and> sval s' = sval s @ s2 \<and>
    unat (len s') = unat (len s) + length s2 \<and> live h' = live h"
  using kalloc_api.join_ok [OF assms, of h] by blast

theorem string_join_spec_witness:
  "\<exists>s' h'. string_join (slab 8) demo_view [99, 100, 101] demo_heap = Ret h' s' \<and> view_ok s' \<and>
     sval s' = [97, 98, 99, 100, 101] \<and> live h' = 0"
  using string_join_spec [OF slab.kalloc_api_axioms demo_view_ok(1), of "[99, 100, 101]" 8 demo_heap] demo_view_ok(2)
  by (auto simp: demo_view_def demo_heap_def slab_def)

text \<open>
  C16. The growth loop, exactly: started from a capacity \<open>c\<close> between 1 and 4096 it returns if and only
  if every doubling \<open>c 2\<^sup>k\<close> that is too small is at most 4096. Then the new capacity is the first
  doubling above the request. In particular no string grows to 8192 bytes or more: there \<open>do_div\<close>
  halves the capacity instead of computing an increment, and the loop never ends.
\<close>

theorem string_growup_returns_iff:
  assumes "0 < unat (cap s)" "unat (cap s) \<le> 4096" and "want \<ge> cap s" and "str s = Some b"
    and "\<And>i x n. krealloc A i x n \<noteq> None"
  shows "if \<forall>k. unat (cap s) * 2 ^ k \<le> unat want \<longrightarrow> unat (cap s) * 2 ^ k \<le> 4096
    then \<exists>h' s' k. string_growup A s want h = Ret h' s' \<and> unat (cap s') = unat (cap s) * 2 ^ k \<and>
      unat want < unat (cap s') \<and> unat (cap s') \<le> 2 * unat want
    else string_growup A s want h = Block h"
proof (cases "\<forall>k. unat (cap s) * 2 ^ k \<le> unat want \<longrightarrow> unat (cap s) * 2 ^ k \<le> 4096")
  case True
  then have "\<And>k. unat (cap s) * 2 ^ k \<le> unat want \<Longrightarrow> unat (cap s) * 2 ^ k \<le> 4096" by blast
  from growup_returns [OF assms(1,2) this] obtain r k where r: "growup_cap want (cap s) = Some r"
    "unat r = unat (cap s) * 2 ^ k" "unat want < unat r" "k \<noteq> 0 \<longrightarrow> unat r \<le> 2 * unat want" by blast
  have "k \<noteq> 0" using r(2,3) assms(3) by (cases k) (auto simp: word_le_nat_alt)
  obtain b' where "krealloc A (calls h) b (unat r) = Some b'" using assms(5) by blast
  then have "string_growup A s want h = Ret (h\<lparr>calls := Suc (calls h)\<rparr>) (s\<lparr>cap := r, str := Some b'\<rparr>)"
    using r(1) assms(3,4) by (simp add: string_growup_def do_krealloc_def)
  moreover have "unat (cap (s\<lparr>cap := r, str := Some b'\<rparr>)) = unat (cap s) * 2 ^ k"
    "unat want < unat (cap (s\<lparr>cap := r, str := Some b'\<rparr>))" "unat (cap (s\<lparr>cap := r, str := Some b'\<rparr>)) \<le> 2 * unat want"
    using r(2-4) \<open>k \<noteq> 0\<close> by simp_all
  ultimately show ?thesis unfolding if_P [OF True] by blast
next
  case False
  then obtain k where k: "unat (cap s) * 2 ^ k \<le> unat want" "4096 < unat (cap s) * 2 ^ k" by (auto simp: not_le)
  from growup_top [OF assms(1,2)] obtain j where j: "4096 < unat (cap s) * 2 ^ Suc j" "unat (cap s) * 2 ^ Suc j \<le> 8192"
    by blast
  have "j < k"
  proof (rule ccontr)
    assume "\<not> j < k"
    then have "unat (cap s) * 2 ^ k \<le> unat (cap s) * 2 ^ j" by (intro mult_left_mono power_increasing) auto
    also have "\<dots> \<le> 4096" using j(2) by simp
    finally show False using k(2) by linarith
  qed
  then have "unat (cap s) * 2 ^ Suc j \<le> unat (cap s) * 2 ^ k" by (intro mult_left_mono power_increasing) auto
  then have le: "unat (cap s) * 2 ^ Suc j \<le> unat want" using k(1) by (rule order_trans)
  have "even (unat (cap s) * 2 ^ Suc j)" by simp
  from growup_loops [OF refl this j le] have "growup_cap want (cap s) = None" .
  then show ?thesis using False by (simp add: string_growup_def)
qed

theorem string_growup_returns_iff_witness:
  "string_growup (slab 8) (demo_view\<lparr>cap := 64\<rparr>) 8192 demo_heap = Block demo_heap"
proof -
  have n: "unat (cap (demo_view\<lparr>cap := 64\<rparr>)) = 64" "unat (8192 :: u64) = 8192" by simp_all
  have "\<not> (\<forall>k. 64 * 2 ^ k \<le> (8192 :: nat) \<longrightarrow> 64 * 2 ^ k \<le> (4096 :: nat))"
    by (rule notI, drule spec [of _ 7]) simp
  moreover have "0 < unat (cap (demo_view\<lparr>cap := 64\<rparr>))" "unat (cap (demo_view\<lparr>cap := 64\<rparr>)) \<le> 4096"
    "(8192 :: u64) \<ge> cap (demo_view\<lparr>cap := 64\<rparr>)" "str (demo_view\<lparr>cap := 64\<rparr>) = Some [97, 98, 0, 165]"
    by (simp_all add: demo_view_def)
  moreover have "\<And>i x n. krealloc (slab 8) i x n \<noteq> None" by (simp add: slab_def)
  ultimately show ?thesis
    using string_growup_returns_iff [of "demo_view\<lparr>cap := 64\<rparr>" 8192 "[97, 98, 0, 165]" "slab 8" demo_heap]
    unfolding n by (simp only: if_not_P simp_thms)
qed

text \<open>
  Creating a string, when both allocations succeed. The structure is allocated with the size of
  a pointer, so an allocator that gives out less than 24 bytes for it makes the first stores go out
  of bounds; so does a string that fills its capacity exactly, because of the terminating zero.
  Otherwise the new string holds the bytes given. A string longer than the capacity is refused.
\<close>

theorem string_new_cap_spec:
  assumes "kmalloc A (calls h) sizeof_string_t = Some hdr" and "kmalloc A (Suc (calls h)) (unat cp) = Some b"
    and "unat cp \<le> length b" and "length s < 2 ^ 31" and "0 \<notin> set s"
  shows "if length s > unat cp then string_new_cap A s cp h = Ret h None
    else if length hdr < sizeof_string_view \<or> length b \<le> length s
    then string_new_cap A s cp h = Fault OutOfBounds
    else \<exists>v h'. string_new_cap A s cp h = Ret h' (Some v) \<and> sval v = s \<and> cap v = cp \<and>
      (length s < unat cp \<longrightarrow> view_ok v) \<and> live h' = live h + 2"
proof (cases "length s > unat cp")
  case True
  have "unat (of_nat (length s) :: u64) = length s" using assms(4) by (intro unat_of_nat_u64) simp
  then show ?thesis using True by (simp add: string_new_cap_def word_less_nat_alt)
next
  case False
  then show ?thesis using new_cap_run [OF assms(1-4) _ assms(5)] by auto
qed

theorem string_new_cap_spec_witness:
  "string_new_cap (slab 8) [97] 2 demo_heap = Fault OutOfBounds"
  using string_new_cap_spec [of "slab 8" demo_heap "replicate 8 165" 2 "replicate 8 165" "[97]"]
  by (simp add: slab_def sizeof_string_t_def sizeof_string_view_def)



text \<open>
  \<open>string_substring\<close> returns a fresh C string with the bytes from \<open>start\<close> up to \<open>end\<close> if the two
  are a non-empty range inside the string, and a null pointer without allocating otherwise, also
  for negative arguments.
\<close>

theorem string_substring_spec:
  assumes "kalloc_api A" and "view_ok s" and "unat (len s) < 2 ^ 31 - 1" and "\<And>i n. kmalloc A i n \<noteq> None"
  shows "if 0 \<le> sint start \<and> sint start < sint fin \<and> sint fin \<le> int (unat (len s))
    then \<exists>b h'. string_substring A s start fin h = Ret h' (Some b) \<and> live h' = live h + 1 \<and> has_nul b \<and>
      cstr b = take (nat (sint fin) - nat (sint start)) (drop (nat (sint start)) (sval s))
    else string_substring A s start fin h = Ret h None"
proof (cases "0 \<le> sint start \<and> sint start < sint fin \<and> sint fin \<le> int (unat (len s))")
  case True
  then have st: "sint start = int (unat start)" and fi: "sint fin = int (unat fin)"
    using sint_nonneg_u32 [of start] sint_nonneg_u32 [of fin] by auto
  have r: "unat start < unat fin" "unat fin \<le> unat (len s)" using True unfolding st fi by (simp_all only: of_nat_less_iff of_nat_le_iff)
  have "unat (fin - start) = unat fin - unat start" using r(1) by (intro unat_sub) (simp add: word_le_nat_alt)
  then have sz: "unat (fin - start + 1) = unat fin - unat start + 1"
    using r assms(3) by (simp add: unat_word_ariths)
  then have "sint (fin - start + 1) = int (unat fin - unat start + 1)"
    using r assms(3) sint_small_u32 [of "fin - start + 1"] by simp
  then have room: "unat (scast (fin - start + 1) :: u64) = unat fin - unat start + 1"
    using unat_scast_nonneg [of "fin - start + 1"] by simp
  have "\<not> (sint start < 0 \<or> fin > len s \<or> sint start \<ge> sint fin)"
    using True r(2) by (auto simp: word_less_nat_alt)
  then have "string_substring A s start fin h =
      copy_out A s (unat start) (unat fin - unat start) (unat fin - unat start + 1) h"
    by (simp add: string_substring_def room st fi nat_diff_distrib)
  then show ?thesis
    using kalloc_api.copy_out_ok [OF assms(1,2), of "unat start" "unat fin - unat start" "unat fin - unat start + 1" h]
      assms(4) r True by (simp add: st fi) blast
next
  case False
  have "sint start < 0 \<or> fin > len s \<or> sint start \<ge> sint fin"
  proof (rule ccontr)
    assume n: "\<not> (sint start < 0 \<or> fin > len s \<or> sint start \<ge> sint fin)"
    then have "sint fin = int (unat fin)" using sint_nonneg_u32 [of fin] by auto
    moreover have "unat fin \<le> unat (len s)" using n by (simp add: word_less_nat_alt)
    ultimately have "sint fin \<le> int (unat (len s))" by (simp only: of_nat_le_iff)
    then show False using n False by linarith
  qed
  then show ?thesis using False by (simp only: string_substring_def if_P if_not_P not_False_eq_True)
qed

theorem string_substring_spec_witness:
  "\<exists>b h'. string_substring (slab 8) demo_view 1 2 demo_heap = Ret h' (Some b) \<and> cstr b = [98]"
proof -
  have "\<And>i n. kmalloc (slab 8) i n \<noteq> None" by (simp add: slab_def)
  moreover have "unat (len demo_view) = 2" by (simp add: demo_view_def)
  ultimately show ?thesis
    using string_substring_spec [OF slab.kalloc_api_axioms demo_view_ok(1), of 8 1 2 demo_heap] demo_view_ok(2)
    by auto
qed

text \<open>
  Loading the module with an allocator that gives at least 24 bytes for every object prints the
  right strings, positions and answers, frees every block, and returns \<open>-EINVAL\<close>, so that the
  module never stays loaded.
\<close>

theorem string_do_init_spec:
  assumes "kalloc_api A" and "generous A"
  shows "\<exists>h'. string_do_init A h = Ret h' (- EINVAL) \<and> live h' = live h \<and>
    klog h' = klog h @ [LogStr (ascii ''abc''), LogInt 5, LogStr (ascii ''abc!!''), LogInt 1, LogInt 1,
      LogStr (ascii ''abc!!hello world, this is a test''), LogInt 1, LogInt 23, LogInt 1, LogStr (ascii ''bc'')]"
  using kalloc_api.do_init_ok [OF assms, of h] unfolding demo_text_def .

theorem string_do_init_spec_witness:
  "\<exists>h'. string_do_init (slab 32) demo_heap = Ret h' (- EINVAL) \<and> live h' = 0"
  using string_do_init_spec [OF slab.kalloc_api_axioms generous_slab, of 32 demo_heap] by (auto simp: demo_heap_def)

end
