(* ===== verification/Klist.thy ===== *)
theory Klist
  imports Kernel_Heap
begin

text \<open>
  The kernel's circular doubly linked lists, as an interface: the operations of \<open>linux/list.h\<close> that
  the modules call are a record, and a locale states what they do to rings of list heads. The
  interface is realised by a store of next and previous links.
\<close>

section \<open>Interface\<close>

record 'h list_api =
  INIT_LIST_HEAD :: "addr \<Rightarrow> 'h \<Rightarrow> 'h"
  list_add :: "addr \<Rightarrow> addr \<Rightarrow> 'h \<Rightarrow> 'h"
  list_add_tail :: "addr \<Rightarrow> addr \<Rightarrow> 'h \<Rightarrow> 'h"
  list_del :: "addr \<Rightarrow> 'h \<Rightarrow> 'h"
  list_next :: "'h \<Rightarrow> addr \<Rightarrow> addr"
  list_prev :: "'h \<Rightarrow> addr \<Rightarrow> addr"

text \<open>
  \<open>ring h (a # as)\<close>: in \<open>h\<close>, the heads \<open>a\<close>, \<open>as\<close> are linked in this order in a circle. A ring can be
  read from any of its members; \<open>list_add n a\<close> puts \<open>n\<close> after \<open>a\<close>, \<open>list_add_tail n a\<close> before it, and
  \<open>list_del\<close> takes a member out of a larger ring and poisons its links.
\<close>

locale rings =
  fixes L :: "'h list_api" and ring :: "'h \<Rightarrow> addr list \<Rightarrow> bool" and poison :: addr
  assumes ring_distinct: "ring h as \<Longrightarrow> distinct as"
    and ring_rotate: "ring h (a # as) \<Longrightarrow> ring h (as @ [a])"
    and ring_next: "ring h (a # as) \<Longrightarrow> list_next L h a = hd (as @ [a])"
    and ring_prev: "ring h (a # as) \<Longrightarrow> list_prev L h a = last (a # as)"
    and ring_init: "ring (INIT_LIST_HEAD L a h) [a]"
    and init_frame: "ring h as \<Longrightarrow> a \<notin> set as \<Longrightarrow> ring (INIT_LIST_HEAD L a h) as"
    and ring_add: "ring h (a # as) \<Longrightarrow> n \<notin> set (a # as) \<Longrightarrow> ring (list_add L n a h) (a # n # as)"
    and ring_add_tail: "ring h (a # as) \<Longrightarrow> n \<notin> set (a # as) \<Longrightarrow> ring (list_add_tail L n a h) (a # as @ [n])"
    and ring_del: "ring h (a # as) \<Longrightarrow> as \<noteq> [] \<Longrightarrow> ring (list_del L a h) as"
    and del_poison: "list_next L (list_del L a h) a = poison"
begin

lemma ring_append: "ring h (as @ bs) \<Longrightarrow> ring h (bs @ as)"
proof (induction as arbitrary: bs)
  case (Cons a as)
  then have "ring h (as @ bs @ [a])" using ring_rotate [of h a "as @ bs"] by simp
  then show ?case using Cons.IH [of "bs @ [a]"] by simp
qed simp

text \<open>Reading a ring from another member, and back.\<close>

lemma ring_from:
  assumes "ring h (l # ps)" and "i < length ps"
  shows "ring h (ps ! i # drop (Suc i) ps @ l # take i ps)"
proof -
  have "ps = take i ps @ ps ! i # drop (Suc i) ps" using assms(2) by (simp add: id_take_nth_drop)
  then have "ring h ((l # take i ps) @ (ps ! i # drop (Suc i) ps))" using assms(1) by simp
  from ring_append [OF this] show ?thesis by simp
qed

lemma ring_back: "ring h (ds @ l # ts) \<Longrightarrow> ring h (l # ts @ ds)"
  using ring_append [of h ds "l # ts"] by simp

lemma ring_next_at:
  assumes "ring h (l # ps)" and "i < length ps"
  shows "list_next L h (ps ! i) = (ps @ [l]) ! Suc i"
  using ring_next [OF ring_from [OF assms]] assms(2)
  by (cases "Suc i < length ps") (auto simp: hd_append hd_drop_conv_nth nth_append)

lemma ring_next_head: "ring h (l # ps) \<Longrightarrow> list_next L h l = (ps @ [l]) ! 0"
  using ring_next [of h l ps] by (cases ps) simp_all

lemma ring_del_at:
  assumes "ring h (l # ps)" and "i < length ps"
  shows "ring (list_del L (ps ! i) h) (l # take i ps @ drop (Suc i) ps)"
  using ring_back [OF ring_del [OF ring_from [OF assms]]] by simp

lemma ring_add_at:
  assumes "ring h (l # ps)" and "i < length ps" and "n \<notin> set (l # ps)"
  shows "ring (list_add L n (ps ! i) h) (l # take (Suc i) ps @ n # drop (Suc i) ps)"
proof -
  have "n \<notin> set (ps ! i # drop (Suc i) ps @ l # take i ps)"
    using assms(2,3) by (auto dest: in_set_dropD in_set_takeD)
  from ring_add [OF ring_from [OF assms(1,2)] this]
  have "ring (list_add L n (ps ! i) h) ((ps ! i # n # drop (Suc i) ps) @ l # take i ps)" by simp
  from ring_back [OF this] show ?thesis using assms(2) by (simp add: take_Suc_conv_app_nth)
qed

end

section \<open>A store of links\<close>

record links =
  nxt :: "addr \<Rightarrow> addr"
  prv :: "addr \<Rightarrow> addr"

definition LIST_POISON :: addr where "LIST_POISON = 256"

definition link_between :: "addr \<Rightarrow> addr \<Rightarrow> addr \<Rightarrow> links \<Rightarrow> links" where
  "link_between n p x h = h\<lparr>prv := (prv h)(x := n, n := p), nxt := (nxt h)(n := x, p := n)\<rparr>"

definition store_api :: "links list_api" where
  "store_api = \<lparr>INIT_LIST_HEAD = (\<lambda>a h. h\<lparr>nxt := (nxt h)(a := a), prv := (prv h)(a := a)\<rparr>),
     list_add = (\<lambda>n a h. link_between n a (nxt h a) h),
     list_add_tail = (\<lambda>n a h. link_between n (prv h a) a h),
     list_del = (\<lambda>a h. h\<lparr>nxt := (nxt h)(prv h a := nxt h a, a := LIST_POISON),
                         prv := (prv h)(nxt h a := prv h a, a := LIST_POISON)\<rparr>),
     list_next = nxt, list_prev = prv\<rparr>"

fun linked :: "links \<Rightarrow> addr list \<Rightarrow> bool" where
  "linked h (a # b # as) \<longleftrightarrow> nxt h a = b \<and> prv h b = a \<and> linked h (b # as)"
| "linked h _ \<longleftrightarrow> True"

definition store_ring :: "links \<Rightarrow> addr list \<Rightarrow> bool" where
  "store_ring h as \<longleftrightarrow> distinct as \<and> linked h (as @ [hd as])"

lemma linked_append:
  "linked h (as @ x # bs) \<longleftrightarrow> linked h (as @ [x]) \<and> linked h (x # bs)"
  by (induction as rule: linked.induct [where ?a0.0 = h]) auto

lemma linked_cong:
  "linked h as \<Longrightarrow> (\<And>a. a \<in> set (butlast as) \<Longrightarrow> nxt h' a = nxt h a) \<Longrightarrow>
   (\<And>a. a \<in> set (tl as) \<Longrightarrow> prv h' a = prv h a) \<Longrightarrow> linked h' as"
  by (induction h as rule: linked.induct) auto

lemma linked_snoc_eq: "linked h (as @ [p, q]) \<longleftrightarrow> linked h (as @ [p]) \<and> nxt h p = q \<and> prv h q = p"
  using linked_append [of h as p "[q]"] by simp

lemma store_ring_last:
  assumes "store_ring h (a # as)" and up: "a # as = us @ [p]"
  shows "linked h (us @ [p]) \<and> nxt h p = a \<and> prv h a = p"
proof -
  have "linked h ((a # as) @ [a])" using assms(1) by (simp add: store_ring_def)
  then have "linked h (us @ [p, a])" unfolding up by simp
  then show ?thesis by (simp only: linked_snoc_eq)
qed

interpretation store: rings store_api store_ring LIST_POISON
proof unfold_locales
  fix h :: links and a n :: addr and as :: "addr list"
  show "store_ring h as \<Longrightarrow> distinct as" by (simp add: store_ring_def)
  show "store_ring h (a # as) \<Longrightarrow> store_ring h (as @ [a])"
    using linked_snoc_eq [of h as a "hd as"] by (cases as) (auto simp: store_ring_def)
  show "store_ring h (a # as) \<Longrightarrow> list_next store_api h a = hd (as @ [a])"
    by (cases as) (auto simp: store_ring_def store_api_def)
  show "store_ring h (a # as) \<Longrightarrow> list_prev store_api h a = last (a # as)"
    using store_ring_last [of h a as "butlast (a # as)" "last (a # as)"] by (simp add: store_api_def)
  show "store_ring (INIT_LIST_HEAD store_api a h) [a]"
    by (simp add: store_ring_def store_api_def)
  show "store_ring (INIT_LIST_HEAD store_api a h) as" if r: "store_ring h as" and "a \<notin> set as"
  proof (cases as)
    case (Cons b bs)
    have "linked (INIT_LIST_HEAD store_api a h) (as @ [b])"
      by (rule linked_cong [of h]) (use that Cons in \<open>auto simp: store_ring_def store_api_def\<close>)
    then show ?thesis using that Cons by (simp add: store_ring_def)
  qed (simp add: store_ring_def)
  show "store_ring (list_add store_api n a h) (a # n # as)" if r: "store_ring h (a # as)" and "n \<notin> set (a # as)"
  proof -
    define x where "x = hd (as @ [a])"
    have x: "nxt h a = x" using r by (cases as) (auto simp: store_ring_def x_def)
    have l: "linked h (as @ [a])" using r by (cases as) (auto simp: store_ring_def)
    have "linked (link_between n a x h) (as @ [a])"
      by (rule linked_cong [OF l]) (use that in \<open>cases as; auto simp: link_between_def x_def store_ring_def\<close>)+
    then show ?thesis
      using that x by (cases as) (auto simp: store_ring_def store_api_def link_between_def x_def)
  qed
  show "store_ring (list_add_tail store_api n a h) (a # as @ [n])" if r: "store_ring h (a # as)" and "n \<notin> set (a # as)"
  proof -
    define us p where "us = butlast (a # as)" and "p = last (a # as)"
    have up: "a # as = us @ [p]" by (simp add: us_def p_def)
    then have l: "linked h (us @ [p])" and p: "prv h a = p"
      using store_ring_last [OF r] by blast+
    have "distinct (us @ [p])" "n \<notin> set (us @ [p])" using r that(2) by (simp_all add: store_ring_def flip: up)
    then have u: "p \<notin> set us" "n \<notin> set us" "n \<noteq> p" by auto
    have v: "tl (us @ [p]) = as" "a \<notin> set as" "n \<notin> set as" "n \<noteq> a"
      using r that(2) by (simp_all add: store_ring_def flip: up)
    have "linked (link_between n p a h) (us @ [p])"
      by (rule linked_cong [OF l]; unfold v(1) butlast_snoc) (use u v in \<open>auto simp: link_between_def\<close>)
    then have "linked (link_between n p a h) (us @ [p, n])" using u by (simp add: linked_snoc_eq link_between_def)
    then have "linked (link_between n p a h) ((us @ [p]) @ [n, a])"
      using u v unfolding linked_snoc_eq [of _ "us @ [p]"] by (simp add: link_between_def)
    then have "linked (link_between n p a h) ((a # as) @ [n, a])" unfolding up .
    then show ?thesis using r that(2) p by (simp add: store_ring_def store_api_def)
  qed
  show "store_ring (list_del store_api a h) as" if r: "store_ring h (a # as)" and "as \<noteq> []"
  proof -
    define us p where "us = butlast as" and "p = last as"
    have up: "as = us @ [p]" using that(2) by (simp add: us_def p_def)
    let ?h = "list_del store_api a h"
    have n: "nxt h a = hd as" "prv h a = p" "linked h (us @ [p])"
      using store_ring_last [OF r, of "a # us" p] r that(2) up linked_append [of h "[a]" "hd us" "tl us @ [p]"]
      by (cases us; auto simp: store_ring_def)+
    have d: "distinct as" "a \<notin> set as" using r by (auto simp: store_ring_def)
    have "linked ?h (us @ [p])"
      by (rule linked_cong [OF n(3)]) (use n(1,2) d up in \<open>cases us; auto simp: store_api_def\<close>)+
    moreover have "hd as \<noteq> a" "p \<noteq> a" using d(2) hd_in_set [OF that(2)] last_in_set [OF that(2)] by (auto simp: p_def)
    then have "nxt ?h p = hd as" "prv ?h (hd as) = p" using n(1,2) by (simp_all add: store_api_def)
    ultimately show ?thesis using d(1) up linked_snoc_eq [of ?h us p "hd as"] by (simp add: store_ring_def)
  qed
  show "list_next store_api (list_del store_api a h) a = LIST_POISON"
    by (simp add: store_api_def)
qed

end
