(* ===== verification/Container.thy ===== *)
theory Container
  imports Klist
begin

text \<open>
  The queue, the stack and the linked list of \<open>src/list/container.c\<close>, built on the kernel's list
  heads, and the scenario of \<open>src/list/main.c\<close>. A pointer to a node or to a container is the
  address of its \<open>list_head\<close>, its first member. A loop over a list that never meets its head is
  the outcome \<open>Block\<close>.
\<close>

section \<open>Model\<close>

text \<open>
  The allocator gets the live blocks, the number of the call and the size, and gives the address of
  a block and its bytes. A node takes 20 bytes, as do the three container structures; all are
  allocated with the size of a pointer.
\<close>

type_synonym block_alloc = "addr list \<Rightarrow> nat \<Rightarrow> nat \<Rightarrow> (addr \<times> byte list) option"

definition sizeof_pointer :: nat where "sizeof_pointer = 8"
definition sizeof_node :: nat where "sizeof_node = 20"
definition PATH_MAX :: nat where "PATH_MAX = 4096"

record 'h cstate =
  links :: 'h
  node_value :: "addr \<Rightarrow> int"
  count :: "addr \<Rightarrow> int"
  live_blocks :: "addr list"
  allocs :: nat
  prints :: "klog list"

definition alloc_block :: "block_alloc \<Rightarrow> nat \<Rightarrow> 'h cstate \<Rightarrow> (addr \<times> byte list) option \<times> 'h cstate" where
  "alloc_block A n s =
     (case A (live_blocks s) (allocs s) n of
        None \<Rightarrow> (None, s\<lparr>allocs := Suc (allocs s)\<rparr>)
      | Some (a, b) \<Rightarrow> (Some (a, b), s\<lparr>allocs := Suc (allocs s), live_blocks := a # live_blocks s\<rparr>))"

definition free_block :: "addr \<Rightarrow> 'h cstate \<Rightarrow> ('h cstate, unit) run" where
  "free_block a s =
     (if a \<in> set (live_blocks s) then Ret (s\<lparr>live_blocks := remove1 a (live_blocks s)\<rparr>) ()
      else Fault DoubleFree)"

definition add_node :: "'h list_api \<Rightarrow> block_alloc \<Rightarrow> int \<Rightarrow> 'h cstate \<Rightarrow> ('h cstate, addr) run" where
  "add_node L A v s =
     (case alloc_block A sizeof_pointer s of
        (None, s1) \<Rightarrow> Fault NullDeref
      | (Some (a, b), s1) \<Rightarrow>
          if length b < sizeof_node then Fault OutOfBounds
          else Ret (s1\<lparr>links := INIT_LIST_HEAD L a (links s1), node_value := (node_value s1)(a := v)\<rparr>) a)"

text \<open>
  Decimal numbers, and \<open>snprintf\<close> into the rest of the buffer: it stores what fits and a zero, and
  returns the length of the whole text.
\<close>

fun dec_nat :: "nat \<Rightarrow> byte list" where
  "dec_nat n = (if n < 10 then [of_nat (48 + n)] else dec_nat (n div 10) @ [of_nat (48 + n mod 10)])"

definition dec_int :: "int \<Rightarrow> byte list" where
  "dec_int z = (if z < 0 then 45 # dec_nat (nat (- z)) else dec_nat (nat z))"

definition snprint :: "byte list \<Rightarrow> nat \<Rightarrow> byte list \<Rightarrow> (byte list \<times> nat) option" where
  "snprint buf off t =
     (if off > PATH_MAX then Some (buf, 0)
      else if off = PATH_MAX then Some (buf, length t)
      else map_option (\<lambda>b. (b, length t)) (mem_store buf off (take (PATH_MAX - off - 1) t @ [0])))"

partial_function (option) build_string :: "'h list_api \<Rightarrow> 'h \<Rightarrow> (addr \<Rightarrow> int) \<Rightarrow> addr \<Rightarrow> addr \<Rightarrow> byte list \<times> nat \<Rightarrow>
    (byte list \<times> nat) option" where
  "build_string L h val head pos bo =
     (if pos = head then Some bo
      else Option.bind (build_string L h val head pos bo) (\<lambda>(b, off).
             map_option (\<lambda>(b1, w). (b1, off + w)) (snprint b off (44 # dec_int (val pos)))))"

definition put_byte :: "byte list \<times> nat \<Rightarrow> byte \<Rightarrow> (byte list \<times> nat) option" where
  "put_byte bo c = (case bo of (buf, off) \<Rightarrow> map_option (\<lambda>b. (b, Suc off)) (mem_store buf off [c]))"

text \<open>One turn of the loop in \<open>to_string\<close>: a comma except before the first element, and the number.\<close>

definition to_string_step :: "bool \<Rightarrow> int \<Rightarrow> byte list \<times> nat \<Rightarrow> (byte list \<times> nat) option" where
  "to_string_step first v bo =
     Option.bind (if first then Some bo else put_byte bo 44) (\<lambda>(buf, off).
       map_option (\<lambda>(b, written). (b, off + written)) (snprint buf off (dec_int v)))"

partial_function (option) to_string_loop :: "'h list_api \<Rightarrow> 'h \<Rightarrow> (addr \<Rightarrow> int) \<Rightarrow> addr \<Rightarrow> addr \<Rightarrow>
    byte list \<times> nat \<Rightarrow> (byte list \<times> nat) option option" where
  "to_string_loop L h val head pos bo =
     (if pos = head then Some (Some bo)
      else case to_string_step (list_prev L h pos = head) (val pos) bo of
             None \<Rightarrow> Some None
           | Some bo1 \<Rightarrow> to_string_loop L h val head (list_next L h pos) bo1)"

definition to_string :: "'h list_api \<Rightarrow> block_alloc \<Rightarrow> addr \<Rightarrow> 'h cstate \<Rightarrow>
    ('h cstate, (addr \<times> byte list) option) run" where
  "to_string L A head s =
     (case alloc_block A PATH_MAX s of
        (None, s1) \<Rightarrow> Ret s1 None
      | (Some (a, b), s1) \<Rightarrow>
          (case put_byte (b, 0) 91 of
             None \<Rightarrow> Fault OutOfBounds
           | Some bo \<Rightarrow>
               (case to_string_loop L (links s1) (node_value s1) head (list_next L (links s1) head) bo of
                  None \<Rightarrow> Block s1
                | Some None \<Rightarrow> Fault OutOfBounds
                | Some (Some bo1) \<Rightarrow>
                    (case Option.bind (put_byte bo1 93) (\<lambda>bo2. put_byte bo2 0) of
                       None \<Rightarrow> Fault OutOfBounds
                     | Some (b2, _) \<Rightarrow> Ret s1 (Some (a, b2))))))"

text \<open>The three constructors and destructors are the same code on three structures.\<close>

definition new_container :: "'h list_api \<Rightarrow> block_alloc \<Rightarrow> 'h cstate \<Rightarrow> ('h cstate, addr) run" where
  "new_container L A s =
     (case alloc_block A sizeof_pointer s of
        (None, s1) \<Rightarrow> Fault NullDeref
      | (Some (a, b), s1) \<Rightarrow>
          if length b < sizeof_node then Fault OutOfBounds
          else Ret (s1\<lparr>links := INIT_LIST_HEAD L a (links s1), count := (count s1)(a := 0)\<rparr>) a)"

partial_function (option) del_nodes :: "'h list_api \<Rightarrow> addr \<Rightarrow> addr \<Rightarrow> 'h \<Rightarrow> 'h option" where
  "del_nodes L head pos h =
     (if pos = head then Some h else del_nodes L head (list_next L h pos) (list_del L pos h))"

definition del_container :: "'h list_api \<Rightarrow> addr \<Rightarrow> 'h cstate \<Rightarrow> ('h cstate, unit) run" where
  "del_container L l s =
     (case del_nodes L l (list_next L (links s) l) (links s) of
        None \<Rightarrow> Block s
      | Some h \<Rightarrow> free_block l (s\<lparr>links := h\<rparr>))"

definition list_empty :: "'h list_api \<Rightarrow> 'h \<Rightarrow> addr \<Rightarrow> bool" where
  "list_empty L h l \<longleftrightarrow> list_next L h l = l"

definition bump :: "addr \<Rightarrow> int \<Rightarrow> 'h cstate \<Rightarrow> 'h cstate" where
  "bump l d s = s\<lparr>count := (count s)(l := count s l + d)\<rparr>"

text \<open>Taking out the first element and freeing its node, as all three containers do.\<close>

definition take_first :: "'h list_api \<Rightarrow> addr \<Rightarrow> int \<Rightarrow> 'h cstate \<Rightarrow> ('h cstate, int) run" where
  "take_first L l r s =
     (if count s l = 0 \<or> list_empty L (links s) l then Ret s r
      else let p = list_next L (links s) l
           in if p \<notin> set (live_blocks s) then Fault UseAfterFree
              else run_bind (free_block p (s\<lparr>links := list_del L p (links s)\<rparr>))
                     (\<lambda>s1 _. Ret (bump l (- 1) s1) (node_value s p)))"

definition link_list_push :: "'h list_api \<Rightarrow> block_alloc \<Rightarrow> addr \<Rightarrow> int \<Rightarrow> 'h cstate \<Rightarrow> ('h cstate, unit) run" where
  "link_list_push L A l v s =
     run_bind (add_node L A v s) (\<lambda>s1 n. Ret (bump l 1 (s1\<lparr>links := list_add_tail L n l (links s1)\<rparr>)) ())"

definition link_list_pop :: "'h list_api \<Rightarrow> addr \<Rightarrow> int \<Rightarrow> 'h cstate \<Rightarrow> ('h cstate, int) run" where
  "link_list_pop L l r s = take_first L l r s"

definition link_list_len :: "addr \<Rightarrow> 'h cstate \<Rightarrow> int" where
  "link_list_len l s = count s l"

partial_function (option) get_loop :: "'h list_api \<Rightarrow> 'h \<Rightarrow> (addr \<Rightarrow> int) \<Rightarrow> addr \<Rightarrow> addr \<Rightarrow> int \<Rightarrow> int \<Rightarrow> int option" where
  "get_loop L h val head pos index r =
     (if pos = head then Some r
      else if index = 0 then Some (val pos)
      else get_loop L h val head (list_next L h pos) (index - 1) (val pos))"

definition link_list_get :: "'h list_api \<Rightarrow> addr \<Rightarrow> int \<Rightarrow> int \<Rightarrow> 'h cstate \<Rightarrow> ('h cstate, int) run" where
  "link_list_get L l index r s =
     (if count s l = 0 \<or> list_empty L (links s) l \<or> index \<ge> count s l then Ret s r
      else case get_loop L (links s) (node_value s) l (list_next L (links s) l) index r of
             None \<Rightarrow> Block s | Some v \<Rightarrow> Ret s v)"

text \<open>
  The loops of \<open>link_list_insert\<close> and \<open>link_list_remove\<close>: the saved successor \<open>idx\<close> of the element at
  \<open>index\<close>, if the loop gets there.
\<close>

partial_function (option) find_idx :: "'h list_api \<Rightarrow> 'h \<Rightarrow> addr \<Rightarrow> addr \<Rightarrow> int \<Rightarrow> addr option option" where
  "find_idx L h head pos index =
     (if pos = head then Some None
      else if index = 0 then Some (Some (list_next L h pos))
      else find_idx L h head (list_next L h pos) (index - 1))"

definition link_list_insert :: "'h list_api \<Rightarrow> block_alloc \<Rightarrow> addr \<Rightarrow> int \<Rightarrow> int \<Rightarrow> 'h cstate \<Rightarrow>
    ('h cstate, unit) run" where
  "link_list_insert L A l index v s =
     (if count s l = 0 \<or> list_empty L (links s) l \<or> index \<ge> count s l then Ret s ()
      else case find_idx L (links s) l (list_next L (links s) l) index of
             None \<Rightarrow> Block s
           | Some None \<Rightarrow> Ret s ()
           | Some (Some idx) \<Rightarrow>
               run_bind (add_node L A v s) (\<lambda>s1 n. Ret (s1\<lparr>links := list_add L n idx (links s1)\<rparr>) ()))"

definition link_list_remove :: "'h list_api \<Rightarrow> addr \<Rightarrow> int \<Rightarrow> 'h cstate \<Rightarrow> ('h cstate, unit) run" where
  "link_list_remove L l index s =
     (if count s l = 0 \<or> list_empty L (links s) l \<or> index \<ge> count s l then Ret s ()
      else case find_idx L (links s) l (list_next L (links s) l) index of
             None \<Rightarrow> Block s
           | Some None \<Rightarrow> Ret s ()
           | Some (Some idx) \<Rightarrow> Ret (s\<lparr>links := list_del L idx (links s)\<rparr>) ())"

definition add_link_list where "add_link_list = new_container"
definition del_link_list where "del_link_list = del_container"
definition add_queue where "add_queue = new_container"
definition del_queue where "del_queue = del_container"
definition add_stack where "add_stack = new_container"
definition del_stack where "del_stack = del_container"

definition enqueue :: "'h list_api \<Rightarrow> block_alloc \<Rightarrow> addr \<Rightarrow> int \<Rightarrow> 'h cstate \<Rightarrow> ('h cstate, unit) run" where
  "enqueue L A q v s =
     run_bind (add_node L A v s) (\<lambda>s1 n. Ret (bump q 1 (s1\<lparr>links := list_add_tail L n q (links s1)\<rparr>)) ())"

definition dequeue :: "'h list_api \<Rightarrow> addr \<Rightarrow> int \<Rightarrow> 'h cstate \<Rightarrow> ('h cstate, int) run" where
  "dequeue L q r s = take_first L q r s"

definition queue_len :: "addr \<Rightarrow> 'h cstate \<Rightarrow> int" where
  "queue_len q s = count s q"

definition stack_push :: "'h list_api \<Rightarrow> block_alloc \<Rightarrow> addr \<Rightarrow> int \<Rightarrow> 'h cstate \<Rightarrow> ('h cstate, unit) run" where
  "stack_push L A st v s =
     run_bind (add_node L A v s) (\<lambda>s1 n. Ret (bump st 1 (s1\<lparr>links := list_add L n st (links s1)\<rparr>)) ())"

definition stack_pop :: "'h list_api \<Rightarrow> addr \<Rightarrow> int \<Rightarrow> 'h cstate \<Rightarrow> ('h cstate, int) run" where
  "stack_pop L st r s = take_first L st r s"

definition stack_len :: "addr \<Rightarrow> 'h cstate \<Rightarrow> int" where
  "stack_len st s = count s st"

section \<open>The scenario of the module\<close>

text \<open>\<open>list_init\<close> in its three parts; the banners are left out.\<close>

definition pr :: "klog list \<Rightarrow> 'h cstate \<Rightarrow> 'h cstate" where
  "pr es s = s\<lparr>prints := prints s @ es\<rparr>"

definition show_list :: "'h list_api \<Rightarrow> block_alloc \<Rightarrow> addr \<Rightarrow> 'h cstate \<Rightarrow> ('h cstate, unit) run" where
  "show_list L A l s =
     run_bind (to_string L A l s) (\<lambda>s1 r.
       case r of None \<Rightarrow> Ret (pr [LogNull] s1) ()
       | Some (a, b) \<Rightarrow> if has_nul b then free_block a (pr [LogStr (cstr b)] s1) else Fault OutOfBounds)"

definition pop_print :: "(int \<Rightarrow> 'h cstate \<Rightarrow> ('h cstate, int) run) \<Rightarrow> addr \<Rightarrow> int \<Rightarrow> 'h cstate \<Rightarrow>
    ('h cstate, int) run" where
  "pop_print pop l r s = run_bind (pop r s) (\<lambda>s1 v. Ret (pr [LogInt v, LogInt (count s1 l)] s1) v)"

definition drain3 :: "(int \<Rightarrow> 'h cstate \<Rightarrow> ('h cstate, int) run) \<Rightarrow> addr \<Rightarrow> 'h cstate \<Rightarrow> ('h cstate, int) run" where
  "drain3 pop l s =
     run_bind (pop_print pop l 0 s) (\<lambda>s1 v1. run_bind (pop_print pop l v1 s1) (\<lambda>s2 v2. pop_print pop l v2 s2))"

definition push3 :: "(int \<Rightarrow> 'h cstate \<Rightarrow> ('h cstate, unit) run) \<Rightarrow> 'h cstate \<Rightarrow> ('h cstate, unit) run" where
  "push3 push s = run_bind (push 1 s) (\<lambda>s1 _. run_bind (push 2 s1) (\<lambda>s2 _. push 3 s2))"

definition list_init_link_list :: "'h list_api \<Rightarrow> block_alloc \<Rightarrow> 'h cstate \<Rightarrow> ('h cstate, unit) run" where
  "list_init_link_list L A s =
     run_bind (add_link_list L A s) (\<lambda>s1 l.
     run_bind (push3 (link_list_push L A l) s1) (\<lambda>s2 _.
     run_bind (link_list_insert L A l 1 4 s2) (\<lambda>s3 _.
     run_bind (link_list_remove L l 2 s3) (\<lambda>s4 _.
     run_bind (show_list L A l s4) (\<lambda>s5 _.
     run_bind (drain3 (link_list_pop L l) l s5) (\<lambda>s6 _. del_link_list L l s6))))))"

definition list_init_queue :: "'h list_api \<Rightarrow> block_alloc \<Rightarrow> 'h cstate \<Rightarrow> ('h cstate, unit) run" where
  "list_init_queue L A s =
     run_bind (add_queue L A s) (\<lambda>s1 q.
     run_bind (push3 (enqueue L A q) s1) (\<lambda>s2 _.
     run_bind (show_list L A q s2) (\<lambda>s3 _.
     run_bind (drain3 (dequeue L q) q s3) (\<lambda>s4 _. del_queue L q s4))))"

definition list_init_stack :: "'h list_api \<Rightarrow> block_alloc \<Rightarrow> 'h cstate \<Rightarrow> ('h cstate, unit) run" where
  "list_init_stack L A s =
     run_bind (add_stack L A s) (\<lambda>s1 t.
     run_bind (push3 (stack_push L A t) s1) (\<lambda>s2 _.
     run_bind (show_list L A t s2) (\<lambda>s3 _.
     run_bind (drain3 (stack_pop L t) t s3) (\<lambda>s4 _. del_stack L t s4))))"

definition list_init :: "'h list_api \<Rightarrow> block_alloc \<Rightarrow> 'h cstate \<Rightarrow> ('h cstate, int) run" where
  "list_init L A s =
     run_bind (list_init_link_list L A s) (\<lambda>s1 _.
     run_bind (list_init_queue L A s1) (\<lambda>s2 _.
     run_bind (list_init_stack L A s2) (\<lambda>s3 _. Ret s3 0)))"

end
