(* ===== verification/Container_Spec.thy ===== *)
theory Container_Spec
  imports Container
begin

text \<open>
  Correctness of the containers: contracts of first-in first-out and last-in first-out containers as
  locales, proved for the queue, the linked list and the stack over any rings and any roomy
  allocator, the exact behaviour of the index operations, of printing and of the destructors, and
  the scenario of the module.
\<close>

section \<open>Contracts\<close>

text \<open>A first-in first-out and a last-in first-out container, seen as lists of numbers.\<close>

locale fifo_container =
  fixes push :: "int \<Rightarrow> 's \<Rightarrow> ('s, unit) run" and pop :: "int \<Rightarrow> 's \<Rightarrow> ('s, int) run"
    and rep :: "'s \<Rightarrow> int list \<Rightarrow> bool"
  assumes push_back: "rep s xs \<Longrightarrow> \<exists>s'. push v s = Ret s' () \<and> rep s' (xs @ [v])"
    and pop_front: "rep s (x # xs) \<Longrightarrow> \<exists>s'. pop r s = Ret s' x \<and> rep s' xs"
    and pop_none: "rep s [] \<Longrightarrow> pop r s = Ret s r"

locale lifo_container =
  fixes push :: "int \<Rightarrow> 's \<Rightarrow> ('s, unit) run" and pop :: "int \<Rightarrow> 's \<Rightarrow> ('s, int) run"
    and rep :: "'s \<Rightarrow> int list \<Rightarrow> bool"
  assumes push_top: "rep s xs \<Longrightarrow> \<exists>s'. push v s = Ret s' () \<and> rep s' (v # xs)"
    and pop_top: "rep s (x # xs) \<Longrightarrow> \<exists>s'. pop r s = Ret s' x \<and> rep s' xs"
    and pop_none: "rep s [] \<Longrightarrow> pop r s = Ret s r"

fun push_all :: "(int \<Rightarrow> 's \<Rightarrow> ('s, unit) run) \<Rightarrow> int list \<Rightarrow> 's \<Rightarrow> ('s, unit) run" where
  "push_all push [] s = Ret s ()"
| "push_all push (v # vs) s = run_bind (push v s) (\<lambda>s1 _. push_all push vs s1)"

fun pop_all :: "(int \<Rightarrow> 's \<Rightarrow> ('s, int) run) \<Rightarrow> nat \<Rightarrow> 's \<Rightarrow> ('s, int list) run" where
  "pop_all pop 0 s = Ret s []"
| "pop_all pop (Suc n) s =
     run_bind (pop 0 s) (\<lambda>s1 v. run_bind (pop_all pop n s1) (\<lambda>s2 vs. Ret s2 (v # vs)))"

context fifo_container
begin

lemma push_all_back: "rep s xs \<Longrightarrow> \<exists>s'. push_all push vs s = Ret s' () \<and> rep s' (xs @ vs)"
proof (induction vs arbitrary: s xs)
  case (Cons v vs)
  then obtain s1 where s1: "push v s = Ret s1 ()" "rep s1 (xs @ [v])" using push_back by blast
  then show ?case using Cons.IH [OF s1(2)] by simp
qed simp

lemma pop_all_front: "rep s xs \<Longrightarrow> \<exists>s'. pop_all pop (length xs) s = Ret s' xs \<and> rep s' []"
proof (induction xs arbitrary: s)
  case (Cons x xs)
  then obtain s1 where s1: "pop 0 s = Ret s1 x" "rep s1 xs" using pop_front by blast
  then show ?case using Cons.IH [OF s1(2)] by auto
qed simp

lemma fifo_order:
  "rep s [] \<Longrightarrow> \<exists>s1 s2. push_all push vs s = Ret s1 () \<and> pop_all pop (length vs) s1 = Ret s2 vs \<and> rep s2 []"
  using push_all_back [of s "[]" vs] pop_all_front by auto

end

context lifo_container
begin

lemma push_all_top: "rep s xs \<Longrightarrow> \<exists>s'. push_all push vs s = Ret s' () \<and> rep s' (rev vs @ xs)"
proof (induction vs arbitrary: s xs)
  case (Cons v vs)
  then obtain s1 where s1: "push v s = Ret s1 ()" "rep s1 (v # xs)" using push_top by blast
  then show ?case using Cons.IH [OF s1(2)] by simp
qed simp

lemma pop_all_top: "rep s xs \<Longrightarrow> \<exists>s'. pop_all pop (length xs) s = Ret s' xs \<and> rep s' []"
proof (induction xs arbitrary: s)
  case (Cons x xs)
  then obtain s1 where s1: "pop 0 s = Ret s1 x" "rep s1 xs" using pop_top by blast
  then show ?case using Cons.IH [OF s1(2)] by auto
qed simp

lemma lifo_order:
  "rep s [] \<Longrightarrow> \<exists>s1 s2. push_all push vs s = Ret s1 () \<and> pop_all pop (length vs) s1 = Ret s2 (rev vs) \<and> rep s2 []"
  using push_all_top [of s "[]" vs] pop_all_top [of _ "rev vs"] by auto

end

section \<open>Containers over rings\<close>

text \<open>
  An allocator that does not fail, gives unused addresses, at least the size asked for, and room
  for a structure of 20 bytes when asked for a pointer.
\<close>

locale roomy_alloc =
  fixes A :: block_alloc
  assumes alloc_total: "A lv i n \<noteq> None"
    and alloc_fresh: "A lv i n = Some (a, b) \<Longrightarrow> a \<notin> set lv"
    and alloc_len: "A lv i n = Some (a, b) \<Longrightarrow> n \<le> length b"
    and alloc_room: "A lv i sizeof_pointer = Some (a, b) \<Longrightarrow> sizeof_node \<le> length b"

locale containers = rings L ring poison + roomy_alloc A
  for L :: "'h list_api" and ring poison and A

definition holds_list :: "('h \<Rightarrow> addr list \<Rightarrow> bool) \<Rightarrow> 'h cstate \<Rightarrow> addr \<Rightarrow> addr list \<Rightarrow> int list \<Rightarrow> bool" where
  "holds_list ring s l ps xs \<longleftrightarrow> ring (links s) (l # ps) \<and> map (node_value s) ps = xs \<and>
     set (l # ps) \<subseteq> set (live_blocks s) \<and> distinct (live_blocks s)"

definition list_rep :: "('h \<Rightarrow> addr list \<Rightarrow> bool) \<Rightarrow> addr \<Rightarrow> 'h cstate \<Rightarrow> int list \<Rightarrow> bool" where
  "list_rep ring l s xs \<longleftrightarrow> (\<exists>ps. holds_list ring s l ps xs) \<and> count s l = int (length xs)"

context containers
begin

lemma add_node_ok:
  assumes "holds_list ring s l ps xs"
  shows "\<exists>s1 n. add_node L A v s = Ret s1 n \<and> holds_list ring s1 l ps xs \<and> n \<notin> set (l # ps) \<and>
    n \<in> set (live_blocks s1) \<and> node_value s1 n = v \<and> count s1 = count s \<and> prints s1 = prints s \<and>
    length (live_blocks s1) = Suc (length (live_blocks s))"
proof -
  obtain n b where a: "A (live_blocks s) (allocs s) sizeof_pointer = Some (n, b)" using alloc_total by fast
  have n: "n \<notin> set (live_blocks s)" using alloc_fresh [OF a] .
  then have np: "n \<notin> set (l # ps)" using assms by (auto simp: holds_list_def)
  let ?s = "s\<lparr>allocs := Suc (allocs s), live_blocks := n # live_blocks s,
    links := INIT_LIST_HEAD L n (links s), node_value := (node_value s)(n := v)\<rparr>"
  have "add_node L A v s = Ret ?s n"
    using a alloc_room [OF a] by (simp add: add_node_def alloc_block_def)
  moreover have "holds_list ring ?s l ps xs"
    using assms n np init_frame [of "links s" "l # ps" n] by (auto simp: holds_list_def)
  ultimately show ?thesis using np by auto
qed

lemma new_container_ok:
  assumes "distinct (live_blocks s)"
  shows "\<exists>s1 l. new_container L A s = Ret s1 l \<and> list_rep ring l s1 [] \<and> prints s1 = prints s \<and>
    length (live_blocks s1) = Suc (length (live_blocks s))"
proof -
  obtain n b where a: "A (live_blocks s) (allocs s) sizeof_pointer = Some (n, b)" using alloc_total by fast
  have n: "n \<notin> set (live_blocks s)" using alloc_fresh [OF a] .
  let ?s = "s\<lparr>allocs := Suc (allocs s), live_blocks := n # live_blocks s,
    links := INIT_LIST_HEAD L n (links s), count := (count s)(n := 0)\<rparr>"
  have "new_container L A s = Ret ?s n"
    using a alloc_room [OF a] by (simp add: new_container_def alloc_block_def)
  moreover have "holds_list ring ?s n [] []" using assms n ring_init by (simp add: holds_list_def)
  ultimately show ?thesis by (auto simp: list_rep_def)
qed

lemma push_tail_ok:
  assumes "holds_list ring s l ps xs"
  shows "\<exists>s1 n. link_list_push L A l v s = Ret s1 () \<and> holds_list ring s1 l (ps @ [n]) (xs @ [v]) \<and>
    count s1 = (count s)(l := count s l + 1) \<and> prints s1 = prints s \<and>
    length (live_blocks s1) = Suc (length (live_blocks s))"
proof -
  obtain s1 n where s1: "add_node L A v s = Ret s1 n" "holds_list ring s1 l ps xs" "n \<notin> set (l # ps)"
    "n \<in> set (live_blocks s1)" "node_value s1 n = v" "count s1 = count s" "prints s1 = prints s"
    "length (live_blocks s1) = Suc (length (live_blocks s))"
    using add_node_ok [OF assms] by blast
  let ?s = "bump l 1 (s1\<lparr>links := list_add_tail L n l (links s1)\<rparr>)"
  have "holds_list ring ?s l (ps @ [n]) (xs @ [v])"
    using s1 ring_add_tail [of "links s1" l ps n] by (auto simp: holds_list_def bump_def)
  moreover have "link_list_push L A l v s = Ret ?s ()" using s1(1) by (simp add: link_list_push_def)
  ultimately show ?thesis using s1 by (auto simp: bump_def)
qed

lemma push_head_ok:
  assumes "holds_list ring s l ps xs"
  shows "\<exists>s1 n. stack_push L A l v s = Ret s1 () \<and> holds_list ring s1 l (n # ps) (v # xs) \<and>
    count s1 = (count s)(l := count s l + 1) \<and> prints s1 = prints s \<and>
    length (live_blocks s1) = Suc (length (live_blocks s))"
proof -
  obtain s1 n where s1: "add_node L A v s = Ret s1 n" "holds_list ring s1 l ps xs" "n \<notin> set (l # ps)"
    "n \<in> set (live_blocks s1)" "node_value s1 n = v" "count s1 = count s" "prints s1 = prints s"
    "length (live_blocks s1) = Suc (length (live_blocks s))"
    using add_node_ok [OF assms] by blast
  let ?s = "bump l 1 (s1\<lparr>links := list_add L n l (links s1)\<rparr>)"
  have "holds_list ring ?s l (n # ps) (v # xs)"
    using s1 ring_add [of "links s1" l ps n] by (auto simp: holds_list_def bump_def)
  moreover have "stack_push L A l v s = Ret ?s ()" using s1(1) by (simp add: stack_push_def)
  ultimately show ?thesis using s1 by (auto simp: bump_def)
qed

lemma take_first_ok:
  assumes "holds_list ring s l ps (x # xs)" and "count s l \<noteq> 0"
  shows "\<exists>s1. take_first L l r s = Ret s1 x \<and> holds_list ring s1 l (tl ps) xs \<and>
    count s1 = (count s)(l := count s l - 1) \<and> prints s1 = prints s \<and>
    Suc (length (live_blocks s1)) = length (live_blocks s)"
proof -
  obtain p qs where ps: "ps = p # qs" "node_value s p = x" "map (node_value s) qs = xs"
    using assms(1) by (cases ps) (auto simp: holds_list_def)
  have r: "ring (links s) (l # p # qs)" and lv: "p \<in> set (live_blocks s)" "distinct (live_blocks s)"
    "set (l # qs) \<subseteq> set (live_blocks s)"
    using assms(1) ps by (auto simp: holds_list_def)
  have d: "distinct (l # p # qs)" using ring_distinct [OF r] .
  have nx: "list_next L (links s) l = p" using ring_next [OF r] by simp
  have dl: "ring (list_del L p (links s)) (l # qs)" using ring_del_at [OF r, of 0] by simp
  let ?s = "bump l (- 1) (s\<lparr>links := list_del L p (links s), live_blocks := remove1 p (live_blocks s)\<rparr>)"
  have "take_first L l r s = Ret ?s x"
    using assms(2) nx d lv(1) ps(2) by (simp add: take_first_def list_empty_def free_block_def Let_def)
  moreover have "holds_list ring ?s l qs xs"
    using dl lv d ps(3) by (auto simp: holds_list_def bump_def)
  moreover have "Suc (length (remove1 p (live_blocks s))) = length (live_blocks s)"
    using lv(1) by (simp add: length_remove1) (metis Suc_pred length_pos_if_in_set)
  ultimately show ?thesis using ps(1) by (auto simp: bump_def)
qed

lemma take_first_none: "holds_list ring s l ps [] \<Longrightarrow> take_first L l r s = Ret s r"
  using ring_next [of "links s" l "[]"] by (auto simp: holds_list_def take_first_def list_empty_def)

end

context containers
begin

lemma ring_prev_at:
  assumes "ring h (l # ps)" and "i < length ps"
  shows "list_prev L h (ps ! i) = (l # ps) ! i"
proof -
  have "last (ps ! i # drop (Suc i) ps @ l # take i ps) = (l # ps) ! i"
    using assms(2) by (cases i) (auto simp: take_Suc_conv_app_nth)
  then show ?thesis using ring_prev [OF ring_from [OF assms]] by metis
qed

lemma ring_at_head: "ring h (l # ps) \<Longrightarrow> j \<le> length ps \<Longrightarrow> (ps @ [l]) ! j = l \<longleftrightarrow> j = length ps"
  using ring_distinct [of h "l # ps"] by (auto simp: nth_append)

lemma ring_step:
  assumes "ring h (l # ps)" "j < length ps"
  shows "list_next L h ((ps @ [l]) ! j) = (ps @ [l]) ! Suc j"
  using ring_next_at [OF assms] assms(2) by (simp add: nth_append)

lemma find_idx_nat:
  assumes r: "ring h (l # ps)" and "j \<le> length ps"
  shows "find_idx L h l ((ps @ [l]) ! j) (int k) =
    Some (if j + k < length ps then Some ((ps @ [l]) ! Suc (j + k)) else None)"
  using assms(2)
proof (induction k arbitrary: j)
  case 0
  show ?case
    using 0 ring_at_head [OF r 0] ring_step [OF r, of j] by (subst find_idx.simps) auto
next
  case (Suc k)
  show ?case
    using Suc.prems Suc.IH [of "Suc j"] ring_at_head [OF r Suc.prems] ring_step [OF r, of j]
    by (subst find_idx.simps) auto
qed

lemma get_loop_nat:
  assumes r: "ring h (l # ps)" and "j + k < length ps"
  shows "get_loop L h val l ((ps @ [l]) ! j) (int k) x = Some (val (ps ! (j + k)))"
  using assms(2)
proof (induction k arbitrary: j x)
  case 0
  then show ?case using ring_at_head [OF r, of j] by (subst get_loop.simps) (auto simp: nth_append)
next
  case (Suc k)
  then show ?case
    using Suc.IH [of "Suc j"] ring_at_head [OF r, of j] ring_step [OF r, of j] by (subst get_loop.simps) auto
qed

lemma not_empty: "ring h (l # p # ps) \<Longrightarrow> \<not> list_empty L h l \<and> list_next L h l = ((p # ps) @ [l]) ! 0"
  using ring_next [of h l "p # ps"] ring_distinct [of h "l # p # ps"] by (auto simp: list_empty_def)

lemma insert_ok:
  assumes h: "holds_list ring s l ps xs" and k: "k < length xs" "int k < count s l"
  shows "\<exists>s1 qs. link_list_insert L A l (int k) v s = Ret s1 () \<and>
    holds_list ring s1 l qs (if Suc k < length xs then take (k + 2) xs @ v # drop (k + 2) xs else v # xs) \<and>
    count s1 = count s \<and> prints s1 = prints s \<and> length (live_blocks s1) = Suc (length (live_blocks s))"
proof -
  have r: "ring (links s) (l # ps)" and len: "length ps = length xs" and vals: "map (node_value s) ps = xs"
    using h by (auto simp: holds_list_def)
  obtain p ps' where p: "ps = p # ps'" using k(1) len by (cases ps) auto
  have ne: "\<not> list_empty L (links s) l" "list_next L (links s) l = (ps @ [l]) ! 0"
    using not_empty r p by auto
  have f: "find_idx L (links s) l ((ps @ [l]) ! 0) (int k) = Some (Some ((ps @ [l]) ! Suc k))"
    using find_idx_nat [OF r, of 0 k] k(1) len by simp
  obtain s1 n where s1: "add_node L A v s = Ret s1 n" "holds_list ring s1 l ps xs" "n \<notin> set (l # ps)"
    "n \<in> set (live_blocks s1)" "node_value s1 n = v" "count s1 = count s" "prints s1 = prints s"
    "length (live_blocks s1) = Suc (length (live_blocks s))"
    using add_node_ok [OF h] by blast
  have r1: "ring (links s1) (l # ps)" "map (node_value s1) ps = xs" using s1(2) by (auto simp: holds_list_def)
  let ?s = "s1\<lparr>links := list_add L n ((ps @ [l]) ! Suc k) (links s1)\<rparr>"
  have run: "link_list_insert L A l (int k) v s = Ret ?s ()"
    using k ne f s1(1) by (simp add: link_list_insert_def)
  show ?thesis
  proof (cases "Suc k < length xs")
    case True
    let ?q = "take (k + 2) ps @ n # drop (k + 2) ps"
    have "ring (links ?s) (l # ?q)"
      using ring_add_at [OF r1(1) _ s1(3), of "Suc k"] True len by (simp add: nth_append)
    moreover have "set ?q \<subseteq> insert n (set ps)" by (auto dest: in_set_takeD in_set_dropD)
    moreover have "map (node_value ?s) ?q = take (k + 2) xs @ v # drop (k + 2) xs"
      using r1(2) s1(5) by (simp add: take_map drop_map flip: r1(2))
    ultimately have "holds_list ring ?s l ?q (take (k + 2) xs @ v # drop (k + 2) xs)"
      using s1(2,4) by (auto simp: holds_list_def)
    then show ?thesis using run s1 True by auto
  next
    case False
    then have "(ps @ [l]) ! Suc k = l" using k(1) len by (simp add: nth_append)
    then have "holds_list ring ?s l (n # ps) (v # xs)"
      using ring_add [OF r1(1) s1(3)] s1(2,4,5) by (auto simp: holds_list_def)
    then show ?thesis using run s1 False by auto
  qed
qed

lemma remove_run:
  assumes h: "holds_list ring s l ps xs" and k: "k < length xs" "int k < count s l"
  shows "link_list_remove L l (int k) s = Ret (s\<lparr>links := list_del L ((ps @ [l]) ! Suc k) (links s)\<rparr>) ()"
proof -
  have r: "ring (links s) (l # ps)" and len: "length ps = length xs" using h by (auto simp: holds_list_def)
  obtain p ps' where p: "ps = p # ps'" using k(1) len by (cases ps) auto
  have ne: "\<not> list_empty L (links s) l" "list_next L (links s) l = (ps @ [l]) ! 0"
    using not_empty r p by auto
  have "find_idx L (links s) l ((ps @ [l]) ! 0) (int k) = Some (Some ((ps @ [l]) ! Suc k))"
    using find_idx_nat [OF r, of 0 k] k(1) len by simp
  then show ?thesis using k ne by (simp add: link_list_remove_def)
qed

lemma remove_ok:
  assumes h: "holds_list ring s l ps xs" and k: "Suc k < length xs" "int k < count s l"
  shows "\<exists>s1 qs. link_list_remove L l (int k) s = Ret s1 () \<and>
    holds_list ring s1 l qs (take (Suc k) xs @ drop (k + 2) xs) \<and>
    count s1 = count s \<and> live_blocks s1 = live_blocks s \<and> prints s1 = prints s"
proof -
  have r: "ring (links s) (l # ps)" and len: "length ps = length xs" using h by (auto simp: holds_list_def)
  let ?q = "take (Suc k) ps @ drop (k + 2) ps"
  let ?s = "s\<lparr>links := list_del L ((ps @ [l]) ! Suc k) (links s)\<rparr>"
  have "ring (links ?s) (l # ?q)" using ring_del_at [OF r, of "Suc k"] k(1) len by (simp add: nth_append)
  moreover have "set ?q \<subseteq> set ps" by (auto dest: in_set_takeD in_set_dropD)
  ultimately have "holds_list ring ?s l ?q (take (Suc k) xs @ drop (k + 2) xs)"
    using h by (auto simp: holds_list_def take_map drop_map)
  then show ?thesis using remove_run [OF h] k by auto
qed

lemma remove_last:
  assumes h: "holds_list ring s l ps xs" and k: "Suc k = length xs" "int k < count s l"
  shows "\<exists>s1. link_list_remove L l (int k) s = Ret s1 () \<and> ring (links s1) ps \<and>
    list_next L (links s1) l = poison \<and> live_blocks s1 = live_blocks s \<and> count s1 = count s"
proof -
  have r: "ring (links s) (l # ps)" and len: "length ps = length xs" using h by (auto simp: holds_list_def)
  have "(ps @ [l]) ! Suc k = l" using k(1) len by (simp add: nth_append)
  moreover have "ps \<noteq> []" using k(1) len by auto
  ultimately show ?thesis
    using remove_run [OF h] k ring_del [OF r] del_poison by auto
qed

lemma del_nodes_ok:
  "ring h (l # ps) \<Longrightarrow> \<exists>h'. del_nodes L l (list_next L h l) h = Some h' \<and> ring h' [l]"
proof (induction ps arbitrary: h)
  case Nil
  then show ?case using ring_next [of h l "[]"] by (subst del_nodes.simps) simp
next
  case (Cons p ps)
  have nx: "list_next L h l = p" "p \<noteq> l" using ring_next [OF Cons.prems] ring_distinct [OF Cons.prems] by auto
  have del: "ring (list_del L p h) (l # ps)" using ring_del_at [OF Cons.prems, of 0] by simp
  have "list_next L h p = list_next L (list_del L p h) l"
    using ring_next [OF del] ring_next_at [OF Cons.prems, of 0] by (cases ps) simp_all
  then show ?case using Cons.IH [OF del] nx by (subst del_nodes.simps) simp
qed

lemma del_container_ok:
  assumes "holds_list ring s l ps xs"
  shows "\<exists>s1. del_container L l s = Ret s1 () \<and> set (live_blocks s1) = set (live_blocks s) - {l} \<and>
    distinct (live_blocks s1) \<and> set ps \<subseteq> set (live_blocks s1) \<and> prints s1 = prints s \<and>
    Suc (length (live_blocks s1)) = length (live_blocks s)"
proof -
  have r: "ring (links s) (l # ps)" and lv: "l \<in> set (live_blocks s)" "distinct (live_blocks s)"
    "set ps \<subseteq> set (live_blocks s)"
    using assms by (auto simp: holds_list_def)
  obtain h where "del_nodes L l (list_next L (links s) l) (links s) = Some h" using del_nodes_ok [OF r] by blast
  then have "del_container L l s = Ret (s\<lparr>links := h, live_blocks := remove1 l (live_blocks s)\<rparr>) ()"
    using lv(1) by (simp add: del_container_def free_block_def)
  moreover have "Suc (length (remove1 l (live_blocks s))) = length (live_blocks s)"
    using lv(1) by (simp add: length_remove1) (metis Suc_pred length_pos_if_in_set)
  ultimately show ?thesis using lv ring_distinct [OF r] by auto
qed

end

section \<open>Printing\<close>

text \<open>The numbers with commas between them, and the text of a list.\<close>

fun items :: "bool \<Rightarrow> int list \<Rightarrow> byte list" where
  "items first [] = []"
| "items first (v # vs) = (if first then [] else [44]) @ dec_int v @ items False vs"

definition list_text :: "int list \<Rightarrow> byte list" where
  "list_text xs = 91 # items True xs @ [93]"

declare dec_nat.simps [simp del]

lemma digit_nonzero: "d < 10 \<Longrightarrow> (of_nat (48 + d) :: byte) \<noteq> 0"
proof
  assume "d < 10" "(of_nat (48 + d) :: byte) = 0"
  then have "unat (of_nat (48 + d) :: byte) = 0" by simp
  moreover have "unat (of_nat (48 + d) :: byte) = 48 + d" using \<open>d < 10\<close> by (subst unat_of_nat) simp
  ultimately show False by simp
qed

lemma dec_nat_nonzero: "0 \<notin> set (dec_nat n)"
proof (induction n rule: dec_nat.induct)
  case (1 n)
  have "(of_nat (48 + n mod 10) :: byte) \<noteq> 0" by (rule digit_nonzero) simp
  then show ?case using 1 digit_nonzero [of n] by (subst dec_nat.simps) (auto simp del: of_nat_add)
qed

lemma dec_int_nonzero: "0 \<notin> set (dec_int v)"
  using dec_nat_nonzero by (auto simp: dec_int_def)

lemma items_nonzero: "0 \<notin> set (items f xs)"
  by (induction xs arbitrary: f) (auto simp: dec_int_nonzero)

lemma mem_store_take:
  assumes "mem_store b off t = Some b'"
  shows "take (off + length t) b' = take off b @ t \<and> length b' = length b"
  using assms by (auto simp: mem_store_def split: if_splits)

lemma mem_store_fits: "off + length t \<le> length b \<Longrightarrow> \<exists>b'. mem_store b off t = Some b'"
  by (simp add: mem_store_def)

lemma put_byte_ok:
  assumes "off < length b"
  shows "\<exists>b'. put_byte (b, off) c = Some (b', Suc off) \<and> length b' = length b \<and> take (Suc off) b' = take off b @ [c]"
proof -
  obtain b' where "mem_store b off [c] = Some b'" using mem_store_fits [of off "[c]" b] assms by auto
  then show ?thesis using mem_store_take by (fastforce simp: put_byte_def)
qed

lemma snprint_ok:
  assumes "off + length t < PATH_MAX" "PATH_MAX \<le> length b"
  shows "\<exists>b'. snprint b off t = Some (b', length t) \<and> length b' = length b \<and>
    take (off + length t) b' = take off b @ t"
proof -
  obtain b' where b': "mem_store b off (t @ [0]) = Some b'"
    using mem_store_fits [of off "t @ [0]" b] assms by auto
  have tk: "take (off + length (t @ [0])) b' = take off b @ t @ [0]" "length b' = length b"
    using mem_store_take [OF b'] by auto
  have "take (off + length t) b' = take (off + length t) (take (off + length (t @ [0])) b')"
    by simp
  also have "\<dots> = take off b @ t" unfolding tk(1) using assms by simp
  finally show ?thesis using assms b' tk by (simp add: snprint_def)
qed

lemma to_string_step_ok:
  assumes "off + 1 + length (dec_int v) < PATH_MAX" "PATH_MAX \<le> length b"
  shows "\<exists>b' off'. to_string_step first v (b, off) = Some (b', off') \<and> length b' = length b \<and>
    off' = off + length ((if first then [] else [44]) @ dec_int v) \<and>
    take off' b' = take off b @ (if first then [] else [44]) @ dec_int v"
proof (cases first)
  case True
  then show ?thesis using snprint_ok [of off "dec_int v" b] assms by (auto simp: to_string_step_def)
next
  case False
  obtain b1 where b1: "put_byte (b, off) 44 = Some (b1, Suc off)" "length b1 = length b"
    "take (Suc off) b1 = take off b @ [44]"
    using put_byte_ok [of off b 44] assms by auto
  then show ?thesis
    using snprint_ok [of "Suc off" "dec_int v" b1] assms False by (auto simp: to_string_step_def)
qed

context containers
begin

lemma to_string_loop_ok:
  assumes r: "ring h (l # ps)" and "j \<le> length ps" and "PATH_MAX \<le> length b"
    and "off + length (items (j = 0) (map val (drop j ps))) + 1 < PATH_MAX"
  shows "\<exists>b' off'. to_string_loop L h val l ((ps @ [l]) ! j) (b, off) = Some (Some (b', off')) \<and>
    length b' = length b \<and> off' = off + length (items (j = 0) (map val (drop j ps))) \<and>
    take off' b' = take off b @ items (j = 0) (map val (drop j ps))"
  using assms(2-4)
proof (induction "length ps - j" arbitrary: j b off)
  case 0
  then show ?case using ring_at_head [OF r 0(2)] by (subst to_string_loop.simps) simp
next
  case (Suc n)
  then have j: "j < length ps" by simp
  have d: "drop j ps = ps ! j # drop (Suc j) ps" using j by (simp add: Cons_nth_drop_Suc)
  let ?v = "val (ps ! j)"
  let ?t = "(if j = 0 then [] else [44]) @ dec_int ?v"
  have first: "list_prev L h (ps ! j) = l \<longleftrightarrow> j = 0"
    using ring_prev_at [OF r j] ring_distinct [OF r] j by (cases j) auto
  obtain b1 o1 where s1: "to_string_step (j = 0) ?v (b, off) = Some (b1, o1)" "length b1 = length b"
    "o1 = off + length ?t" "take o1 b1 = take off b @ ?t"
    using to_string_step_ok [of off ?v b "j = 0"] Suc.prems d by auto
  let ?rest = "items False (map val (drop (Suc j) ps))"
  have "\<exists>b' off'. to_string_loop L h val l ((ps @ [l]) ! Suc j) (b1, o1) = Some (Some (b', off')) \<and>
    length b' = length b1 \<and> off' = o1 + length (items (Suc j = 0) (map val (drop (Suc j) ps))) \<and>
    take off' b' = take o1 b1 @ items (Suc j = 0) (map val (drop (Suc j) ps))"
    by (rule Suc.hyps(1)) (use Suc.prems Suc.hyps(2) s1 d j in auto)
  then obtain b' where b': "to_string_loop L h val l ((ps @ [l]) ! Suc j) (b1, o1) = Some (Some (b', o1 + length ?rest))"
    "length b' = length b1" "take (o1 + length ?rest) b' = take o1 b1 @ ?rest" by auto
  have pos: "(ps @ [l]) ! j = ps ! j" "ps ! j \<noteq> l"
    using ring_at_head [OF r Suc.prems(1)] j by (auto simp: nth_append)
  have "to_string_loop L h val l (ps ! j) (b, off) = to_string_loop L h val l (list_next L h (ps ! j)) (b1, o1)"
    using pos(2) s1(1) first by (subst to_string_loop.simps) simp
  then have "to_string_loop L h val l ((ps @ [l]) ! j) (b, off) = Some (Some (b', o1 + length ?rest))"
    using b'(1) ring_step [OF r j] pos(1) by simp
  moreover have "items (j = 0) (map val (drop j ps)) = ?t @ ?rest" by (simp add: d)
  moreover have "o1 + length ?rest = off + length (?t @ ?rest)" using s1(3) by simp
  ultimately show ?case using b'(2,3) s1(2,4) by (intro exI [of _ b'] exI [of _ "o1 + length ?rest"]) simp
qed

lemma to_string_ok:
  assumes h: "holds_list ring s l ps xs" and short: "length (list_text xs) < PATH_MAX"
  shows "\<exists>a b s1. to_string L A l s = Ret s1 (Some (a, b)) \<and> has_nul b \<and> cstr b = list_text xs \<and>
    s1 = s\<lparr>allocs := Suc (allocs s), live_blocks := a # live_blocks s\<rparr> \<and> a \<notin> set (live_blocks s)"
proof -
  have r: "ring (links s) (l # ps)" and xs: "map (node_value s) ps = xs" using h by (auto simp: holds_list_def)
  obtain a b where a: "A (live_blocks s) (allocs s) PATH_MAX = Some (a, b)" using alloc_total by fast
  have len: "PATH_MAX \<le> length b" using alloc_len [OF a] .
  obtain b1 where b1: "put_byte (b, 0) 91 = Some (b1, 1)" "length b1 = length b" "take 1 b1 = [91]"
    using put_byte_ok [of 0 b 91] len by (cases b) (auto simp: PATH_MAX_def)
  have sh: "1 + length (items True xs) + 1 < PATH_MAX" using short by (simp add: list_text_def)
  obtain b2 o2 where b2: "to_string_loop L (links s) (node_value s) l ((ps @ [l]) ! 0) (b1, 1) = Some (Some (b2, o2))"
    "length b2 = length b" "o2 = 1 + length (items True xs)" "take o2 b2 = 91 # items True xs"
    using to_string_loop_ok [OF r, of 0 b1 1 "node_value s"] b1 len xs sh by auto
  obtain b3 where b3: "put_byte (b2, o2) 93 = Some (b3, Suc o2)" "length b3 = length b"
    "take (Suc o2) b3 = list_text xs"
    using put_byte_ok [of o2 b2 93] b2 len sh by (auto simp: list_text_def)
  obtain b4 where b4: "put_byte (b3, Suc o2) 0 = Some (b4, Suc (Suc o2))" "length b4 = length b"
    "take (Suc (Suc o2)) b4 = list_text xs @ [0]"
    using put_byte_ok [of "Suc o2" b3 0] b2(3) b3 len sh by auto
  have b4': "b4 = list_text xs @ 0 # drop (Suc (Suc o2)) b4"
    using append_take_drop_id [of "Suc (Suc o2)" b4] b4(3) by simp
  have nz: "0 \<notin> set (list_text xs)" by (simp add: list_text_def items_nonzero)
  have c: "cstr b4 = list_text xs" "has_nul b4"
    using cstr_append [OF nz, of "drop (Suc (Suc o2)) b4"] b4' by (metis, metis has_nul_def in_set_conv_decomp)
  have "list_next L (links s) l = (ps @ [l]) ! 0" using ring_next_head [OF r] .
  then have "to_string L A l s = Ret (s\<lparr>allocs := Suc (allocs s), live_blocks := a # live_blocks s\<rparr>) (Some (a, b4))"
    using a b1(1) b2(1) b3(1) b4(1) by (simp add: to_string_def alloc_block_def)
  then show ?thesis using c alloc_fresh [OF a] by blast
qed

end

lemma build_string_never:
  assumes "pos \<noteq> head"
  shows "build_string L h val head pos bo = None"
proof (rule ccontr)
  assume "build_string L h val head pos bo \<noteq> None"
  then obtain r where r: "build_string L h val head pos bo = Some r" by blast
  have "pos = head"
    by (rule build_string.raw_induct [OF _ r, of "\<lambda>L h val head pos bo r. pos = head"])
      (auto split: if_splits bind_splits)
  with assms show False ..
qed

sublocale containers < lq: fifo_container "enqueue L A q" "dequeue L q" "list_rep ring q" for q
proof unfold_locales
  fix s xs v x r
  show "\<exists>s'. enqueue L A q v s = Ret s' () \<and> list_rep ring q s' (xs @ [v])" if "list_rep ring q s xs"
    using that push_tail_ok [of s q _ xs v] unfolding enqueue_def link_list_push_def list_rep_def by fastforce
  show "\<exists>s'. dequeue L q r s = Ret s' x \<and> list_rep ring q s' xs" if "list_rep ring q s (x # xs)"
    using that take_first_ok [of s q _ x xs r] unfolding dequeue_def list_rep_def by fastforce
  show "dequeue L q r s = Ret s r" if "list_rep ring q s []"
    using that take_first_none unfolding dequeue_def list_rep_def by blast
qed

sublocale containers < ll: fifo_container "link_list_push L A q" "link_list_pop L q" "list_rep ring q" for q
proof unfold_locales
  fix s xs v x r
  show "\<exists>s'. link_list_push L A q v s = Ret s' () \<and> list_rep ring q s' (xs @ [v])" if "list_rep ring q s xs"
    using that push_tail_ok [of s q _ xs v] unfolding list_rep_def by fastforce
  show "\<exists>s'. link_list_pop L q r s = Ret s' x \<and> list_rep ring q s' xs" if "list_rep ring q s (x # xs)"
    using that take_first_ok [of s q _ x xs r] unfolding link_list_pop_def list_rep_def by fastforce
  show "link_list_pop L q r s = Ret s r" if "list_rep ring q s []"
    using that take_first_none unfolding link_list_pop_def list_rep_def by blast
qed

sublocale containers < st: lifo_container "stack_push L A q" "stack_pop L q" "list_rep ring q" for q
proof unfold_locales
  fix s xs v x r
  show "\<exists>s'. stack_push L A q v s = Ret s' () \<and> list_rep ring q s' (v # xs)" if "list_rep ring q s xs"
    using that push_head_ok [of s q _ xs v] unfolding list_rep_def by fastforce
  show "\<exists>s'. stack_pop L q r s = Ret s' x \<and> list_rep ring q s' xs" if "list_rep ring q s (x # xs)"
    using that take_first_ok [of s q _ x xs r] unfolding stack_pop_def list_rep_def by fastforce
  show "stack_pop L q r s = Ret s r" if "list_rep ring q s []"
    using that take_first_none unfolding stack_pop_def list_rep_def by blast
qed

text \<open>A concrete allocator: the address after the largest live one, and objects of at least \<open>m\<close> bytes.\<close>

definition bump_alloc :: "nat \<Rightarrow> block_alloc" where
  "bump_alloc m lv i n = Some (Suc (sum_list lv), replicate (max m n) 165)"

interpretation stored: containers store_api store_ring LIST_POISON "bump_alloc 32"
proof unfold_locales
  fix lv i n a b
  show "bump_alloc 32 lv i n \<noteq> None" by (simp add: bump_alloc_def)
  show "bump_alloc 32 lv i n = Some (a, b) \<Longrightarrow> a \<notin> set lv"
    using member_le_sum_list [of a lv] by (auto simp: bump_alloc_def)
  show "bump_alloc 32 lv i n = Some (a, b) \<Longrightarrow> n \<le> length b" by (auto simp: bump_alloc_def)
  show "bump_alloc 32 lv i sizeof_pointer = Some (a, b) \<Longrightarrow> sizeof_node \<le> length b"
    by (auto simp: bump_alloc_def sizeof_node_def)
qed

section \<open>The scenario, part by part\<close>

definition nlive :: "'h cstate \<Rightarrow> nat" where
  "nlive s = length (live_blocks s)"

lemma holds_list_pr [simp]: "holds_list ring (pr es s) l ps xs = holds_list ring s l ps xs"
  by (simp add: holds_list_def pr_def)

lemma pr_sel [simp]: "prints (pr es s) = prints s @ es" "count (pr es s) = count s"
  "live_blocks (pr es s) = live_blocks s" "allocs (pr es s) = allocs s"
  by (simp_all add: pr_def)

context containers
begin

lemma show_list_ok:
  assumes h: "holds_list ring s l ps xs" and "length (list_text xs) < PATH_MAX"
  shows "\<exists>s1. show_list L A l s = Ret s1 () \<and> holds_list ring s1 l ps xs \<and> count s1 = count s \<and>
    prints s1 = prints s @ [LogStr (list_text xs)] \<and> live_blocks s1 = live_blocks s"
proof -
  obtain a b s1 where t: "to_string L A l s = Ret s1 (Some (a, b))" "has_nul b" "cstr b = list_text xs"
    "s1 = s\<lparr>allocs := Suc (allocs s), live_blocks := a # live_blocks s\<rparr>"
    using to_string_ok [OF assms] by blast
  let ?s = "(pr [LogStr (list_text xs)] s1)\<lparr>live_blocks := live_blocks s\<rparr>"
  have "show_list L A l s = Ret ?s ()" using t by (simp add: show_list_def free_block_def)
  moreover have "holds_list ring ?s l ps xs" using h t(4) by (simp add: holds_list_def pr_def)
  ultimately show ?thesis using t(4) by (auto simp: pr_def)
qed

lemma drain3_ok:
  assumes h: "holds_list ring s l ps [x, y, z]" and "count s l = 3"
  shows "\<exists>s1 ps'. drain3 (take_first L l) l s = Ret s1 z \<and> holds_list ring s1 l ps' [] \<and>
    prints s1 = prints s @ [LogInt x, LogInt 2, LogInt y, LogInt 1, LogInt z, LogInt 0] \<and>
    nlive s1 + 3 = nlive s"
proof -
  obtain s1 where s1: "take_first L l 0 s = Ret s1 x" "holds_list ring s1 l (tl ps) [y, z]" "count s1 l = 2"
    "prints s1 = prints s" "Suc (nlive s1) = nlive s"
    using take_first_ok [OF h, of 0] assms(2) by (auto simp: nlive_def)
  let ?s1 = "pr [LogInt x, LogInt 2] s1"
  obtain s2 where s2: "take_first L l x ?s1 = Ret s2 y" "holds_list ring s2 l (tl (tl ps)) [z]" "count s2 l = 1"
    "prints s2 = prints ?s1" "Suc (nlive s2) = nlive ?s1"
    using take_first_ok [of ?s1 l "tl ps" y "[z]" x] s1(2,3) by (auto simp: nlive_def)
  let ?s2 = "pr [LogInt y, LogInt 1] s2"
  obtain s3 where s3: "take_first L l y ?s2 = Ret s3 z" "holds_list ring s3 l (tl (tl (tl ps))) []" "count s3 l = 0"
    "prints s3 = prints ?s2" "Suc (nlive s3) = nlive ?s2"
    using take_first_ok [of ?s2 l "tl (tl ps)" z "[]" y] s2(2,3) by (auto simp: nlive_def)
  show ?thesis
    using s1 s2 s3 by (intro exI [of _ "pr [LogInt z, LogInt 0] s3"])
      (auto simp: drain3_def pop_print_def nlive_def)
qed

lemma push3_ok:
  assumes h: "holds_list ring s l [] []" and "count s l = 0"
  shows "\<exists>s1 ps. push3 (link_list_push L A l) s = Ret s1 () \<and> holds_list ring s1 l ps [1, 2, 3] \<and>
    count s1 l = 3 \<and> prints s1 = prints s \<and> nlive s1 = nlive s + 3"
proof -
  obtain s1 n1 where s1: "link_list_push L A l 1 s = Ret s1 ()" "holds_list ring s1 l [n1] [1]" "count s1 l = 1"
    "prints s1 = prints s" "nlive s1 = Suc (nlive s)"
    using push_tail_ok [OF h, of 1] assms(2) by (auto simp: nlive_def)
  obtain s2 n2 where s2: "link_list_push L A l 2 s1 = Ret s2 ()" "holds_list ring s2 l [n1, n2] [1, 2]"
    "count s2 l = 2" "prints s2 = prints s1" "nlive s2 = Suc (nlive s1)"
    using push_tail_ok [OF s1(2), of 2] s1(3) by (auto simp: nlive_def)
  obtain s3 n3 where s3: "link_list_push L A l 3 s2 = Ret s3 ()" "holds_list ring s3 l [n1, n2, n3] [1, 2, 3]"
    "count s3 l = 3" "prints s3 = prints s2" "nlive s3 = Suc (nlive s2)"
    using push_tail_ok [OF s2(2), of 3] s2(3) by (auto simp: nlive_def)
  show ?thesis using s1 s2 s3 by (auto simp: push3_def)
qed

lemma push3_stack_ok:
  assumes h: "holds_list ring s l [] []" and "count s l = 0"
  shows "\<exists>s1 ps. push3 (stack_push L A l) s = Ret s1 () \<and> holds_list ring s1 l ps [3, 2, 1] \<and>
    count s1 l = 3 \<and> prints s1 = prints s \<and> nlive s1 = nlive s + 3"
proof -
  obtain s1 n1 where s1: "stack_push L A l 1 s = Ret s1 ()" "holds_list ring s1 l [n1] [1]" "count s1 l = 1"
    "prints s1 = prints s" "nlive s1 = Suc (nlive s)"
    using push_head_ok [OF h, of 1] assms(2) by (auto simp: nlive_def)
  obtain s2 n2 where s2: "stack_push L A l 2 s1 = Ret s2 ()" "holds_list ring s2 l [n2, n1] [2, 1]"
    "count s2 l = 2" "prints s2 = prints s1" "nlive s2 = Suc (nlive s1)"
    using push_head_ok [OF s1(2), of 2] s1(3) by (auto simp: nlive_def)
  obtain s3 n3 where s3: "stack_push L A l 3 s2 = Ret s3 ()" "holds_list ring s3 l [n3, n2, n1] [3, 2, 1]"
    "count s3 l = 3" "prints s3 = prints s2" "nlive s3 = Suc (nlive s2)"
    using push_head_ok [OF s2(2), of 3] s2(3) by (auto simp: nlive_def)
  show ?thesis using s1 s2 s3 by (auto simp: push3_def)
qed

lemma new_ok:
  assumes "distinct (live_blocks s)"
  shows "\<exists>s1 l. new_container L A s = Ret s1 l \<and> holds_list ring s1 l [] [] \<and> count s1 l = 0 \<and>
    prints s1 = prints s \<and> nlive s1 = Suc (nlive s)"
  using new_container_ok [OF assms] by (fastforce simp: list_rep_def nlive_def holds_list_def)

end

lemma same_code: "enqueue L A q = link_list_push L A q" "dequeue L q = take_first L q"
  "link_list_pop L q = take_first L q" "stack_pop L q = take_first L q"
  by (simp_all add: fun_eq_iff enqueue_def link_list_push_def dequeue_def link_list_pop_def stack_pop_def)

lemma demo_texts: "list_text [1, 2, 3] = [91, 49, 44, 50, 44, 51, 93]" "list_text [3, 2, 1] = [91, 51, 44, 50, 44, 49, 93]"
  by (simp_all add: list_text_def dec_int_def dec_nat.simps)

lemmas container_defs = add_link_list_def del_link_list_def add_queue_def del_queue_def add_stack_def del_stack_def

context containers
begin

lemma init_queue_ok:
  assumes "distinct (live_blocks s)"
  shows "\<exists>s1. list_init_queue L A s = Ret s1 () \<and> distinct (live_blocks s1) \<and> nlive s1 = nlive s \<and>
    prints s1 = prints s @ [LogStr (list_text [1, 2, 3]), LogInt 1, LogInt 2, LogInt 2, LogInt 1, LogInt 3, LogInt 0]"
proof -
  obtain s1 q where s1: "new_container L A s = Ret s1 q" "holds_list ring s1 q [] []" "count s1 q = 0"
    "prints s1 = prints s" "nlive s1 = Suc (nlive s)" using new_ok [OF assms] by blast
  obtain s2 ps where s2: "push3 (link_list_push L A q) s1 = Ret s2 ()" "holds_list ring s2 q ps [1, 2, 3]"
    "count s2 q = 3" "prints s2 = prints s1" "nlive s2 = nlive s1 + 3" using push3_ok [OF s1(2,3)] by blast
  obtain s3 where s3: "show_list L A q s2 = Ret s3 ()" "holds_list ring s3 q ps [1, 2, 3]" "count s3 = count s2"
    "prints s3 = prints s2 @ [LogStr (list_text [1, 2, 3])]" "live_blocks s3 = live_blocks s2"
    using show_list_ok [OF s2(2)] by (auto simp: demo_texts PATH_MAX_def)
  obtain s4 ps' where s4: "drain3 (take_first L q) q s3 = Ret s4 3" "holds_list ring s4 q ps' []"
    "prints s4 = prints s3 @ [LogInt 1, LogInt 2, LogInt 2, LogInt 1, LogInt 3, LogInt 0]" "nlive s4 + 3 = nlive s3"
    using drain3_ok [OF s3(2)] s2(3) s3(3) by auto
  obtain s5 where "del_container L q s4 = Ret s5 ()" "distinct (live_blocks s5)" "prints s5 = prints s4"
    "Suc (nlive s5) = nlive s4" using del_container_ok [OF s4(2)] by (auto simp: nlive_def)
  then show ?thesis using s1 s2 s3 s4
    by (auto simp: list_init_queue_def container_defs same_code nlive_def)
qed

lemma init_stack_ok:
  assumes "distinct (live_blocks s)"
  shows "\<exists>s1. list_init_stack L A s = Ret s1 () \<and> distinct (live_blocks s1) \<and> nlive s1 = nlive s \<and>
    prints s1 = prints s @ [LogStr (list_text [3, 2, 1]), LogInt 3, LogInt 2, LogInt 2, LogInt 1, LogInt 1, LogInt 0]"
proof -
  obtain s1 q where s1: "new_container L A s = Ret s1 q" "holds_list ring s1 q [] []" "count s1 q = 0"
    "prints s1 = prints s" "nlive s1 = Suc (nlive s)" using new_ok [OF assms] by blast
  obtain s2 ps where s2: "push3 (stack_push L A q) s1 = Ret s2 ()" "holds_list ring s2 q ps [3, 2, 1]"
    "count s2 q = 3" "prints s2 = prints s1" "nlive s2 = nlive s1 + 3" using push3_stack_ok [OF s1(2,3)] by blast
  obtain s3 where s3: "show_list L A q s2 = Ret s3 ()" "holds_list ring s3 q ps [3, 2, 1]" "count s3 = count s2"
    "prints s3 = prints s2 @ [LogStr (list_text [3, 2, 1])]" "live_blocks s3 = live_blocks s2"
    using show_list_ok [OF s2(2)] by (auto simp: demo_texts PATH_MAX_def)
  obtain s4 ps' where s4: "drain3 (take_first L q) q s3 = Ret s4 1" "holds_list ring s4 q ps' []"
    "prints s4 = prints s3 @ [LogInt 3, LogInt 2, LogInt 2, LogInt 1, LogInt 1, LogInt 0]" "nlive s4 + 3 = nlive s3"
    using drain3_ok [OF s3(2)] s2(3) s3(3) by auto
  obtain s5 where "del_container L q s4 = Ret s5 ()" "distinct (live_blocks s5)" "prints s5 = prints s4"
    "Suc (nlive s5) = nlive s4" using del_container_ok [OF s4(2)] by (auto simp: nlive_def)
  then show ?thesis using s1 s2 s3 s4
    by (auto simp: list_init_stack_def container_defs same_code nlive_def)
qed

lemma init_link_list_ok:
  assumes "distinct (live_blocks s)"
  shows "\<exists>s1. list_init_link_list L A s = Ret s1 () \<and> distinct (live_blocks s1) \<and> nlive s1 = Suc (nlive s) \<and>
    prints s1 = prints s @ [LogStr (list_text [1, 2, 3]), LogInt 1, LogInt 2, LogInt 2, LogInt 1, LogInt 3, LogInt 0]"
proof -
  obtain s1 l where s1: "new_container L A s = Ret s1 l" "holds_list ring s1 l [] []" "count s1 l = 0"
    "prints s1 = prints s" "nlive s1 = Suc (nlive s)" using new_ok [OF assms] by blast
  obtain s2 ps where s2: "push3 (link_list_push L A l) s1 = Ret s2 ()" "holds_list ring s2 l ps [1, 2, 3]"
    "count s2 l = 3" "prints s2 = prints s1" "nlive s2 = nlive s1 + 3" using push3_ok [OF s1(2,3)] by blast
  obtain s3 qs where s3: "link_list_insert L A l 1 4 s2 = Ret s3 ()" "holds_list ring s3 l qs [1, 2, 3, 4]"
    "count s3 = count s2" "prints s3 = prints s2" "nlive s3 = Suc (nlive s2)"
    using insert_ok [OF s2(2), of 1 4] s2(3) by (auto simp: nlive_def)
  obtain s4 rs where s4: "link_list_remove L l 2 s3 = Ret s4 ()" "holds_list ring s4 l rs [1, 2, 3]"
    "count s4 = count s3" "live_blocks s4 = live_blocks s3" "prints s4 = prints s3"
    using remove_ok [OF s3(2), of 2] s2(3) s3(3) by auto
  obtain s5 where s5: "show_list L A l s4 = Ret s5 ()" "holds_list ring s5 l rs [1, 2, 3]" "count s5 = count s4"
    "prints s5 = prints s4 @ [LogStr (list_text [1, 2, 3])]" "live_blocks s5 = live_blocks s4"
    using show_list_ok [OF s4(2)] by (auto simp: demo_texts PATH_MAX_def)
  obtain s6 ps' where s6: "drain3 (take_first L l) l s5 = Ret s6 3" "holds_list ring s6 l ps' []"
    "prints s6 = prints s5 @ [LogInt 1, LogInt 2, LogInt 2, LogInt 1, LogInt 3, LogInt 0]" "nlive s6 + 3 = nlive s5"
    using drain3_ok [OF s5(2)] s2(3) s3(3) s4(3) s5(3) by auto
  obtain s7 where "del_container L l s6 = Ret s7 ()" "distinct (live_blocks s7)" "prints s7 = prints s6"
    "Suc (nlive s7) = nlive s6" using del_container_ok [OF s6(2)] by (auto simp: nlive_def)
  then show ?thesis using s1 s2 s3 s4 s5 s6
    by (auto simp: list_init_link_list_def container_defs same_code nlive_def)
qed

lemma queue_order:
  assumes "list_rep ring q s []"
  shows "\<exists>s1 s2. push_all (enqueue L A q) vs s = Ret s1 () \<and> count s1 q = int (length vs) \<and>
      pop_all (dequeue L q) (length vs) s1 = Ret s2 vs \<and> (\<forall>r. dequeue L q r s2 = Ret s2 r)"
proof -
  obtain s1 where s1: "push_all (enqueue L A q) vs s = Ret s1 ()" "list_rep ring q s1 vs"
    using lq.push_all_back [OF assms, of vs] by auto
  obtain s2 where "pop_all (dequeue L q) (length vs) s1 = Ret s2 vs" "list_rep ring q s2 []"
    using lq.pop_all_front [OF s1(2)] by blast
  then show ?thesis using s1 lq.pop_none by (auto simp: list_rep_def)
qed

lemma link_list_order:
  assumes "list_rep ring q s []"
  shows "\<exists>s1 s2. push_all (link_list_push L A q) vs s = Ret s1 () \<and> count s1 q = int (length vs) \<and>
      pop_all (link_list_pop L q) (length vs) s1 = Ret s2 vs \<and> (\<forall>r. link_list_pop L q r s2 = Ret s2 r)"
proof -
  obtain s1 where s1: "push_all (link_list_push L A q) vs s = Ret s1 ()" "list_rep ring q s1 vs"
    using ll.push_all_back [OF assms, of vs] by auto
  obtain s2 where "pop_all (link_list_pop L q) (length vs) s1 = Ret s2 vs" "list_rep ring q s2 []"
    using ll.pop_all_front [OF s1(2)] by blast
  then show ?thesis using s1 ll.pop_none by (auto simp: list_rep_def)
qed

lemma stack_order:
  assumes "list_rep ring q s []"
  shows "\<exists>s1 s2. push_all (stack_push L A q) vs s = Ret s1 () \<and> count s1 q = int (length vs) \<and>
      pop_all (stack_pop L q) (length vs) s1 = Ret s2 (rev vs) \<and> (\<forall>r. stack_pop L q r s2 = Ret s2 r)"
proof -
  obtain s1 where s1: "push_all (stack_push L A q) vs s = Ret s1 ()" "list_rep ring q s1 (rev vs)"
    using st.push_all_top [OF assms, of vs] by auto
  obtain s2 where "pop_all (stack_pop L q) (length vs) s1 = Ret s2 (rev vs)" "list_rep ring q s2 []"
    using st.pop_all_top [OF s1(2)] by auto
  then show ?thesis using s1 st.pop_none by (auto simp: list_rep_def)
qed

lemma get_ok:
  assumes h: "holds_list ring s l ps xs" and k: "k < length xs" "int k < count s l"
  shows "link_list_get L l (int k) r s = Ret s (xs ! k)"
proof -
  have rg: "ring (links s) (l # ps)" and len: "length ps = length xs" and vals: "map (node_value s) ps = xs"
    using h by (auto simp: holds_list_def)
  obtain p ps' where p: "ps = p # ps'" using k(1) len by (cases ps) auto
  have ne: "\<not> list_empty L (links s) l" "list_next L (links s) l = (ps @ [l]) ! 0"
    using not_empty rg p by auto
  have "get_loop L (links s) (node_value s) l ((ps @ [l]) ! 0) (int k) r = Some (node_value s (ps ! k))"
    using get_loop_nat [OF rg, of 0 k] k(1) len by simp
  moreover have "node_value s (ps ! k) = xs ! k" using nth_map [of k ps "node_value s"] vals k(1) len by simp
  ultimately show ?thesis using k ne by (simp add: link_list_get_def)
qed

end

text \<open>An empty state and a container in it, for the concrete instances below.\<close>

definition demo_state :: "links cstate" where
  "demo_state = \<lparr>links = \<lparr>nxt = (\<lambda>_. 0), prv = (\<lambda>_. 0)\<rparr>, node_value = (\<lambda>_. 0), count = (\<lambda>_. 0),
     live_blocks = [], allocs = 0, prints = []\<rparr>"


lemma demo_three:
  "\<exists>s l ps. holds_list store_ring s l ps [1, 2, 3] \<and> count s l = 3 \<and> distinct (live_blocks s)"
proof -
  obtain s l where s: "holds_list store_ring s l [] []" "count s l = 0"
    using stored.new_ok [of demo_state] by (auto simp: demo_state_def)
  obtain s1 ps where "holds_list store_ring s1 l ps [1, 2, 3]" "count s1 l = 3" using stored.push3_ok [OF s] by blast
  moreover from this(1) have "distinct (live_blocks s1)" by (simp add: holds_list_def)
  ultimately show ?thesis by blast
qed

lemma new_live:
  "new_container L A s = Ret s1 l \<Longrightarrow> \<exists>b. A (live_blocks s) (allocs s) sizeof_pointer = Some (l, b) \<and>
     live_blocks s1 = l # live_blocks s \<and> allocs s1 = Suc (allocs s)"
  by (auto simp: new_container_def alloc_block_def split: option.splits if_splits)

lemma push_live:
  "link_list_push L A l v s = Ret s1 () \<Longrightarrow> \<exists>a b. A (live_blocks s) (allocs s) sizeof_pointer = Some (a, b) \<and>
     live_blocks s1 = a # live_blocks s"
  by (auto simp: link_list_push_def add_node_def alloc_block_def bump_def split: option.splits if_splits)

section \<open>Properties\<close>





text \<open>
  Removing the last index unlinks the container itself: its nodes form a ring without it, its
  next pointer is poisoned, and the next pop dereferences that pointer.
\<close>

theorem link_list_remove_last:
  assumes "containers L ring poison A" and "holds_list ring s l ps xs" and "Suc k = length xs" "int k < count s l"
    and "poison \<notin> set (live_blocks s)"
  shows "\<exists>s1. link_list_remove L l (int k) s = Ret s1 () \<and> ring (links s1) ps \<and>
    link_list_pop L l r s1 = Fault UseAfterFree"
proof -
  obtain s1 where s1: "link_list_remove L l (int k) s = Ret s1 ()" "ring (links s1) ps"
    "list_next L (links s1) l = poison" "live_blocks s1 = live_blocks s" "count s1 = count s"
    using containers.remove_last [OF assms(1-4)] by blast
  moreover have "l \<in> set (live_blocks s)" using assms(2) by (auto simp: holds_list_def)
  ultimately show ?thesis
    using assms(4,5) by (auto simp: link_list_pop_def take_first_def list_empty_def Let_def)
qed

theorem link_list_remove_last_witness:
  "\<exists>s l s1. link_list_remove store_api l (int 0) s = Ret s1 () \<and>
     link_list_pop store_api l 0 s1 = Fault UseAfterFree"
proof -
  obtain s1 l where n: "new_container store_api (bump_alloc 32) demo_state = Ret s1 l"
    "holds_list store_ring s1 l [] []" "count s1 l = 0"
    using stored.new_ok [of demo_state] by (auto simp: demo_state_def)
  obtain s n1 where s: "link_list_push store_api (bump_alloc 32) l 7 s1 = Ret s ()"
    "holds_list store_ring s l [n1] [7]" "count s l = 1"
    using stored.push_tail_ok [OF n(2), of 7] n(3) by auto
  have "live_blocks s = [2, 1]"
    using new_live [OF n(1)] push_live [OF s(1)] by (auto simp: bump_alloc_def demo_state_def)
  then have "LIST_POISON \<notin> set (live_blocks s)" by (simp add: LIST_POISON_def)
  from link_list_remove_last [OF stored.containers_axioms s(2) _ _ this, of 0 0] s(3) show ?thesis by auto
qed

text \<open>
  \<open>to_string\<close> returns the numbers of a list in brackets, separated by commas, in a fresh block of
  its own, whenever this text is shorter than \<open>PATH_MAX\<close>.
\<close>

theorem to_string_spec:
  assumes "containers L ring poison A" and "holds_list ring s l ps xs" and "length (list_text xs) < PATH_MAX"
  shows "\<exists>a b s1. to_string L A l s = Ret s1 (Some (a, b)) \<and> has_nul b \<and> cstr b = list_text xs \<and>
    a \<notin> set (live_blocks s) \<and> holds_list ring s1 l ps xs"
proof -
  obtain a b s1 where t: "to_string L A l s = Ret s1 (Some (a, b))" "has_nul b" "cstr b = list_text xs"
    "s1 = s\<lparr>allocs := Suc (allocs s), live_blocks := a # live_blocks s\<rparr>" "a \<notin> set (live_blocks s)"
    using containers.to_string_ok [OF assms] by blast
  moreover have "holds_list ring s1 l ps xs" using assms(2) t(4,5) by (auto simp: holds_list_def)
  ultimately show ?thesis by blast
qed

theorem to_string_spec_witness:
  "\<exists>s l a b s1. to_string store_api (bump_alloc 32) l s = Ret s1 (Some (a, b)) \<and>
     cstr b = [91, 49, 44, 50, 44, 51, 93]"
proof -
  obtain s l ps where s: "holds_list store_ring s l ps [1, 2, 3]" using demo_three by blast
  have "length (list_text [1, 2, 3]) < PATH_MAX" by (simp add: demo_texts PATH_MAX_def)
  from to_string_spec [OF stored.containers_axioms s this] show ?thesis unfolding demo_texts by blast
qed

text \<open>
  \<open>build_string\<close> never returns on a list element: it calls itself with the same arguments before
  it does anything else. On the head it returns at once.
\<close>

theorem build_string_spec:
  "build_string L h val head pos bo = (if pos = head then Some bo else None)"
proof (cases "pos = head")
  case True
  then show ?thesis by (subst build_string.simps) simp
qed (simp add: build_string_never)

text \<open>
  The three destructors free the container structure only: all nodes that are still in the list
  stay allocated, and nothing refers to them any more.
\<close>

theorem del_container_leaks:
  assumes "containers L ring poison A" and "holds_list ring s l ps xs"
  shows "\<exists>s1. del_queue L l s = Ret s1 () \<and> del_stack L l s = Ret s1 () \<and> del_link_list L l s = Ret s1 () \<and>
    set (live_blocks s1) = set (live_blocks s) - {l} \<and> set ps \<subseteq> set (live_blocks s1)"
  using containers.del_container_ok [OF assms] unfolding container_defs by blast

theorem del_container_leaks_witness:
  "\<exists>s l ps s1. holds_list store_ring s l ps [1, 2, 3] \<and> del_queue store_api l s = Ret s1 () \<and>
     set ps \<subseteq> set (live_blocks s1)"
proof -
  obtain s l ps where s: "holds_list store_ring s l ps [1, 2, 3]" using demo_three by blast
  with del_container_leaks [OF stored.containers_axioms s] show ?thesis by blast
qed

text \<open>
  Loading the module runs its scenario to the end: it prints the three lists and what is popped
  from them, returns 0, and leaves one block allocated, the node that \<open>link_list_remove\<close> unlinked.
\<close>

theorem list_init_spec:
  assumes "containers L ring poison A" and "distinct (live_blocks s)"
  shows "\<exists>s1. list_init L A s = Ret s1 0 \<and> length (live_blocks s1) = length (live_blocks s) + 1 \<and>
    prints s1 = prints s @
      [LogStr (list_text [1, 2, 3]), LogInt 1, LogInt 2, LogInt 2, LogInt 1, LogInt 3, LogInt 0,
       LogStr (list_text [1, 2, 3]), LogInt 1, LogInt 2, LogInt 2, LogInt 1, LogInt 3, LogInt 0,
       LogStr (list_text [3, 2, 1]), LogInt 3, LogInt 2, LogInt 2, LogInt 1, LogInt 1, LogInt 0]"
proof -
  obtain s1 where s1: "list_init_link_list L A s = Ret s1 ()" "distinct (live_blocks s1)" "nlive s1 = Suc (nlive s)"
    "prints s1 = prints s @ [LogStr (list_text [1, 2, 3]), LogInt 1, LogInt 2, LogInt 2, LogInt 1, LogInt 3, LogInt 0]"
    using containers.init_link_list_ok [OF assms] by blast
  obtain s2 where s2: "list_init_queue L A s1 = Ret s2 ()" "distinct (live_blocks s2)" "nlive s2 = nlive s1"
    "prints s2 = prints s1 @ [LogStr (list_text [1, 2, 3]), LogInt 1, LogInt 2, LogInt 2, LogInt 1, LogInt 3, LogInt 0]"
    using containers.init_queue_ok [OF assms(1) s1(2)] by blast
  obtain s3 where s3: "list_init_stack L A s2 = Ret s3 ()" "nlive s3 = nlive s2"
    "prints s3 = prints s2 @ [LogStr (list_text [3, 2, 1]), LogInt 3, LogInt 2, LogInt 2, LogInt 1, LogInt 1, LogInt 0]"
    using containers.init_stack_ok [OF assms(1) s2(2)] by blast
  show ?thesis using s1 s2 s3 by (simp add: list_init_def nlive_def)
qed

theorem list_init_spec_witness:
  "\<exists>s1. list_init store_api (bump_alloc 32) demo_state = Ret s1 0 \<and> length (live_blocks s1) = 1"
  using list_init_spec [OF stored.containers_axioms, of demo_state] by (auto simp: demo_state_def)

end
