(* ===== verification/Search_Tree.thy ===== *)
theory Search_Tree
  imports Kernel_Heap "HOL-Library.Tree"
begin

text \<open>
  Binary search trees over the kernel's red-black trees. The modules walk the tree themselves by
  comparing keys and leave linking, rebalancing, erasing and iterating to \<open>linux/rbtree.h\<close>. Those
  functions are a record whose laws speak of the in-order sequence of nodes; colours do not show.
\<close>

section \<open>Interface\<close>

record 'e rb_api =
  rb_insert_color :: "'e tree \<Rightarrow> 'e tree"
  rb_erase :: "'e \<Rightarrow> 'e tree \<Rightarrow> 'e tree"
  rb_first :: "'e tree \<Rightarrow> 'e option"
  rb_next :: "'e tree \<Rightarrow> 'e \<Rightarrow> 'e option"

definition first_of :: "'a list \<Rightarrow> 'a option" where
  "first_of xs = (case xs of [] \<Rightarrow> None | x # _ \<Rightarrow> Some x)"

lemma first_of_simps [simp]: "first_of [] = None" "first_of (x # xs) = Some x"
  by (simp_all add: first_of_def)

locale rb_tree =
  fixes R :: "'e rb_api"
  assumes color_inorder: "inorder (rb_insert_color R t) = inorder t"
    and erase_inorder: "distinct (inorder t) \<Longrightarrow> e \<in> set_tree t \<Longrightarrow> inorder (rb_erase R e t) = remove1 e (inorder t)"
    and first_inorder: "rb_first R t = first_of (inorder t)"
    and next_inorder: "inorder t = xs @ x # ys \<Longrightarrow> distinct (inorder t) \<Longrightarrow> rb_next R t x = first_of ys"

section \<open>The walks of the modules\<close>

text \<open>
  The slot where a key belongs, as the path from the root (\<open>True\<close> is left), or nothing if the key
  is in the tree; linking a node there; and the search for a key.
\<close>

fun find_slot :: "('e \<Rightarrow> 'k::linorder) \<Rightarrow> 'k \<Rightarrow> 'e tree \<Rightarrow> bool list option" where
  "find_slot key k Leaf = Some []"
| "find_slot key k (Node l x r) =
     (if k < key x then map_option (Cons True) (find_slot key k l)
      else if k > key x then map_option (Cons False) (find_slot key k r)
      else None)"

fun rb_link_node :: "'e \<Rightarrow> bool list \<Rightarrow> 'e tree \<Rightarrow> 'e tree" where
  "rb_link_node e (True # p) (Node l x r) = Node (rb_link_node e p l) x r"
| "rb_link_node e (False # p) (Node l x r) = Node l x (rb_link_node e p r)"
| "rb_link_node e _ t = Node Leaf e Leaf"

fun tree_search :: "('e \<Rightarrow> 'k::linorder) \<Rightarrow> 'k \<Rightarrow> 'e tree \<Rightarrow> 'e option" where
  "tree_search key k Leaf = None"
| "tree_search key k (Node l x r) =
     (if k < key x then tree_search key k l
      else if k > key x then tree_search key k r
      else Some x)"

definition search_tree :: "('e \<Rightarrow> 'k::linorder) \<Rightarrow> 'e tree \<Rightarrow> bool" where
  "search_tree key t \<longleftrightarrow> sorted_wrt (<) (map key (inorder t))"

lemma search_tree_Node:
  "search_tree key (Node l x r) \<longleftrightarrow> search_tree key l \<and> search_tree key r \<and>
     (\<forall>a\<in>set_tree l. key a < key x) \<and> (\<forall>b\<in>set_tree r. key x < key b)"
proof
  assume "search_tree key (Node l x r)"
  then show "search_tree key l \<and> search_tree key r \<and> (\<forall>a\<in>set_tree l. key a < key x) \<and> (\<forall>b\<in>set_tree r. key x < key b)"
    by (auto simp: search_tree_def sorted_wrt_append simp flip: set_inorder)
next
  assume "search_tree key l \<and> search_tree key r \<and> (\<forall>a\<in>set_tree l. key a < key x) \<and> (\<forall>b\<in>set_tree r. key x < key b)"
  then show "search_tree key (Node l x r)"
    by (auto simp: search_tree_def sorted_wrt_append simp flip: set_inorder) (meson less_trans)
qed

lemma search_tree_distinct: "search_tree key t \<Longrightarrow> distinct (map key (inorder t)) \<and> distinct (inorder t)"
  using strict_sorted_iff [of "map key (inorder t)"] by (simp add: search_tree_def distinct_map)

lemma search_tree_inj: "search_tree key t \<Longrightarrow> a \<in> set_tree t \<Longrightarrow> b \<in> set_tree t \<Longrightarrow> key a = key b \<Longrightarrow> a = b"
  using search_tree_distinct [of key t] by (auto simp: distinct_map dest: inj_onD)

lemma tree_search_Some: "search_tree key t \<Longrightarrow> tree_search key k t = Some e \<longleftrightarrow> e \<in> set_tree t \<and> key e = k"
proof (induction t)
  case (Node l x r)
  then show ?case by (auto simp: search_tree_Node split: if_splits)
qed simp

lemma tree_search_None: "search_tree key t \<Longrightarrow> tree_search key k t = None \<longleftrightarrow> k \<notin> key ` set_tree t"
  using tree_search_Some [of key t k] by (cases "tree_search key k t") fastforce+

lemma find_slot_None: "search_tree key t \<Longrightarrow> find_slot key k t = None \<longleftrightarrow> k \<in> key ` set_tree t"
proof (induction t)
  case (Node l x r)
  then show ?case by (auto simp: search_tree_Node)
qed simp

lemma link_search_tree:
  "search_tree key t \<Longrightarrow> find_slot key (key e) t = Some p \<Longrightarrow>
   search_tree key (rb_link_node e p t) \<and> set_tree (rb_link_node e p t) = insert e (set_tree t)"
proof (induction t arbitrary: p)
  case Leaf
  then show ?case by (cases p) (auto simp: search_tree_def)
next
  case (Node l x r)
  then show ?case by (auto simp: search_tree_Node split: if_splits)
qed

context rb_tree
begin

lemma color_ok:
  "search_tree key (rb_insert_color R t) = search_tree key t" "set_tree (rb_insert_color R t) = set_tree t"
  by (simp_all add: search_tree_def color_inorder flip: set_inorder)

lemma erase_ok:
  assumes "search_tree key t" "e \<in> set_tree t"
  shows "search_tree key (rb_erase R e t)" "set_tree (rb_erase R e t) = set_tree t - {e}"
proof -
  have d: "distinct (inorder t)" using search_tree_distinct [OF assms(1)] by blast
  have i: "inorder (rb_erase R e t) = remove1 e (inorder t)" by (rule erase_inorder [OF d assms(2)])
  have "inorder (rb_erase R e t) = filter (\<lambda>x. x \<noteq> e) (inorder t)" using i d by (simp add: distinct_remove1_removeAll removeAll_filter_not_eq eq_commute)
  then have "map key (inorder (rb_erase R e t)) = map key (filter (\<lambda>x. x \<noteq> e) (inorder t))" by simp
  then show "search_tree key (rb_erase R e t)"
    using assms(1) by (simp add: search_tree_def sorted_wrt_map sorted_wrt_filter)
  show "set_tree (rb_erase R e t) = set_tree t - {e}"
    using i d by (metis set_inorder set_remove1_eq)
qed

end

section \<open>An instance without colours\<close>

fun list_tree :: "'a list \<Rightarrow> 'a tree" where
  "list_tree [] = Leaf"
| "list_tree (x # xs) = Node Leaf x (list_tree xs)"

lemma inorder_list_tree [simp]: "inorder (list_tree xs) = xs"
  by (induction xs) simp_all

fun succ_in :: "'a list \<Rightarrow> 'a \<Rightarrow> 'a option" where
  "succ_in [] a = None"
| "succ_in (x # xs) a = (if x = a then first_of xs else succ_in xs a)"

lemma succ_in_split: "distinct (xs @ x # ys) \<Longrightarrow> succ_in (xs @ x # ys) x = first_of ys"
  by (induction xs) auto

definition plain_rb :: "'e rb_api" where
  "plain_rb = \<lparr>rb_insert_color = (\<lambda>t. t), rb_erase = (\<lambda>e t. list_tree (remove1 e (inorder t))),
     rb_first = (\<lambda>t. first_of (inorder t)), rb_next = (\<lambda>t. succ_in (inorder t))\<rparr>"

interpretation plain: rb_tree plain_rb
proof unfold_locales
  fix t :: "'e tree" and e x :: 'e and xs ys :: "'e list"
  show "inorder (rb_insert_color plain_rb t) = inorder t" "rb_first plain_rb t = first_of (inorder t)"
    "inorder (rb_erase plain_rb e t) = remove1 e (inorder t)"
    by (simp_all add: plain_rb_def)
  show "rb_next plain_rb t x = first_of ys" if "inorder t = xs @ x # ys" "distinct (inorder t)"
    using that succ_in_split by (simp add: plain_rb_def)
qed

end
