(* ===== verification/Rbtree.thy ===== *)
theory Rbtree
  imports Search_Tree
begin

text \<open>
  The dictionary of \<open>src/rbtree/main.c\<close>: a global red-black tree of entries with an integer key and
  64 bytes of data; insertion, search, deletion, printing, and the module's load and unload.
\<close>

section \<open>Model\<close>

record my_entry =
  node :: addr
  key :: int
  data :: "byte list"

record tree_state =
  my_tree :: "my_entry tree"
  blocks :: "addr list"
  allocations :: nat
  log :: "klog list"

definition release :: "addr \<Rightarrow> tree_state \<Rightarrow> (tree_state, unit) run" where
  "release a st =
     (if a \<in> set (blocks st) then Ret (st\<lparr>blocks := remove1 a (blocks st)\<rparr>) () else Fault DoubleFree)"

definition insert_node :: "my_entry rb_api \<Rightarrow> addr_alloc \<Rightarrow> int \<Rightarrow> byte list \<Rightarrow> tree_state \<Rightarrow> (tree_state, int) run" where
  "insert_node R A k d st =
     (case find_slot key k (my_tree st) of
        None \<Rightarrow> Ret st (- EEXIST)
      | Some new \<Rightarrow>
          (case A (blocks st) (allocations st) of
             None \<Rightarrow> Fault NullDeref
           | Some a \<Rightarrow>
               (case strncpy (d @ [0]) 64 of
                  None \<Rightarrow> Fault OutOfBounds
                | Some bytes \<Rightarrow>
                    let entry = \<lparr>node = a, key = k, data = bytes\<rparr>;
                        t = rb_insert_color R (rb_link_node entry new (my_tree st))
                    in Ret (st\<lparr>my_tree := t, blocks := a # blocks st, allocations := Suc (allocations st)\<rparr>) 0)))"

definition search_node :: "int \<Rightarrow> tree_state \<Rightarrow> my_entry option" where
  "search_node k st = tree_search key k (my_tree st)"

definition delete_node :: "my_entry rb_api \<Rightarrow> int \<Rightarrow> tree_state \<Rightarrow> (tree_state, unit) run" where
  "delete_node R k st =
     (case search_node k st of
        None \<Rightarrow> Ret st ()
      | Some entry \<Rightarrow> release (node entry) (st\<lparr>my_tree := rb_erase R entry (my_tree st)\<rparr>))"

text \<open>The log of one entry; data without a zero byte is read past its end.\<close>

definition entry_log :: "my_entry \<Rightarrow> klog list option" where
  "entry_log e = (if has_nul (data e) then Some [LogInt (key e), LogStr (cstr (data e))] else None)"

partial_function (option) print_loop :: "my_entry rb_api \<Rightarrow> my_entry tree \<Rightarrow> my_entry option \<Rightarrow> klog list \<Rightarrow>
    klog list option option" where
  "print_loop R t n acc =
     (case n of None \<Rightarrow> Some (Some acc)
      | Some e \<Rightarrow> (case entry_log e of None \<Rightarrow> Some None
                   | Some l \<Rightarrow> print_loop R t (rb_next R t e) (acc @ l)))"

definition print_all_entries :: "my_entry rb_api \<Rightarrow> tree_state \<Rightarrow> (tree_state, unit) run" where
  "print_all_entries R st =
     (case print_loop R (my_tree st) (rb_first R (my_tree st)) [] of
        None \<Rightarrow> Block st
      | Some None \<Rightarrow> Fault OutOfBounds
      | Some (Some l) \<Rightarrow> Ret (st\<lparr>log := log st @ l\<rparr>) ())"

fun insert_all :: "my_entry rb_api \<Rightarrow> addr_alloc \<Rightarrow> (int \<times> byte list) list \<Rightarrow> tree_state \<Rightarrow> (tree_state, unit) run" where
  "insert_all R A [] st = Ret st ()"
| "insert_all R A ((k, d) # kds) st = run_bind (insert_node R A k d st) (\<lambda>st1 _. insert_all R A kds st1)"

text \<open>The data is \<open>"1 Entry"\<close> to \<open>"6 Entry"\<close>.\<close>

definition entry_text :: "nat \<Rightarrow> byte list" where
  "entry_text n = [of_nat (48 + n), 32, 69, 110, 116, 114, 121]"

definition start_init :: "my_entry rb_api \<Rightarrow> addr_alloc \<Rightarrow> tree_state \<Rightarrow> (tree_state, int) run" where
  "start_init R A st =
     run_bind (insert_all R A [(100, entry_text 1), (200, entry_text 2), (150, entry_text 3),
         (220, entry_text 4), (300, entry_text 5), (110, entry_text 6)] st)
       (\<lambda>st1 _. run_bind (print_all_entries R st1) (\<lambda>st2 _. Ret st2 0))"

partial_function (option) exit_loop :: "my_entry rb_api \<Rightarrow> tree_state \<Rightarrow> (tree_state, unit) run option" where
  "exit_loop R st =
     (case rb_first R (my_tree st) of
        None \<Rightarrow> Some (Ret st ())
      | Some e \<Rightarrow>
          (case release (node e) (st\<lparr>my_tree := rb_erase R e (my_tree st)\<rparr>) of
             Ret st1 _ \<Rightarrow> exit_loop R st1
           | Block st1 \<Rightarrow> Some (Block st1)
           | Fault f \<Rightarrow> Some (Fault f)))"

definition end_exit :: "my_entry rb_api \<Rightarrow> tree_state \<Rightarrow> (tree_state, unit) run" where
  "end_exit R st = (case exit_loop R st of None \<Rightarrow> Block st | Some r \<Rightarrow> r)"

section \<open>Invariant and abstraction\<close>

text \<open>The keys are in order and every entry has its own live block.\<close>

definition tree_ok :: "tree_state \<Rightarrow> bool" where
  "tree_ok st \<longleftrightarrow> search_tree key (my_tree st) \<and> distinct (map node (inorder (my_tree st))) \<and>
     node ` set_tree (my_tree st) \<subseteq> set (blocks st) \<and> distinct (blocks st)"

text \<open>The dictionary that a state stands for.\<close>

definition lookup :: "tree_state \<Rightarrow> int \<rightharpoonup> byte list" where
  "lookup st k = map_option data (search_node k st)"

lemma lookup_Some:
  "tree_ok st \<Longrightarrow> lookup st k = Some d \<longleftrightarrow> (\<exists>e\<in>set_tree (my_tree st). key e = k \<and> data e = d)"
  using tree_search_Some [of key "my_tree st" k] by (auto simp: lookup_def search_node_def tree_ok_def)

lemma lookup_None: "tree_ok st \<Longrightarrow> lookup st k = None \<longleftrightarrow> k \<notin> key ` set_tree (my_tree st)"
  using tree_search_None [of key "my_tree st" k] by (simp add: lookup_def search_node_def tree_ok_def)

lemma lookup_eqI:
  assumes "tree_ok st" and "\<And>k d. m k = Some d \<longleftrightarrow> (\<exists>e\<in>set_tree (my_tree st). key e = k \<and> data e = d)"
  shows "lookup st = m"
proof
  fix k
  have "lookup st k = Some d \<longleftrightarrow> m k = Some d" for d using lookup_Some [OF assms(1)] assms(2) by blast
  then show "lookup st k = m k" by (metis not_Some_eq)
qed

text \<open>What \<open>strncpy\<close> leaves in the 64 bytes of an entry.\<close>

definition padded :: "byte list \<Rightarrow> byte list" where
  "padded d = (if length d < 64 then d @ replicate (64 - length d) 0 else take 64 d)"

lemma strncpy_64: "0 \<notin> set d \<Longrightarrow> strncpy (d @ [0]) 64 = Some (padded d)"
  using strncpy_pad [of d 64] by (simp add: padded_def)

locale tree_module = rb_tree R + total_alloc A for R :: "my_entry rb_api" and A :: addr_alloc
begin

lemma insert_ok:
  assumes ok: "tree_ok st" and d: "0 \<notin> set d" and new: "lookup st k = None"
  shows "\<exists>st'. insert_node R A k d st = Ret st' 0 \<and> tree_ok st' \<and> lookup st' = (lookup st)(k \<mapsto> padded d) \<and>
    log st' = log st \<and> length (blocks st') = Suc (length (blocks st))"
proof -
  have s: "search_tree key (my_tree st)" using ok by (simp add: tree_ok_def)
  have fresh_key: "k \<notin> key ` set_tree (my_tree st)" using lookup_None [OF ok] new by blast
  then obtain p where p: "find_slot key k (my_tree st) = Some p" using find_slot_None [OF s, of k] by auto
  obtain a where a: "A (blocks st) (allocations st) = Some a" using alloc_total by blast
  then have na: "a \<notin> set (blocks st)" by (rule alloc_fresh)
  define e where "e = \<lparr>node = a, key = k, data = padded d\<rparr>"
  have e: "node e = a" "key e = k" "data e = padded d" by (simp_all add: e_def)
  let ?t = "rb_insert_color R (rb_link_node e p (my_tree st))"
  let ?st = "st\<lparr>my_tree := ?t, blocks := a # blocks st, allocations := Suc (allocations st)\<rparr>"
  have "find_slot key (key e) (my_tree st) = Some p" using p by (simp add: e_def)
  then have t: "search_tree key ?t" "set_tree ?t = insert e (set_tree (my_tree st))"
    using link_search_tree [OF s] by (simp_all add: color_ok)
  have run: "insert_node R A k d st = Ret ?st 0"
    using p a strncpy_64 [OF d] by (simp add: insert_node_def e_def Let_def)
  have "inj_on node (set_tree (my_tree st))" "node e \<notin> node ` set_tree (my_tree st)"
    using ok na by (auto simp: tree_ok_def distinct_map e_def)
  then have "inj_on node (set_tree ?t)" unfolding t(2) by auto
  then have "tree_ok ?st"
    using ok na t search_tree_distinct [OF t(1)] by (auto simp: tree_ok_def distinct_map e)
  moreover have "lookup ?st = (lookup st)(k \<mapsto> padded d)"
  proof (rule lookup_eqI [OF \<open>tree_ok ?st\<close>])
    fix k' d'
    show "((lookup st)(k \<mapsto> padded d)) k' = Some d' \<longleftrightarrow> (\<exists>e\<in>set_tree (my_tree ?st). key e = k' \<and> data e = d')"
      using lookup_Some [OF ok, of k' d'] fresh_key by (auto simp: t(2) e)
  qed
  ultimately show ?thesis using run by auto
qed

lemma erase_release:
  assumes ok: "tree_ok st" and e: "e \<in> set_tree (my_tree st)"
  shows "\<exists>st'. release (node e) (st\<lparr>my_tree := rb_erase R e (my_tree st)\<rparr>) = Ret st' () \<and> tree_ok st' \<and>
    my_tree st' = rb_erase R e (my_tree st) \<and> blocks st' = remove1 (node e) (blocks st) \<and> log st' = log st"
proof -
  have s: "search_tree key (my_tree st)" using ok by (simp add: tree_ok_def)
  note er = erase_ok [OF s e]
  have inj: "inj_on node (set_tree (my_tree st))" using ok by (simp add: tree_ok_def distinct_map)
  have live: "node e \<in> set (blocks st)" "distinct (blocks st)" "node ` set_tree (my_tree st) \<subseteq> set (blocks st)"
    using ok e by (auto simp: tree_ok_def)
  let ?st = "st\<lparr>my_tree := rb_erase R e (my_tree st), blocks := remove1 (node e) (blocks st)\<rparr>"
  have "inj_on node (set_tree (rb_erase R e (my_tree st)))" using inj er(2) by (auto intro: inj_on_subset)
  moreover have "node ` set_tree (rb_erase R e (my_tree st)) \<subseteq> set (blocks st) - {node e}"
    using live(3) inj e er(2) by (auto dest: inj_onD)
  ultimately have "tree_ok ?st"
    using er live search_tree_distinct [OF er(1)] by (auto simp: tree_ok_def distinct_map)
  moreover have "release (node e) (st\<lparr>my_tree := rb_erase R e (my_tree st)\<rparr>) = Ret ?st ()"
    using live(1) by (simp add: release_def)
  ultimately show ?thesis by auto
qed

lemma delete_ok:
  assumes ok: "tree_ok st"
  shows "\<exists>st'. delete_node R k st = Ret st' () \<and> tree_ok st' \<and> lookup st' = (lookup st)(k := None) \<and> log st' = log st"
proof (cases "search_node k st")
  case None
  then have "lookup st k = None" by (simp add: lookup_def)
  then show ?thesis using None ok by (auto simp: delete_node_def)
next
  case (Some e)
  have s: "search_tree key (my_tree st)" using ok by (simp add: tree_ok_def)
  then have e: "e \<in> set_tree (my_tree st)" "key e = k"
    using Some tree_search_Some [OF s] by (auto simp: search_node_def)
  obtain st' where st': "release (node e) (st\<lparr>my_tree := rb_erase R e (my_tree st)\<rparr>) = Ret st' ()" "tree_ok st'"
    "my_tree st' = rb_erase R e (my_tree st)" "log st' = log st"
    using erase_release [OF ok e(1)] by blast
  have "lookup st' = (lookup st)(k := None)"
  proof (rule lookup_eqI [OF st'(2)])
    fix k' d'
    show "((lookup st)(k := None)) k' = Some d' \<longleftrightarrow> (\<exists>e\<in>set_tree (my_tree st'). key e = k' \<and> data e = d')"
      using lookup_Some [OF ok, of k' d'] st'(3) erase_ok(2) [OF s e(1)] search_tree_inj [OF s] e by auto
  qed
  then show ?thesis using Some st' by (auto simp: delete_node_def)
qed

lemma print_loop_ok:
  assumes "distinct (inorder t)" and "inorder t = xs @ ys" and "\<forall>e\<in>set ys. has_nul (data e)"
  shows "print_loop R t (first_of ys) acc =
    Some (Some (acc @ concat (map (\<lambda>e. [LogInt (key e), LogStr (cstr (data e))]) ys)))"
  using assms(2,3)
proof (induction ys arbitrary: xs acc)
  case Nil
  then show ?case by (subst print_loop.simps) simp
next
  case (Cons e ys)
  have "rb_next R t e = first_of ys" using next_inorder [of t xs e ys] Cons.prems(1) assms(1) by simp
  then show ?case
    using Cons.IH [of "xs @ [e]"] Cons.prems by (subst print_loop.simps) (simp add: entry_log_def)
qed

lemma print_ok:
  assumes "tree_ok st" and "\<forall>e\<in>set_tree (my_tree st). has_nul (data e)"
  shows "print_all_entries R st =
    Ret (st\<lparr>log := log st @ concat (map (\<lambda>e. [LogInt (key e), LogStr (cstr (data e))]) (inorder (my_tree st)))\<rparr>) ()"
proof -
  have "distinct (inorder (my_tree st))" using search_tree_distinct assms(1) by (auto simp: tree_ok_def)
  then show ?thesis
    using print_loop_ok [of "my_tree st" "[]" "inorder (my_tree st)" "[]"] assms(2)
    by (simp add: print_all_entries_def first_inorder)
qed

lemma exit_loop_ok:
  assumes "tree_ok st"
  shows "\<exists>st'. exit_loop R st = Some (Ret st' ()) \<and> set_tree (my_tree st') = {} \<and>
    set (blocks st') = set (blocks st) - node ` set_tree (my_tree st) \<and> log st' = log st"
  using assms
proof (induction "size (inorder (my_tree st))" arbitrary: st)
  case 0
  then have "inorder (my_tree st) = []" "set_tree (my_tree st) = {}" by (simp_all flip: set_inorder)
  then show ?case by (subst exit_loop.simps) (simp add: first_inorder)
next
  case (Suc n)
  then obtain e es where es: "inorder (my_tree st) = e # es" by (cases "inorder (my_tree st)") auto
  then have e: "e \<in> set_tree (my_tree st)" by (simp flip: set_inorder)
  obtain st1 where st1: "release (node e) (st\<lparr>my_tree := rb_erase R e (my_tree st)\<rparr>) = Ret st1 ()" "tree_ok st1"
    "my_tree st1 = rb_erase R e (my_tree st)" "blocks st1 = remove1 (node e) (blocks st)" "log st1 = log st"
    using erase_release [OF Suc.prems e] by blast
  have s: "search_tree key (my_tree st)" and d: "distinct (blocks st)" using Suc.prems by (auto simp: tree_ok_def)
  have "inorder (my_tree st1) = es"
    using st1(3) erase_inorder [of "my_tree st" e] search_tree_distinct [OF s] e es by simp
  moreover have "set_tree (my_tree st1) = set_tree (my_tree st) - {e}" using st1(3) erase_ok(2) [OF s e] by simp
  moreover have "set (blocks st1) = set (blocks st) - {node e}" using st1(4) d by simp
  moreover have "exit_loop R st = exit_loop R st1"
    using es st1(1) by (subst exit_loop.simps) (simp add: first_inorder)
  ultimately show ?case using Suc.hyps(1) [of st1] Suc.hyps(2) st1(2,5) es e by auto
qed

end

text \<open>A concrete module: the tree without colours and the allocator that never fails.\<close>

interpretation demo: tree_module plain_rb next_addr ..

definition empty_tree :: tree_state where
  "empty_tree = \<lparr>my_tree = Leaf, blocks = [], allocations = 0, log = []\<rparr>"

lemma empty_tree_ok: "tree_ok empty_tree" "lookup empty_tree = Map.empty"
  by (simp_all add: empty_tree_def tree_ok_def search_tree_def lookup_def search_node_def fun_eq_iff)

section \<open>Properties\<close>



text \<open>
  C38. The two iterations end. Printing logs every entry once, in ascending order of the keys, when
  the data of every entry has a zero byte; unloading empties the tree and frees exactly the blocks
  of its entries.
\<close>

theorem rbtree_print_exit:
  assumes "tree_module R A" and "tree_ok st" and "\<forall>e\<in>set_tree (my_tree st). has_nul (data e)"
  shows "\<exists>es st'. sorted_wrt (<) (map key es) \<and> set es = set_tree (my_tree st) \<and>
    print_all_entries R st = Ret (st\<lparr>log := log st @ concat (map (\<lambda>e. [LogInt (key e), LogStr (cstr (data e))]) es)\<rparr>) () \<and>
    end_exit R st = Ret st' () \<and> set_tree (my_tree st') = {} \<and>
    set (blocks st') = set (blocks st) - node ` set_tree (my_tree st)"
proof -
  obtain st' where "exit_loop R st = Some (Ret st' ())" "set_tree (my_tree st') = {}"
    "set (blocks st') = set (blocks st) - node ` set_tree (my_tree st)"
    using tree_module.exit_loop_ok [OF assms(1,2)] by blast
  moreover have "sorted_wrt (<) (map key (inorder (my_tree st)))" using assms(2) by (simp add: tree_ok_def search_tree_def)
  ultimately show ?thesis
    using tree_module.print_ok [OF assms]
    by (intro exI [of _ "inorder (my_tree st)"] exI [of _ st']) (simp add: end_exit_def)
qed

theorem rbtree_print_exit_witness:
  "\<exists>st st'. insert_node plain_rb next_addr 7 (entry_text 1) empty_tree = Ret st 0 \<and>
     end_exit plain_rb st = Ret st' () \<and> set_tree (my_tree st') = {}"
proof -
  have z: "0 \<notin> set (entry_text 1)" by (simp add: entry_text_def)
  obtain st where st: "insert_node plain_rb next_addr 7 (entry_text 1) empty_tree = Ret st 0" "tree_ok st"
    "lookup st = [7 \<mapsto> padded (entry_text 1)]"
    using demo.insert_ok [OF empty_tree_ok(1) z, of 7] empty_tree_ok(2) by auto
  have "has_nul (data e)" if "e \<in> set_tree (my_tree st)" for e
  proof -
    have "lookup st (key e) = Some (data e)" using lookup_Some [OF st(2)] that by blast
    then have "data e = padded (entry_text 1)" using st(3) by (auto split: if_splits)
    then show ?thesis by (simp add: padded_def has_nul_def entry_text_def)
  qed
  then show ?thesis using rbtree_print_exit [OF demo.tree_module_axioms st(2)] st(1) by blast
qed

end
