(* ===== verification/Dumps.thy ===== *)
theory Dumps
  imports Kernel_Heap
begin

text \<open>
  Serialisation in \<open>src/dump/dumps.c\<close> and the scenario of \<open>src/dump/main.c\<close>
  and \<open>src/dump/test.c\<close>: a record of an unsigned
  identifier and a C string is written to one block, the identifier in memory order (little endian)
  followed by the string, and read back.
\<close>

unbundle bit_operations_syntax

section \<open>Model\<close>

record params =
  pid :: u32
  pname :: "byte list option"

definition id_bytes :: "u32 \<Rightarrow> byte list" where
  "id_bytes w = [ucast w, ucast (drop_bit 8 w), ucast (drop_bit 16 w), ucast (drop_bit 24 w)]"

fun bytes_id :: "byte list \<Rightarrow> u32" where
  "bytes_id [a, b, c, d] = ucast a OR push_bit 8 (ucast b) OR push_bit 16 (ucast c) OR push_bit 24 (ucast d)"
| "bytes_id _ = 0"

definition marshal :: "kalloc \<Rightarrow> params \<Rightarrow> kheap \<Rightarrow> (kheap, byte list option) run" where
  "marshal A p h =
     (case pname p of
        None \<Rightarrow> Fault NullDeref
      | Some nm \<Rightarrow>
          if \<not> has_nul nm then Fault OutOfBounds
          else (case do_kmalloc A (4 + length (cstr nm) + 1) h of
                  (None, h1) \<Rightarrow> Ret h1 None
                | (Some buf, h1) \<Rightarrow>
                    (case Option.bind (mem_store buf 0 (id_bytes (pid p))) (\<lambda>b. mem_store b 4 (cstr nm @ [0])) of
                       None \<Rightarrow> Fault OutOfBounds
                     | Some b \<Rightarrow> Ret h1 (Some b))))"

definition unmarshal :: "kalloc \<Rightarrow> byte list \<Rightarrow> params \<Rightarrow> kheap \<Rightarrow> (kheap, params \<times> int) run" where
  "unmarshal A buf p h =
     (case mem_load buf 0 4 of
        None \<Rightarrow> Fault OutOfBounds
      | Some bs \<Rightarrow>
          let p1 = p\<lparr>pid := bytes_id bs\<rparr>; s = drop 4 buf
          in if \<not> has_nul s then Fault OutOfBounds
             else (case do_kmalloc A (length (cstr s) + 1) h of
                     (None, h1) \<Rightarrow> Ret h1 (p1\<lparr>pname := None\<rparr>, - 1)
                   | (Some b, h1) \<Rightarrow>
                       (case mem_store b 0 (cstr s @ [0]) of
                          None \<Rightarrow> Fault OutOfBounds
                        | Some b1 \<Rightarrow> Ret h1 (p1\<lparr>pname := Some b1\<rparr>, 0))))"

text \<open>The bytes of \<open>"hello world1"\<close>.\<close>

definition hello_world1 :: "byte list" where
  "hello_world1 = [104, 101, 108, 108, 111, 32, 119, 111, 114, 108, 100, 49]"

text \<open>
  The load function of the module and the \<open>main\<close> of the test have the same statements and differ in the
  numbers that they return. \<open>sizeof(struct params)\<close> is 16; the results of three of the allocations are
  not tested.
\<close>

definition dump_scenario :: "int \<Rightarrow> int \<Rightarrow> kalloc \<Rightarrow> kheap \<Rightarrow> (kheap, int) run" where
  "dump_scenario failed done A h =
     (case do_kmalloc A 16 h of (None, _) \<Rightarrow> Fault NullDeref
      | (Some pb, h1) \<Rightarrow>
          (case do_kmalloc A 32 h1 of (None, _) \<Rightarrow> Fault NullDeref
           | (Some nb, h2) \<Rightarrow>
               (case Option.bind (strncpy (hello_world1 @ [0]) 32) (mem_store nb 0) of
                  None \<Rightarrow> Fault OutOfBounds
                | Some nb1 \<Rightarrow>
                    let p = \<lparr>pid = 1, pname = Some nb1\<rparr>
                    in run_bind (marshal A p h2) (\<lambda>h3 m.
                         case m of
                           None \<Rightarrow> Ret (do_kfree (Some pb) (do_kfree (Some nb1) h3)) failed
                         | Some buf \<Rightarrow>
                             (case do_kmalloc A 16 h3 of (None, _) \<Rightarrow> Fault NullDeref
                              | (Some tb, h4) \<Rightarrow>
                                  run_bind (unmarshal A buf \<lparr>pid = 0, pname = None\<rparr> h4) (\<lambda>h5 (t, _).
                                    let h6 = log_add (LogInt (sint (pid t))) h5;
                                        h7 = (case pname t of None \<Rightarrow> log_add LogNull h6
                                              | Some n \<Rightarrow> log_add (LogStr (cstr n)) h6)
                                    in Ret (do_kfree (Some pb) h7) done))))))"

definition dump_do_init :: "kalloc \<Rightarrow> kheap \<Rightarrow> (kheap, int) run" where
  "dump_do_init = dump_scenario (- ENOMEM) (- EINVAL)"

definition dump_test_main :: "kalloc \<Rightarrow> kheap \<Rightarrow> (kheap, int) run" where
  "dump_test_main = dump_scenario (- 1) 0"

section \<open>Lemmas\<close>

lemma bytes_id_bytes: "bytes_id (id_bytes w) = w"
proof (rule bit_word_eqI)
  fix n assume "n < LENGTH(32)"
  then consider "n < 8" | "8 \<le> n" "n < 16" | "16 \<le> n" "n < 24" | "24 \<le> n" "n < 32" by fastforce
  then show "bit (bytes_id (id_bytes w)) n = bit w n"
    by cases (simp add: id_bytes_def bit_or_iff bit_push_bit_iff bit_ucast_iff bit_drop_bit_eq; arith)+
qed

lemma do_kmalloc_total:
  assumes "kalloc_api A" and "\<And>i n. kmalloc A i n \<noteq> None"
  shows "\<exists>b h1. do_kmalloc A n h = (Some b, h1) \<and> n \<le> length b \<and> live h1 = live h + 1 \<and> klog h1 = klog h"
proof -
  obtain b where "kmalloc A (calls h) n = Some b" using assms(2) by blast
  then show ?thesis using kalloc_api.kmalloc_len [OF assms(1)] by (auto simp: do_kmalloc_def)
qed

lemma marshal_ok:
  assumes "kalloc_api A" and "\<And>i n. kmalloc A i n \<noteq> None" and "pname p = Some nm" "has_nul nm"
  shows "\<exists>rest h1. marshal A p h = Ret h1 (Some (id_bytes (pid p) @ cstr nm @ 0 # rest)) \<and>
    live h1 = live h + 1 \<and> klog h1 = klog h"
proof -
  obtain b h1 where b: "do_kmalloc A (4 + length (cstr nm) + 1) h = (Some b, h1)" "4 + length (cstr nm) + 1 \<le> length b"
    "live h1 = live h + 1" "klog h1 = klog h"
    using do_kmalloc_total [OF assms(1,2)] by blast
  have "length (id_bytes (pid p)) = 4" by (simp add: id_bytes_def)
  then have "mem_store b 0 (id_bytes (pid p)) = Some (id_bytes (pid p) @ drop 4 b)"
    "mem_store (id_bytes (pid p) @ drop 4 b) 4 (cstr nm @ [0]) =
      Some (id_bytes (pid p) @ cstr nm @ 0 # drop (Suc (length (cstr nm))) (drop 4 b))"
    using b(2) by (simp_all add: mem_store_def add.commute)
  then show ?thesis using assms(3,4) b by (auto simp: marshal_def)
qed


lemma unmarshal_ok:
  assumes "kalloc_api A" and "\<And>i n. kmalloc A i n \<noteq> None" and "0 \<notin> set s"
  shows "\<exists>b h1. unmarshal A (id_bytes w @ s @ 0 # rest) q h = Ret h1 (\<lparr>pid = w, pname = Some b\<rparr>, 0) \<and>
    has_nul b \<and> cstr b = s \<and> live h1 = live h + 1 \<and> klog h1 = klog h"
proof -
  let ?buf = "id_bytes w @ s @ 0 # rest"
  have l: "length (id_bytes w) = 4" by (simp add: id_bytes_def)
  have ld: "mem_load ?buf 0 4 = Some (id_bytes w)" "drop 4 ?buf = s @ 0 # rest" using l by (simp_all add: mem_load_def)
  have c: "cstr (s @ 0 # rest) = s" "has_nul (s @ 0 # rest)" using cstr_append [OF assms(3)] by (simp_all add: has_nul_def)
  obtain b h1 where b: "do_kmalloc A (length s + 1) h = (Some b, h1)" "length s + 1 \<le> length b"
    "live h1 = live h + 1" "klog h1 = klog h"
    using do_kmalloc_total [OF assms(1,2)] by blast
  have st: "mem_store b 0 (s @ [0]) = Some (s @ 0 # drop (Suc (length s)) b)" using b(2) by (simp add: mem_store_def)
  have "unmarshal A ?buf q h = Ret h1 (q\<lparr>pid := w, pname := Some (s @ 0 # drop (Suc (length s)) b)\<rparr>, 0)"
    using ld c b(1) st by (simp add: unmarshal_def bytes_id_bytes Let_def)
  moreover have "q\<lparr>pid := w, pname := Some (s @ 0 # drop (Suc (length s)) b)\<rparr> =
      \<lparr>pid = w, pname = Some (s @ 0 # drop (Suc (length s)) b)\<rparr>" by simp
  ultimately show ?thesis using cstr_append [OF assms(3)] b by (auto simp: has_nul_def)
qed

text \<open>The name block after \<open>strncpy\<close>.\<close>

lemma hello_name:
  assumes "32 \<le> length nb"
  shows "\<exists>nb1. Option.bind (strncpy (hello_world1 @ [0]) 32) (mem_store nb 0) = Some nb1 \<and> cstr nb1 = hello_world1 \<and> has_nul nb1"
proof -
  have cp: "strncpy (hello_world1 @ [0]) 32 = Some (hello_world1 @ replicate 20 0)"
    using strncpy_pad [of hello_world1 32] by (simp add: hello_world1_def)
  have st: "mem_store nb 0 (hello_world1 @ replicate 20 0) = Some (hello_world1 @ 0 # (replicate 19 0 @ drop 32 nb))"
    using assms replicate_Suc [of 19 "0 :: byte"] by (simp add: mem_store_def hello_world1_def)
  have "0 \<notin> set hello_world1" by (simp add: hello_world1_def)
  then show ?thesis using cp st cstr_append by (simp add: has_nul_def)
qed

lemma dump_scenario_leaks:
  assumes "kalloc_api A" and "\<And>i n. kmalloc A i n \<noteq> None"
  shows "\<exists>h'. dump_scenario failed done A h = Ret h' done \<and> live h' = live h + 4 \<and>
    klog h' = klog h @ [LogInt 1, LogStr hello_world1]"
proof -
  note al = do_kmalloc_total [OF assms]
  obtain pb h1 where h1: "do_kmalloc A 16 h = (Some pb, h1)" "live h1 = live h + 1" "klog h1 = klog h" using al by blast
  obtain nb h2 where h2: "do_kmalloc A 32 h1 = (Some nb, h2)" "32 \<le> length nb" "live h2 = live h1 + 1" "klog h2 = klog h1"
    using al by blast
  obtain nb1 where st: "Option.bind (strncpy (hello_world1 @ [0]) 32) (mem_store nb 0) = Some nb1"
    and c: "cstr nb1 = hello_world1" "has_nul nb1"
    using hello_name [OF h2(2)] by blast
  have z: "0 \<notin> set hello_world1" by (simp add: hello_world1_def)
  let ?p = "\<lparr>pid = 1, pname = Some nb1\<rparr>"
  obtain rest h3 where h3: "marshal A ?p h2 = Ret h3 (Some (id_bytes 1 @ hello_world1 @ 0 # rest))"
    "live h3 = live h2 + 1" "klog h3 = klog h2"
    using marshal_ok [OF assms, of ?p nb1 h2] c by auto
  obtain tb h4 where h4: "do_kmalloc A 16 h3 = (Some tb, h4)" "live h4 = live h3 + 1" "klog h4 = klog h3" using al by blast
  obtain b h5 where h5: "unmarshal A (id_bytes 1 @ hello_world1 @ 0 # rest) \<lparr>pid = 0, pname = None\<rparr> h4 =
      Ret h5 (\<lparr>pid = 1, pname = Some b\<rparr>, 0)" "cstr b = hello_world1" "live h5 = live h4 + 1" "klog h5 = klog h4"
    using unmarshal_ok [OF assms z] by blast
  show ?thesis
    using h1 h2 h3 h4 h5 by (simp add: dump_scenario_def st Let_def do_kfree_def)
qed

text \<open>If only the allocation in \<open>marshal\<close> fails, the two blocks are freed and the error is returned.\<close>

lemma dump_scenario_frees:
  assumes "kalloc_api A" and "kmalloc A (calls h) 16 \<noteq> None" "kmalloc A (Suc (calls h)) 32 \<noteq> None"
    and "kmalloc A (Suc (Suc (calls h))) 17 = None"
  shows "\<exists>h'. dump_scenario failed done A h = Ret h' failed \<and> live h' = live h \<and> klog h' = klog h"
proof -
  obtain pb nb where pb: "kmalloc A (calls h) 16 = Some pb" "kmalloc A (Suc (calls h)) 32 = Some nb"
    using assms(2,3) by blast
  then obtain nb1 where st: "Option.bind (strncpy (hello_world1 @ [0]) 32) (mem_store nb 0) = Some nb1"
    and c: "cstr nb1 = hello_world1" "has_nul nb1"
    using hello_name kalloc_api.kmalloc_len [OF assms(1)] by blast
  have "length hello_world1 = 12" by (simp add: hello_world1_def)
  then show ?thesis
    using pb assms(4) c by (simp add: dump_scenario_def do_kmalloc_def st marshal_def do_kfree_def)
qed

section \<open>Properties\<close>



text \<open>
  Loading the module prints the identifier and the name it started from, returns
  \<open>-EINVAL\<close>, and leaves four blocks allocated: the name, the serialised form, and the copy with its
  name.
\<close>

theorem dump_do_init_leaks:
  assumes "kalloc_api A" and "\<And>i n. kmalloc A i n \<noteq> None"
  shows "\<exists>h'. dump_do_init A h = Ret h' (- EINVAL) \<and> live h' = live h + 4 \<and>
    klog h' = klog h @ [LogInt 1, LogStr hello_world1]"
  unfolding dump_do_init_def by (rule dump_scenario_leaks [OF assms])

theorem dump_do_init_leaks_witness:
  "\<exists>h'. dump_do_init (slab 8) \<lparr>calls = 0, live = 0, klog = []\<rparr> = Ret h' (- EINVAL) \<and> live h' = 4"
proof -
  have "\<And>i n. kmalloc (slab 8) i n \<noteq> None" by (simp add: slab_def)
  from dump_do_init_leaks [OF slab.kalloc_api_axioms this, of "\<lparr>calls = 0, live = 0, klog = []\<rparr>"]
  show ?thesis by auto
qed

text \<open>The test program ends with 0 and the same four blocks.\<close>

theorem dump_test_main_spec:
  assumes "kalloc_api A" and "\<And>i n. kmalloc A i n \<noteq> None"
  shows "\<exists>h'. dump_test_main A h = Ret h' 0 \<and> live h' = live h + 4 \<and> klog h' = klog h @ [LogInt 1, LogStr hello_world1]"
  unfolding dump_test_main_def by (rule dump_scenario_leaks [OF assms])

end
