(* ===== verification/Workfifo.thy ===== *)
theory Workfifo
  imports Kernel_Heap
begin

text \<open>
  The work queue module of \<open>src/thread/fifo.c\<close>: items are put in a circular array and handed to a
  single-threaded work queue, whose worker processes and frees them while the module goes on. The
  module and the worker interleave; unloading flushes the work queue and then frees what the
  circular array still names.
\<close>

section \<open>Model\<close>

definition FIFO_SIZE :: nat where "FIFO_SIZE = 10"

record workfifo =
  fifo :: "addr option list"
  fifo_head :: nat
  fifo_tail :: nat
  fifo_lock :: bool
  pending :: "addr list"
  item_data :: "addr \<Rightarrow> int"
  live_items :: "addr list"
  kmallocs :: nat
  processed :: "int list"

type_synonym item_alloc = "addr list \<Rightarrow> nat \<Rightarrow> addr option"

definition kfree_item :: "addr \<Rightarrow> workfifo \<Rightarrow> (workfifo, unit) run" where
  "kfree_item a st =
     (if a \<in> set (live_items st) then Ret (st\<lparr>live_items := remove1 a (live_items st)\<rparr>) () else Fault DoubleFree)"

definition work_handler :: "addr \<Rightarrow> workfifo \<Rightarrow> (workfifo, unit) run" where
  "work_handler a st =
     (if a \<notin> set (live_items st) then Fault UseAfterFree
      else kfree_item a (st\<lparr>processed := processed st @ [item_data st a]\<rparr>))"

definition enqueue :: "item_alloc \<Rightarrow> int \<Rightarrow> workfifo \<Rightarrow> (workfifo, int) run" where
  "enqueue A d st =
     (if fifo_lock st then Block st
      else if (fifo_tail st + 1) mod FIFO_SIZE = fifo_head st then Ret st (- 1)
      else case A (live_items st) (kmallocs st) of
        None \<Rightarrow> Ret (st\<lparr>kmallocs := Suc (kmallocs st)\<rparr>) (- 1)
      | Some a \<Rightarrow>
          if \<not> fifo_tail st < length (fifo st) then Fault OutOfBounds
          else Ret (st\<lparr>kmallocs := Suc (kmallocs st), live_items := a # live_items st,
                       item_data := (item_data st)(a := d), fifo := (fifo st)[fifo_tail st := Some a],
                       fifo_tail := (fifo_tail st + 1) mod FIFO_SIZE, pending := pending st @ [a]\<rparr>) 0)"

text \<open>The worker thread takes the oldest piece of work; it does not take the mutex.\<close>

definition worker :: "workfifo \<Rightarrow> (workfifo, unit) run" where
  "worker st = (case pending st of [] \<Rightarrow> Block st | a # as \<Rightarrow> work_handler a (st\<lparr>pending := as\<rparr>))"

definition workfifo_init :: "bool \<Rightarrow> item_alloc \<Rightarrow> workfifo \<Rightarrow> (workfifo, int) run" where
  "workfifo_init workqueue_ok A st =
     (let st0 = st\<lparr>fifo_lock := False\<rparr>
      in if \<not> workqueue_ok then Ret st0 (- ENOMEM)
         else run_bind (enqueue A 1 st0) (\<lambda>st1 _. run_bind (enqueue A 2 st1) (\<lambda>st2 _.
              run_bind (enqueue A 3 st2) (\<lambda>st3 _. Ret st3 0))))"

text \<open>\<open>flush_workqueue\<close> returns when everything that was queued has been processed.\<close>

fun work_all :: "addr list \<Rightarrow> workfifo \<Rightarrow> (workfifo, unit) run" where
  "work_all [] st = Ret st ()"
| "work_all (a # as) st = run_bind (work_handler a st) (\<lambda>st1 _. work_all as st1)"

definition flush_workqueue :: "workfifo \<Rightarrow> (workfifo, unit) run" where
  "flush_workqueue st = work_all (pending st) (st\<lparr>pending := []\<rparr>)"

partial_function (option) drain :: "workfifo \<Rightarrow> (workfifo, unit) run option" where
  "drain st =
     (if fifo_head st = fifo_tail st then Some (Ret st ())
      else if \<not> fifo_head st < length (fifo st) then Some (Fault OutOfBounds)
      else let st1 = st\<lparr>fifo_head := (fifo_head st + 1) mod FIFO_SIZE\<rparr>
           in case fifo st ! fifo_head st of
                None \<Rightarrow> drain st1
              | Some a \<Rightarrow> (case kfree_item a st1 of
                             Ret st2 _ \<Rightarrow> drain st2
                           | Block st2 \<Rightarrow> Some (Block st2)
                           | Fault f \<Rightarrow> Some (Fault f)))"

definition workfifo_exit :: "workfifo \<Rightarrow> (workfifo, unit) run" where
  "workfifo_exit st =
     run_bind (flush_workqueue st) (\<lambda>st1 _.
       if fifo_lock st1 then Block st1
       else case drain st1 of None \<Rightarrow> Block st1 | Some r \<Rightarrow> r)"

definition workfifo_start :: workfifo where
  "workfifo_start = \<lparr>fifo = replicate FIFO_SIZE None, fifo_head = 0, fifo_tail = 0, fifo_lock = False,
     pending = [], item_data = (\<lambda>_. 0), live_items = [], kmallocs = 0, processed = []\<rparr>"

section \<open>The module and the worker together\<close>

text \<open>The list records the data of the accepted items.\<close>

inductive wf_run :: "item_alloc \<Rightarrow> workfifo \<Rightarrow> int list \<Rightarrow> workfifo \<Rightarrow> bool"
  for A :: item_alloc and st0 :: workfifo where
  wf_nil: "wf_run A st0 [] st0"
| wf_accept: "wf_run A st0 ds st \<Longrightarrow> enqueue A d st = Ret st' 0 \<Longrightarrow> wf_run A st0 (ds @ [d]) st'"
| wf_refuse: "wf_run A st0 ds st \<Longrightarrow> enqueue A d st = Ret st' (- 1) \<Longrightarrow> wf_run A st0 ds st'"
| wf_work: "wf_run A st0 ds st \<Longrightarrow> worker st = Ret st' () \<Longrightarrow> wf_run A st0 ds st'"

definition wf_inv :: "int list \<Rightarrow> workfifo \<Rightarrow> bool" where
  "wf_inv ds st \<longleftrightarrow> \<not> fifo_lock st \<and> fifo_head st = 0 \<and> fifo_tail st = length ds \<and> length ds < FIFO_SIZE \<and>
     length (fifo st) = FIFO_SIZE \<and> (\<forall>i < length ds. fifo st ! i \<noteq> None) \<and>
     distinct (pending st) \<and> set (live_items st) = set (pending st) \<and> distinct (live_items st) \<and>
     processed st @ map (item_data st) (pending st) = ds"

text \<open>A fresh address for every item.\<close>

locale fresh_items =
  fixes A :: item_alloc
  assumes item_fresh: "A lv i = Some a \<Longrightarrow> a \<notin> set lv"

lemma work_handler_ok:
  assumes "a \<in> set (live_items st)"
  shows "work_handler a st =
    Ret (st\<lparr>processed := processed st @ [item_data st a], live_items := remove1 a (live_items st)\<rparr>) ()"
  using assms by (simp add: work_handler_def kfree_item_def)

context fresh_items
begin

lemma enqueue_inv:
  assumes inv: "wf_inv ds st" and run: "enqueue A d st = Ret st' r"
  shows "r = 0 \<and> wf_inv (ds @ [d]) st' \<or> r = - 1 \<and> wf_inv ds st'"
proof -
  have i: "\<not> fifo_lock st" "fifo_head st = 0" "fifo_tail st = length ds" "length ds < 10" "length (fifo st) = 10"
    using inv by (simp_all add: wf_inv_def FIFO_SIZE_def)
  show ?thesis
  proof (cases "A (live_items st) (kmallocs st)")
    case None
    then show ?thesis using run inv i by (auto simp: enqueue_def wf_inv_def FIFO_SIZE_def split: if_splits)
  next
    case (Some a)
    have a: "a \<notin> set (live_items st)" "a \<notin> set (pending st)"
      using item_fresh [OF Some] inv by (auto simp: wf_inv_def)
    have md: "(length ds + 1) mod 10 \<noteq> 0 \<Longrightarrow> Suc (length ds) < 10" using i(4) by (cases "Suc (length ds) = 10") auto
    show ?thesis
    proof (cases "(length ds + 1) mod 10 = 0")
      case True
      then show ?thesis using run inv i by (auto simp: enqueue_def FIFO_SIZE_def)
    next
      case False
      then have "Suc (length ds) < 10" using md by blast
      moreover have "map ((item_data st)(a := d)) (pending st) = map (item_data st) (pending st)" using a(2) by auto
      ultimately have "r = 0 \<and> wf_inv (ds @ [d]) st'"
        using run inv i Some a False
        by (auto simp: enqueue_def wf_inv_def FIFO_SIZE_def nth_list_update less_Suc_eq)
      then show ?thesis ..
    qed
  qed
qed

lemma worker_inv:
  assumes inv: "wf_inv ds st" and run: "worker st = Ret st' ()"
  shows "wf_inv ds st'"
proof -
  obtain a as where p: "pending st = a # as" using run by (cases "pending st") (auto simp: worker_def)
  have "a \<in> set (live_items st)" using inv p by (simp add: wf_inv_def)
  then show ?thesis using run p inv work_handler_ok [of a "st\<lparr>pending := as\<rparr>"] by (auto simp: worker_def wf_inv_def)
qed

lemma run_inv: "wf_run A workfifo_start ds st \<Longrightarrow> wf_inv ds st"
proof (induction rule: wf_run.induct)
  case wf_nil
  then show ?case by (simp add: wf_inv_def workfifo_start_def FIFO_SIZE_def)
next
  case (wf_accept ds st d st')
  then show ?case using enqueue_inv [OF wf_accept.IH wf_accept.hyps(2)] by simp
next
  case (wf_refuse ds st d st')
  then show ?case using enqueue_inv [OF wf_refuse.IH wf_refuse.hyps(2)] by simp
next
  case (wf_work ds st st')
  then show ?case using worker_inv by blast
qed

end

lemma work_all_ok:
  "distinct as \<Longrightarrow> set as \<subseteq> set (live_items st) \<Longrightarrow> distinct (live_items st) \<Longrightarrow>
   \<exists>st'. work_all as st = Ret st' () \<and> set (live_items st') = set (live_items st) - set as \<and>
     processed st' = processed st @ map (item_data st) as \<and> fifo st' = fifo st \<and> fifo_head st' = fifo_head st \<and>
     fifo_tail st' = fifo_tail st \<and> fifo_lock st' = fifo_lock st"
proof (induction as arbitrary: st)
  case (Cons a as)
  let ?st = "st\<lparr>processed := processed st @ [item_data st a], live_items := remove1 a (live_items st)\<rparr>"
  have "set as \<subseteq> set (live_items ?st)" using Cons.prems by auto
  then obtain st' where "work_all as ?st = Ret st' ()" "set (live_items st') = set (live_items ?st) - set as"
    "processed st' = processed ?st @ map (item_data ?st) as" "fifo st' = fifo ?st" "fifo_head st' = fifo_head ?st"
    "fifo_tail st' = fifo_tail ?st" "fifo_lock st' = fifo_lock ?st"
    using Cons.IH [of ?st] Cons.prems by auto
  then show ?case using Cons.prems work_handler_ok [of a st] by auto
qed simp

definition next_item :: item_alloc where
  "next_item lv i = Some (Suc (sum_list lv))"

interpretation next_item: fresh_items next_item
proof unfold_locales
  fix lv :: "addr list" and i :: nat and a :: addr
  show "next_item lv i = Some a \<Longrightarrow> a \<notin> set lv"
    using member_le_sum_list [of a lv] by (auto simp: next_item_def)
qed

lemma demo_wf_run: "\<exists>st. wf_run next_item workfifo_start [5] st \<and> pending st = [1] \<and> processed st = []"
proof -
  obtain st where st: "enqueue next_item 5 workfifo_start = Ret st 0" "pending st = [1]" "processed st = []"
    by (simp add: enqueue_def workfifo_start_def next_item_def FIFO_SIZE_def)
  have "wf_run next_item workfifo_start ([] @ [5]) st"
    by (rule wf_run.wf_accept [OF wf_run.wf_nil st(1)])
  with st show ?thesis by auto
qed

section \<open>Properties\<close>

text \<open>
  C14. However the module and the worker interleave, the items are processed in the order they were
  accepted, none is lost or touched after it was freed; but at most nine items are ever accepted,
  because nothing advances the head of the circular array: with nine accepted, every later call
  returns -1, even when all of them have long been processed.
\<close>

theorem workfifo_order:
  assumes "fresh_items A" and "wf_run A workfifo_start ds st"
  shows "processed st @ map (item_data st) (pending st) = ds \<and> length ds \<le> 9 \<and>
    set (live_items st) = set (pending st) \<and> (\<forall>f. worker st \<noteq> Fault f) \<and>
    (length ds = 9 \<longrightarrow> (\<forall>d. enqueue A d st = Ret st (- 1)))"
proof -
  have inv: "wf_inv ds st" by (rule fresh_items.run_inv [OF assms])
  have "worker st \<noteq> Fault f" for f
    using inv work_handler_ok by (cases "pending st") (auto simp: worker_def wf_inv_def)
  moreover have "enqueue A d st = Ret st (- 1)" if "length ds = 9" for d
    using inv that by (simp add: enqueue_def wf_inv_def FIFO_SIZE_def)
  ultimately show ?thesis using inv by (auto simp: wf_inv_def FIFO_SIZE_def)
qed

theorem workfifo_order_witness:
  "\<exists>st. wf_run next_item workfifo_start [5] st \<and> processed st @ map (item_data st) (pending st) = [5]"
  using demo_wf_run workfifo_order [OF next_item.fresh_items_axioms] by blast

text \<open>
  C40. Unloading after at least one item was accepted frees an item twice: flushing the work queue
  processes and frees every item, and the loop that follows frees the items of the array again.
\<close>

theorem workfifo_exit_double_free:
  assumes "fresh_items A" and "wf_run A workfifo_start ds st" and "ds \<noteq> []"
  shows "workfifo_exit st = Fault DoubleFree"
proof -
  have inv: "wf_inv ds st" by (rule fresh_items.run_inv [OF assms(1,2)])
  obtain st1 where st1: "flush_workqueue st = Ret st1 ()" "live_items st1 = []" "fifo st1 = fifo st"
    "fifo_head st1 = 0" "fifo_tail st1 = length ds" "\<not> fifo_lock st1"
    using work_all_ok [of "pending st" "st\<lparr>pending := []\<rparr>"] inv by (auto simp: flush_workqueue_def wf_inv_def)
  obtain a where a: "fifo st ! 0 = Some a" using inv assms(3) by (auto simp: wf_inv_def)
  have len: "0 < length (fifo st1)" using inv st1(3) by (simp add: wf_inv_def FIFO_SIZE_def)
  have "drain st1 = Some (Fault DoubleFree)"
    using st1 a len assms(3) by (subst drain.simps) (simp add: kfree_item_def Let_def)
  then show ?thesis using st1 by (simp add: workfifo_exit_def)
qed

theorem workfifo_exit_double_free_witness:
  "\<exists>st. wf_run next_item workfifo_start [5] st \<and> workfifo_exit st = Fault DoubleFree"
  using demo_wf_run workfifo_exit_double_free [OF next_item.fresh_items_axioms] by blast

end
