(* ===== verification/Interval_Tree.thy ===== *)
theory Interval_Tree
  imports Search_Tree "HOL-Library.Multiset"
begin

text \<open>
  The interval tree test of \<open>src/rbtree/interval_tree.c\<close>. The tree itself is the kernel's: an
  interface whose laws speak of the list of its nodes in the order of their start. The module's
  search returns a local pointer that is not initialised when no interval overlaps.
\<close>

section \<open>Model\<close>

record node_value =
  iv_addr :: addr
  iv_start :: u64
  iv_last :: u64
  iv_data :: int

definition overlaps :: "u64 \<Rightarrow> u64 \<Rightarrow> node_value \<Rightarrow> bool" where
  "overlaps s l n \<longleftrightarrow> iv_start n \<le> l \<and> s \<le> iv_last n"

record 'r interval_api =
  interval_tree_insert :: "node_value \<Rightarrow> 'r \<Rightarrow> 'r"
  interval_tree_remove :: "node_value \<Rightarrow> 'r \<Rightarrow> 'r"
  interval_tree_iter_first :: "'r \<Rightarrow> u64 \<Rightarrow> u64 \<Rightarrow> node_value option"
  interval_tree_iter_next :: "'r \<Rightarrow> node_value \<Rightarrow> u64 \<Rightarrow> u64 \<Rightarrow> node_value option"

text \<open>The kernel documents that the iteration visits the overlapping intervals in order.\<close>

locale interval_trees =
  fixes I :: "'r interval_api" and nodes :: "'r \<Rightarrow> node_value list"
  assumes nodes_sorted: "sorted (map iv_start (nodes r))"
    and nodes_insert: "mset (nodes (interval_tree_insert I n r)) = add_mset n (mset (nodes r))"
    and nodes_remove: "n \<in> set (nodes r) \<Longrightarrow> nodes (interval_tree_remove I n r) = remove1 n (nodes r)"
    and iter_first: "interval_tree_iter_first I r s l = first_of (filter (overlaps s l) (nodes r))"
    and iter_next: "nodes r = xs @ n # ys \<Longrightarrow> distinct (nodes r) \<Longrightarrow>
      interval_tree_iter_next I r n s l = first_of (filter (overlaps s l) ys)"

text \<open>A pointer variable: not initialised, null, or a node.\<close>

datatype nv_ptr = Uninit | Null | Ptr node_value

record 'r istate =
  iroot :: 'r
  iblocks :: "addr list"
  icalls :: nat
  ilog :: "int list"

partial_function (option) search_loop :: "'r interval_api \<Rightarrow> 'r \<Rightarrow> u64 \<Rightarrow> u64 \<Rightarrow> node_value option \<Rightarrow> nv_ptr \<Rightarrow> nv_ptr option" where
  "search_loop I r s l n nv =
     (case n of None \<Rightarrow> Some nv
      | Some x \<Rightarrow> search_loop I r s l (interval_tree_iter_next I r x s l) (Ptr x))"

definition search :: "'r interval_api \<Rightarrow> u64 \<Rightarrow> u64 \<Rightarrow> 'r istate \<Rightarrow> ('r istate, nv_ptr) run" where
  "search I s l st =
     (case search_loop I (iroot st) s l (interval_tree_iter_first I (iroot st) s l) Uninit of
        None \<Rightarrow> Block st | Some nv \<Rightarrow> Ret st nv)"

definition insert_interval :: "'r interval_api \<Rightarrow> (addr list \<Rightarrow> nat \<Rightarrow> addr option) \<Rightarrow> u64 \<Rightarrow> u64 \<Rightarrow> int \<Rightarrow> 'r istate \<Rightarrow> 'r istate" where
  "insert_interval I A s l d st =
     (case A (iblocks st) (icalls st) of
        None \<Rightarrow> st\<lparr>icalls := Suc (icalls st)\<rparr>
      | Some a \<Rightarrow>
          st\<lparr>icalls := Suc (icalls st), iblocks := a # iblocks st,
             iroot := interval_tree_insert I \<lparr>iv_addr = a, iv_start = s, iv_last = l, iv_data = d\<rparr> (iroot st)\<rparr>)"

definition drop_node :: "'r interval_api \<Rightarrow> node_value \<Rightarrow> 'r istate \<Rightarrow> ('r istate, unit) run" where
  "drop_node I n st =
     (if iv_addr n \<in> set (iblocks st)
      then Ret (st\<lparr>iroot := interval_tree_remove I n (iroot st), iblocks := remove1 (iv_addr n) (iblocks st)\<rparr>) ()
      else Fault DoubleFree)"

definition remove :: "'r interval_api \<Rightarrow> u64 \<Rightarrow> u64 \<Rightarrow> 'r istate \<Rightarrow> ('r istate, unit) run" where
  "remove I s l st =
     run_bind (search I s l st) (\<lambda>st1 nv.
       case nv of Uninit \<Rightarrow> Fault UninitRead | Null \<Rightarrow> Ret st1 () | Ptr n \<Rightarrow> drop_node I n st1)"

partial_function (option) remove_all_loop :: "'r interval_api \<Rightarrow> 'r istate \<Rightarrow> ('r istate, unit) run option" where
  "remove_all_loop I st =
     (case interval_tree_iter_first I (iroot st) 0 (- 1) of
        None \<Rightarrow> Some (Ret st ())
      | Some n \<Rightarrow> (case drop_node I n st of
                     Ret st1 _ \<Rightarrow> remove_all_loop I st1
                   | Block st1 \<Rightarrow> Some (Block st1)
                   | Fault f \<Rightarrow> Some (Fault f)))"

definition remove_all :: "'r interval_api \<Rightarrow> 'r istate \<Rightarrow> ('r istate, unit) run" where
  "remove_all I st = (case remove_all_loop I st of None \<Rightarrow> Block st | Some r \<Rightarrow> r)"

definition search_print :: "'r interval_api \<Rightarrow> u64 \<Rightarrow> u64 \<Rightarrow> 'r istate \<Rightarrow> ('r istate, unit) run" where
  "search_print I s l st =
     run_bind (search I s l st) (\<lambda>st1 nv.
       case nv of Uninit \<Rightarrow> Fault UninitRead | Null \<Rightarrow> Ret st1 ()
       | Ptr n \<Rightarrow> Ret (st1\<lparr>ilog := ilog st1 @ [iv_data n]\<rparr>) ())"

definition interval_tree_test_init :: "'r interval_api \<Rightarrow> (addr list \<Rightarrow> nat \<Rightarrow> addr option) \<Rightarrow> 'r istate \<Rightarrow> ('r istate, int) run" where
  "interval_tree_test_init I A st =
     (let st5 = insert_interval I A 40 50 5 (insert_interval I A 30 40 4 (insert_interval I A 20 30 3
                  (insert_interval I A 10 20 2 (insert_interval I A 0 10 1 st))))
      in run_bind (remove I 9 15 st5) (\<lambda>s1 _.
         run_bind (search_print I 1 10 s1) (\<lambda>s2 _.
         run_bind (search_print I 15 25 s2) (\<lambda>s3 _.
         run_bind (search_print I 45 55 s3) (\<lambda>s4 _.
         run_bind (search_print I 65 75 s4) (\<lambda>s5 _. Ret s5 (- EAGAIN)))))))"

section \<open>Lemmas\<close>

text \<open>Every node of the tree has a live block of its own.\<close>

definition istate_ok :: "('r \<Rightarrow> node_value list) \<Rightarrow> 'r istate \<Rightarrow> bool" where
  "istate_ok nodes st \<longleftrightarrow> distinct (map iv_addr (nodes (iroot st))) \<and>
     set (map iv_addr (nodes (iroot st))) \<subseteq> set (iblocks st) \<and> distinct (iblocks st)"

definition last_ptr :: "node_value list \<Rightarrow> nv_ptr" where
  "last_ptr ns = (if ns = [] then Uninit else Ptr (last ns))"

context interval_trees
begin

lemma search_loop_ok:
  assumes "distinct (nodes r)"
  shows "nodes r = xs @ ys \<Longrightarrow> search_loop I r s l (first_of (filter (overlaps s l) ys)) nv =
    Some (if filter (overlaps s l) ys = [] then nv else last_ptr (filter (overlaps s l) ys))"
proof (induction ys arbitrary: xs nv)
  case Nil
  then show ?case by (subst search_loop.simps) simp
next
  case (Cons y ys)
  show ?case
  proof (cases "overlaps s l y")
    case True
    have "interval_tree_iter_next I r y s l = first_of (filter (overlaps s l) ys)"
      using iter_next [of r xs y ys] Cons.prems assms by simp
    then show ?thesis
      using Cons.IH [of "xs @ [y]" "Ptr y"] Cons.prems True by (subst search_loop.simps) (simp add: last_ptr_def)
  next
    case False
    then show ?thesis using Cons.IH [of "xs @ [y]" nv] Cons.prems by simp
  qed
qed

lemma distinct_nodes: "istate_ok nodes st \<Longrightarrow> distinct (nodes (iroot st))"
  by (simp add: istate_ok_def distinct_map)

lemma search_ok:
  assumes "istate_ok nodes st"
  shows "search I s l st = Ret st (last_ptr (filter (overlaps s l) (nodes (iroot st))))"
  using search_loop_ok [OF distinct_nodes [OF assms], of "[]" "nodes (iroot st)" s l Uninit]
  by (simp add: search_def iter_first last_ptr_def)

lemma drop_ok:
  assumes ok: "istate_ok nodes st" and n: "n \<in> set (nodes (iroot st))"
  shows "\<exists>st'. drop_node I n st = Ret st' () \<and> istate_ok nodes st' \<and> nodes (iroot st') = remove1 n (nodes (iroot st)) \<and>
    set (iblocks st') = set (iblocks st) - {iv_addr n} \<and> ilog st' = ilog st"
proof -
  have a: "iv_addr n \<in> set (iblocks st)" "distinct (iblocks st)" using ok n by (auto simp: istate_ok_def)
  let ?st = "st\<lparr>iroot := interval_tree_remove I n (iroot st), iblocks := remove1 (iv_addr n) (iblocks st)\<rparr>"
  have r: "nodes (iroot ?st) = remove1 n (nodes (iroot st))" using nodes_remove [OF n] by simp
  have d: "distinct (nodes (iroot st))" "inj_on iv_addr (set (nodes (iroot st)))"
    using ok by (auto simp: istate_ok_def distinct_map)
  have "istate_ok nodes ?st"
    using ok n d a r by (auto simp: istate_ok_def distinct_map intro: inj_on_subset dest: inj_onD)
  then show ?thesis using a r by (auto simp: drop_node_def)
qed

lemma remove_all_ok:
  assumes "istate_ok nodes st"
  shows "\<exists>st'. remove_all_loop I st = Some (Ret st' ()) \<and> nodes (iroot st') = [] \<and>
    set (iblocks st') = set (iblocks st) - iv_addr ` set (nodes (iroot st))"
  using assms
proof (induction "length (nodes (iroot st))" arbitrary: st)
  case 0
  then show ?case by (subst remove_all_loop.simps) (simp add: iter_first)
next
  case (Suc k)
  then obtain n ns where ns: "nodes (iroot st) = n # ns" by (cases "nodes (iroot st)") auto
  have "overlaps 0 (- 1) n" by (simp add: overlaps_def)
  then have f: "interval_tree_iter_first I (iroot st) 0 (- 1) = Some n" by (simp add: iter_first ns)
  obtain st1 where st1: "drop_node I n st = Ret st1 ()" "istate_ok nodes st1" "nodes (iroot st1) = ns"
    "set (iblocks st1) = set (iblocks st) - {iv_addr n}"
    using drop_ok [OF Suc.prems, of n] ns by auto
  have "remove_all_loop I st = remove_all_loop I st1" using f st1(1) by (subst remove_all_loop.simps) simp
  then show ?case using Suc.hyps(1) [of st1] Suc.hyps(2) st1 ns by auto
qed

lemma insert_last:
  assumes "\<And>x. x \<in> set (nodes r) \<Longrightarrow> iv_start x < iv_start n" and "distinct (map iv_start (nodes r))"
  shows "nodes (interval_tree_insert I n r) = nodes r @ [n]"
proof -
  have s: "set (nodes (interval_tree_insert I n r)) = set (nodes r @ [n])"
    using nodes_insert [of n r] by (metis (no_types, lifting) mset.simps(2) mset_append set_mset_mset union_mset_add_mset_right add.right_neutral mset.simps(1))
  have d: "distinct (map iv_start (nodes r @ [n]))" using assms by force
  have "mset (map iv_start (nodes (interval_tree_insert I n r))) = mset (map iv_start (nodes r @ [n]))"
    using nodes_insert [of n r] by simp
  then have "distinct (map iv_start (nodes (interval_tree_insert I n r)))" using d by (metis mset_eq_imp_distinct_iff)
  moreover have "sorted (map iv_start (nodes r @ [n]))"
    using assms(1) nodes_sorted [of r] by (auto simp: sorted_append less_imp_le)
  ultimately show ?thesis
    using d s nodes_sorted by (intro map_sorted_distinct_set_unique [of iv_start]) (auto simp: distinct_map)
qed

end

locale interval_module = interval_trees I nodes for I :: "'r interval_api" and nodes +
  fixes A :: "addr list \<Rightarrow> nat \<Rightarrow> addr option"
  assumes alloc_total: "A lv i \<noteq> None"
    and alloc_fresh: "A lv i = Some a \<Longrightarrow> a \<notin> set lv"
begin

lemma insert_ok:
  assumes ok: "istate_ok nodes st"
  shows "\<exists>a. let n = \<lparr>iv_addr = a, iv_start = s, iv_last = l, iv_data = d\<rparr>; st' = insert_interval I A s l d st
    in istate_ok nodes st' \<and> iroot st' = interval_tree_insert I n (iroot st) \<and>
       mset (nodes (iroot st')) = add_mset n (mset (nodes (iroot st))) \<and> ilog st' = ilog st"
proof -
  obtain a where a: "A (iblocks st) (icalls st) = Some a" using alloc_total by blast
  let ?n = "\<lparr>iv_addr = a, iv_start = s, iv_last = l, iv_data = d\<rparr>"
  have na: "a \<notin> set (iblocks st)" using alloc_fresh [OF a] .
  have m: "mset (map iv_addr (nodes (interval_tree_insert I ?n (iroot st)))) = mset (a # map iv_addr (nodes (iroot st)))"
    using nodes_insert [of ?n "iroot st"] by simp
  then have "set (map iv_addr (nodes (interval_tree_insert I ?n (iroot st)))) = insert a (set (map iv_addr (nodes (iroot st))))"
    by (metis list.simps(15) set_mset_mset)
  moreover have "distinct (map iv_addr (nodes (interval_tree_insert I ?n (iroot st))))"
    using mset_eq_imp_distinct_iff [OF m] ok na by (auto simp: istate_ok_def)
  ultimately show ?thesis
    using ok na a nodes_insert [of ?n "iroot st"]
    by (intro exI [of _ a]) (auto simp: insert_interval_def istate_ok_def Let_def)
qed

lemma insert_at_end:
  assumes "istate_ok nodes st" and "\<forall>x \<in> set (nodes (iroot st)). iv_start x < s"
    and "distinct (map iv_start (nodes (iroot st)))"
  shows "\<exists>a. istate_ok nodes (insert_interval I A s l d st) \<and> ilog (insert_interval I A s l d st) = ilog st \<and>
    nodes (iroot (insert_interval I A s l d st)) =
      nodes (iroot st) @ [\<lparr>iv_addr = a, iv_start = s, iv_last = l, iv_data = d\<rparr>]"
proof -
  obtain a where a: "istate_ok nodes (insert_interval I A s l d st)"
    "iroot (insert_interval I A s l d st) =
      interval_tree_insert I \<lparr>iv_addr = a, iv_start = s, iv_last = l, iv_data = d\<rparr> (iroot st)"
    "ilog (insert_interval I A s l d st) = ilog st"
    using insert_ok [OF assms(1), of s l d] by (auto simp: Let_def)
  then show ?thesis
    using insert_last [of "iroot st" "\<lparr>iv_addr = a, iv_start = s, iv_last = l, iv_data = d\<rparr>"] assms(2,3) by auto
qed

lemma test_init_ok:
  assumes ok: "istate_ok nodes st" and empty: "nodes (iroot st) = []"
  shows "interval_tree_test_init I A st = Fault UninitRead"
proof -
  let ?s1 = "insert_interval I A 0 10 1 st"
  let ?s2 = "insert_interval I A 10 20 2 ?s1"
  let ?s3 = "insert_interval I A 20 30 3 ?s2"
  let ?s4 = "insert_interval I A 30 40 4 ?s3"
  let ?s5 = "insert_interval I A 40 50 5 ?s4"
  obtain a1 where s1: "istate_ok nodes ?s1"
    "nodes (iroot ?s1) = [\<lparr>iv_addr = a1, iv_start = 0, iv_last = 10, iv_data = 1\<rparr>]"
    using insert_at_end [OF ok, of 0 10 1] empty by auto
  obtain a2 where s2: "istate_ok nodes ?s2"
    "nodes (iroot ?s2) = nodes (iroot ?s1) @ [\<lparr>iv_addr = a2, iv_start = 10, iv_last = 20, iv_data = 2\<rparr>]"
    using insert_at_end [OF s1(1), of 10 20 2] by (auto simp: s1(2))
  obtain a3 where s3: "istate_ok nodes ?s3"
    "nodes (iroot ?s3) = nodes (iroot ?s2) @ [\<lparr>iv_addr = a3, iv_start = 20, iv_last = 30, iv_data = 3\<rparr>]"
    using insert_at_end [OF s2(1), of 20 30 3, unfolded s1(2) s2(2), simplified] by (auto simp: s1(2) s2(2))
  obtain a4 where s4: "istate_ok nodes ?s4"
    "nodes (iroot ?s4) = nodes (iroot ?s3) @ [\<lparr>iv_addr = a4, iv_start = 30, iv_last = 40, iv_data = 4\<rparr>]"
    using insert_at_end [OF s3(1), of 30 40 4, unfolded s1(2) s2(2) s3(2), simplified] by (auto simp: s1(2) s2(2) s3(2))
  obtain a5 where s5: "istate_ok nodes ?s5"
    "nodes (iroot ?s5) = nodes (iroot ?s4) @ [\<lparr>iv_addr = a5, iv_start = 40, iv_last = 50, iv_data = 5\<rparr>]"
    using insert_at_end [OF s4(1), of 40 50 5, unfolded s1(2) s2(2) s3(2) s4(2), simplified] by (auto simp: s1(2) s2(2) s3(2) s4(2))
  note ns = s1(2) s2(2) s3(2) s4(2) s5(2)
  let ?n2 = "\<lparr>iv_addr = a2, iv_start = 10, iv_last = 20, iv_data = 2\<rparr>"
  have "filter (overlaps 9 15) (nodes (iroot ?s5)) = [\<lparr>iv_addr = a1, iv_start = 0, iv_last = 10, iv_data = 1\<rparr>, ?n2]"
    by (simp add: ns overlaps_def)
  then have srch: "search I 9 15 ?s5 = Ret ?s5 (Ptr ?n2)" using search_ok [OF s5(1)] by (simp add: last_ptr_def)
  obtain r where r: "drop_node I ?n2 ?s5 = Ret r ()" "istate_ok nodes r"
    "nodes (iroot r) = remove1 ?n2 (nodes (iroot ?s5))"
    using drop_ok [OF s5(1), of ?n2] by (auto simp: ns)
  have "remove I 9 15 ?s5 = Ret r ()" using srch r(1) by (simp add: remove_def)
  moreover have rn: "nodes (iroot r) = [\<lparr>iv_addr = a1, iv_start = 0, iv_last = 10, iv_data = 1\<rparr>,
      \<lparr>iv_addr = a3, iv_start = 20, iv_last = 30, iv_data = 3\<rparr>, \<lparr>iv_addr = a4, iv_start = 30, iv_last = 40, iv_data = 4\<rparr>,
      \<lparr>iv_addr = a5, iv_start = 40, iv_last = 50, iv_data = 5\<rparr>]"
    using r(3) by (simp add: ns)
  moreover have "search I s l (r\<lparr>ilog := x\<rparr>) =
      Ret (r\<lparr>ilog := x\<rparr>) (last_ptr (filter (overlaps s l) (nodes (iroot r))))" for s l x
    using search_ok [of "r\<lparr>ilog := x\<rparr>"] r(2) by (simp add: istate_ok_def)
  moreover have "search I 1 10 r = Ret r (last_ptr (filter (overlaps 1 10) (nodes (iroot r))))"
    by (rule search_ok [OF r(2)])
  ultimately show ?thesis
    by (simp add: interval_tree_test_init_def search_print_def overlaps_def last_ptr_def Let_def)
qed

end

text \<open>An instance: a list that is sorted when it is looked at.\<close>

definition sorted_intervals :: "node_value list interval_api" where
  "sorted_intervals = \<lparr>interval_tree_insert = (#), interval_tree_remove = (\<lambda>n r. remove1 n (sort_key iv_start r)),
     interval_tree_iter_first = (\<lambda>r s l. first_of (filter (overlaps s l) (sort_key iv_start r))),
     interval_tree_iter_next = (\<lambda>r n s l. first_of (filter (overlaps s l) (tl (dropWhile (\<lambda>x. x \<noteq> n) (sort_key iv_start r)))))\<rparr>"

lemma dropWhile_neq: "distinct (xs @ n # ys) \<Longrightarrow> dropWhile (\<lambda>x. x \<noteq> n) (xs @ n # ys) = n # ys"
  by (induction xs) auto

interpretation sorted_list: interval_module sorted_intervals "sort_key iv_start" "\<lambda>lv i. Some (Suc (sum_list lv))"
proof unfold_locales
  fix r xs ys :: "node_value list" and n :: node_value and s l :: u64 and lv :: "addr list" and i :: nat and a :: addr
  show "sorted (map iv_start (sort_key iv_start r))" by simp
  show "mset (sort_key iv_start (interval_tree_insert sorted_intervals n r)) = add_mset n (mset (sort_key iv_start r))"
    by (simp add: sorted_intervals_def)
  show "sort_key iv_start (interval_tree_remove sorted_intervals n r) = remove1 n (sort_key iv_start r)"
    by (simp add: sorted_intervals_def sorted_map_remove1 sort_key_id_if_sorted)
  show "interval_tree_iter_first sorted_intervals r s l = first_of (filter (overlaps s l) (sort_key iv_start r))"
    by (simp add: sorted_intervals_def)
  show "interval_tree_iter_next sorted_intervals r n s l = first_of (filter (overlaps s l) ys)"
    if "sort_key iv_start r = xs @ n # ys" "distinct (sort_key iv_start r)"
    using dropWhile_neq [of xs n ys] that(2) unfolding that(1) by (simp add: sorted_intervals_def that(1))
  show "Some (Suc (sum_list lv)) \<noteq> None" by simp
  show "Some (Suc (sum_list lv)) = Some a \<Longrightarrow> a \<notin> set lv" using member_le_sum_list [of a lv] by auto
qed

definition empty_intervals :: "node_value list istate" where
  "empty_intervals = \<lparr>iroot = [], iblocks = [], icalls = 0, ilog = []\<rparr>"

lemma empty_intervals_ok: "istate_ok (sort_key iv_start) empty_intervals"
  by (simp add: istate_ok_def empty_intervals_def)

section \<open>Properties\<close>

text \<open>
  C37. \<open>search\<close> returns the last overlapping interval in the order of the starts; when none overlaps it
  returns a pointer that was never set, so \<open>remove\<close> on such a range uses garbage. Otherwise \<open>remove\<close>
  takes out and frees exactly the interval that \<open>search\<close> finds; \<open>remove_all\<close> ends with an empty tree
  and all nodes freed.
\<close>

theorem interval_tree_ops:
  assumes "interval_trees I nodes" and "istate_ok nodes st"
  shows "let found = filter (overlaps s l) (nodes (iroot st))
    in (if found = []
        then search I s l st = Ret st Uninit \<and> remove I s l st = Fault UninitRead
        else search I s l st = Ret st (Ptr (last found)) \<and>
          (\<exists>st'. remove I s l st = Ret st' () \<and> istate_ok nodes st' \<and>
            nodes (iroot st') = remove1 (last found) (nodes (iroot st)) \<and>
            set (iblocks st') = set (iblocks st) - {iv_addr (last found)})) \<and>
       (\<exists>st'. remove_all I st = Ret st' () \<and> nodes (iroot st') = [] \<and>
          set (iblocks st') = set (iblocks st) - iv_addr ` set (nodes (iroot st)))"
proof -
  define found where "found = filter (overlaps s l) (nodes (iroot st))"
  have srch: "search I s l st = Ret st (last_ptr found)"
    using interval_trees.search_ok [OF assms] by (simp add: found_def)
  have all: "\<exists>st'. remove_all I st = Ret st' () \<and> nodes (iroot st') = [] \<and>
      set (iblocks st') = set (iblocks st) - iv_addr ` set (nodes (iroot st))"
    using interval_trees.remove_all_ok [OF assms] by (auto simp: remove_all_def)
  show ?thesis
  proof (cases "found = []")
    case True
    then show ?thesis using srch all by (simp add: Let_def found_def [symmetric] remove_def last_ptr_def)
  next
    case False
    then have "last found \<in> set (nodes (iroot st))" using last_in_set [OF False] by (auto simp: found_def)
    from interval_trees.drop_ok [OF assms this] srch all False show ?thesis
      by (auto simp: Let_def found_def [symmetric] remove_def last_ptr_def)
  qed
qed

theorem interval_tree_ops_witness:
  "search sorted_intervals 65 75 empty_intervals = Ret empty_intervals Uninit \<and>
   remove sorted_intervals 65 75 empty_intervals = Fault UninitRead"
  using interval_tree_ops [OF sorted_list.interval_trees_axioms empty_intervals_ok, of 65 75]
  by (simp add: empty_intervals_def Let_def)

text \<open>
  The test run that the module does when it is loaded removes the interval from 10 to 20, finds
  the three intervals it asks for, and then uses the uninitialised pointer that the search from
  65 to 75 returns.
\<close>

theorem interval_tree_test_init_faults:
  assumes "interval_module I nodes A" and "istate_ok nodes st" and "nodes (iroot st) = []"
  shows "interval_tree_test_init I A st = Fault UninitRead"
  by (rule interval_module.test_init_ok [OF assms])

end
