(* ===== verification/Dentry_Path.thy ===== *)
theory Dentry_Path
  imports Kernel_Heap
begin

text \<open>
  The absolute path of a directory entry as \<open>src/hook/main.c\<close> and, with the same text,
  \<open>src/hook/khook.c\<close> build it: \<open>build_path\<close> climbs to the root by recursion and appends one name per
  level with \<open>snprintf\<close> to a buffer of \<open>PATH_MAX\<close> bytes. The directory entries are a store, so that
  a chain of parents need not end.
\<close>

section \<open>Model\<close>

definition PATH_MAX :: nat where "PATH_MAX = 4096"

record dentry =
  d_parent :: addr
  d_name :: "byte list"

text \<open>The registers that the handlers of the probes read.\<close>

record pt_regs =
  di :: u64
  si :: u64
  dx :: u64
  cx :: u64
  r8 :: u64
  r10 :: u64
  ax :: u64

type_synonym dcache = "addr \<Rightarrow> dentry"

text \<open>
  The kernel's \<open>snprintf\<close> with \<open>n\<close> bytes of room: the bytes it stores and the length that the whole
  text has. A room that was negative is a \<open>size_t\<close> above \<open>INT_MAX\<close>; \<open>vsnprintf\<close> refuses it with a
  warning, stores nothing and returns 0.
\<close>

definition snprintf :: "int \<Rightarrow> byte list \<Rightarrow> byte list \<times> int" where
  "snprintf n s =
     (if n < 0 then ([], 0)
      else if n = 0 then ([], int (length s))
      else (take (nat n - 1) s @ [0], int (length s)))"

definition append_name :: "byte list \<Rightarrow> byte list \<times> int \<Rightarrow> (byte list \<times> int) option" where
  "append_name name bo =
     (case bo of (buffer, offset) \<Rightarrow>
        (case snprintf (int PATH_MAX - offset) (47 # name) of (s, len) \<Rightarrow>
           if s = [] then Some (buffer, offset + len)
           else map_option (\<lambda>b. (b, offset + len)) (mem_store buffer (nat offset) s)))"

text \<open>The outer option is the end of the recursion, the inner one an access outside the buffer.\<close>

partial_function (option) build_path :: "dcache \<Rightarrow> addr \<Rightarrow> byte list \<times> int \<Rightarrow> (byte list \<times> int) option option" where
  "build_path dc d bo =
     (if d = 0 \<or> d = d_parent (dc d) then Some (Some bo)
      else Option.bind (build_path dc (d_parent (dc d)) bo)
             (\<lambda>r. case r of None \<Rightarrow> Some None | Some bo1 \<Rightarrow> Some (append_name (d_name (dc d)) bo1)))"

text \<open>
  \<open>garbage\<close> is what \<open>kmalloc\<close> leaves in a new block. The result is the address of the buffer with its
  contents.
\<close>

definition get_absolute_path :: "addr_alloc \<Rightarrow> (addr \<Rightarrow> byte list) \<Rightarrow> dcache \<Rightarrow> addr \<Rightarrow> 'z heap_scheme \<Rightarrow>
    ('z heap_scheme, (addr \<times> byte list) option) run" where
  "get_absolute_path A garbage dc d h =
     (case halloc A h of
        (None, h1) \<Rightarrow> Ret h1 None
      | (Some a, h1) \<Rightarrow>
          (case build_path dc d (garbage a, 0) of
             None \<Rightarrow> Block h1
           | Some None \<Rightarrow> Fault OutOfBounds
           | Some (Some (buffer, _)) \<Rightarrow> Ret h1 (Some (a, buffer))))"

section \<open>Lemmas\<close>

text \<open>The names on the way from the root to a directory entry; the root contributes none.\<close>

inductive path_names :: "dcache \<Rightarrow> addr \<Rightarrow> byte list list \<Rightarrow> bool" for dc :: dcache where
  root: "d = 0 \<or> d_parent (dc d) = d \<Longrightarrow> path_names dc d []"
| child: "d \<noteq> 0 \<Longrightarrow> d_parent (dc d) \<noteq> d \<Longrightarrow> path_names dc (d_parent (dc d)) ns \<Longrightarrow>
    path_names dc d (ns @ [d_name (dc d)])"

inductive_cases path_names_NilE: "path_names dc d []"

definition path_text :: "byte list list \<Rightarrow> byte list" where
  "path_text ns = concat (map ((#) 47) ns)"

lemma path_text_simps [simp]: "path_text [] = []" "path_text (ns @ [n]) = path_text ns @ 47 # n"
  by (simp_all add: path_text_def)

lemma path_text_empty [simp]: "path_text ns = [] \<longleftrightarrow> ns = []"
  by (cases ns rule: rev_cases) simp_all

lemma path_text_zero: "0 \<in> set (path_text ns) \<longleftrightarrow> (\<exists>n\<in>set ns. 0 \<in> set n)"
  by (induction ns rule: rev_induct) auto

text \<open>What the buffer holds when the text \<open>p\<close> has been written to a block that held \<open>g\<close>.\<close>

definition built :: "byte list \<Rightarrow> byte list \<Rightarrow> byte list \<times> int \<Rightarrow> bool" where
  "built g p bo \<longleftrightarrow> (case bo of (b, off) \<Rightarrow>
     length b = length g \<and>
     (if p = [] then b = g else take (min 4095 (length p)) b = take 4095 p \<and> b ! min 4095 (length p) = 0) \<and>
     (if length p \<le> 4096 then off = int (length p) else 4096 < off))"

lemma append_name_built:
  assumes b: "built g p (b, off)" and g: "4096 \<le> length g"
  shows "\<exists>bo. append_name n (b, off) = Some bo \<and> built g (p @ 47 # n) bo"
proof (cases "length p < 4096")
  case True
  let ?s = "take (4096 - length p - 1) (47 # n) @ [0]"
  have off: "off = int (length p)" and len: "length b = length g"
    using b True by (auto simp: built_def)
  have "snprintf (4096 - off) (47 # n) = (?s, int (Suc (length n)))"
    using True off by (simp add: snprintf_def nat_diff_distrib)
  moreover have fits: "length p + length ?s \<le> length b" using True g len by simp
  ultimately have "append_name n (b, off) = Some (take (length p) b @ ?s @ drop (length p + length ?s) b, off + int (Suc (length n)))"
    using off by (simp add: append_name_def PATH_MAX_def mem_store_def del: take_Suc_Cons)
  moreover have pre: "take (length p) b = p"
    using b True by (cases "p = []") (auto simp: built_def)
  moreover have "min 4095 (length p + Suc (length n)) = length p + length (take (4096 - length p - 1) (47 # n))"
    using True by simp
  moreover have "take 4095 (p @ 47 # n) = p @ take (4096 - length p - 1) (47 # n)"
    using True by (simp del: take_Suc_Cons)
  moreover have "(off + int (Suc (length n)) = int (length p + Suc (length n)))" using off by simp
  moreover have "take (min (Suc (length n)) (4095 - length p)) (47 # n) = take (4095 - length p) (47 # n)"
    by (simp add: min_def del: take_Suc_Cons)
  moreover have "Suc (length g - Suc 0) = length g" using g by simp
  ultimately show ?thesis
    using fits len by (simp add: built_def nth_append del: take_Suc_Cons)
next
  case False
  then have p: "p \<noteq> []" "\<not> length p < 4096" by auto
  have k: "min 4095 (length (p @ 47 # n)) = min 4095 (length p)" "take 4095 (p @ 47 # n) = take 4095 p"
    using False by (simp_all add: min_def)
  have a: "append_name n (b, off) = Some (b, off + snd (snprintf (4096 - off) (47 # n)))"
    "0 \<le> snd (snprintf (4096 - off) (47 # n))" "off = 4096 \<Longrightarrow> 0 < snd (snprintf (4096 - off) (47 # n))"
    using b False by (auto simp: built_def append_name_def snprintf_def PATH_MAX_def split: if_splits)
  have "4096 < off + snd (snprintf (4096 - off) (47 # n))"
    using a(2,3) b False by (cases "length p = 4096") (auto simp: built_def)
  then show ?thesis
    using a(1) b p unfolding built_def by (simp add: k)
qed

lemma build_path_built:
  assumes "path_names dc d ns" and g: "4096 \<le> length g"
  shows "\<exists>bo. build_path dc d (g, 0) = Some (Some bo) \<and> built g (path_text ns) bo"
  using assms(1)
proof induction
  case (root d)
  then show ?case by (subst build_path.simps) (auto simp: built_def)
next
  case (child d ns)
  then obtain b off where "build_path dc (d_parent (dc d)) (g, 0) = Some (Some (b, off))" "built g (path_text ns) (b, off)"
    by auto
  moreover obtain bo where "append_name (d_name (dc d)) (b, off) = Some bo" "built g (path_text ns @ 47 # d_name (dc d)) bo"
    using append_name_built [OF calculation(2) g] by blast
  ultimately show ?case using child.hyps by (subst build_path.simps) auto
qed

lemma built_cstr:
  assumes "built g p (b, off)" "p \<noteq> []" "0 \<notin> set p" "4096 \<le> length g"
  shows "has_nul b \<and> cstr b = take 4095 p"
proof -
  let ?k = "min 4095 (length p)"
  have b: "take ?k b = take 4095 p" "b ! ?k = 0" "length b = length g" using assms by (auto simp: built_def)
  have k: "?k < length b" using assms(4) b(3) by simp
  have "0 \<notin> set (take ?k b)" using b(1) assms(3) by (metis in_set_takeD)
  then have "cstr b = take ?k b" using cstr_at [of ?k b] k b(2) by blast
  then show ?thesis using b k nth_mem [OF k] by (simp add: has_nul_def)
qed

locale path_alloc = fresh_alloc A for A :: addr_alloc +
  fixes garbage :: "addr \<Rightarrow> byte list"
  assumes alloc_len: "A lv i = Some a \<Longrightarrow> PATH_MAX \<le> length (garbage a)"
begin

lemma get_absolute_path_ok:
  assumes "path_names dc d ns" and "\<forall>n\<in>set ns. 0 \<notin> set n"
  shows "case A (hblocks h) (hcalls h) of
      None \<Rightarrow> get_absolute_path A garbage dc d h = Ret (snd (halloc A h)) None
    | Some a \<Rightarrow> a \<notin> set (hblocks h) \<and> (\<exists>b. get_absolute_path A garbage dc d h = Ret (snd (halloc A h)) (Some (a, b)) \<and>
        PATH_MAX \<le> length b \<and> (if ns = [] then b = garbage a else has_nul b \<and> cstr b = take 4095 (path_text ns)))"
proof (cases "A (hblocks h) (hcalls h)")
  case None
  then show ?thesis by (simp add: get_absolute_path_def halloc_def)
next
  case (Some a)
  have g: "4096 \<le> length (garbage a)" using alloc_len [OF Some] by (simp add: PATH_MAX_def)
  obtain b off where b: "build_path dc d (garbage a, 0) = Some (Some (b, off))" "built (garbage a) (path_text ns) (b, off)"
    using build_path_built [OF assms(1) g] by auto
  have "if ns = [] then b = garbage a else has_nul b \<and> cstr b = take 4095 (path_text ns)"
    using b(2) built_cstr [OF b(2)] g assms(2) path_text_zero [of ns] by (auto simp: built_def)
  then show ?thesis
    using Some b(1) alloc_fresh [OF Some] b(2) g
    by (simp add: get_absolute_path_def halloc_def built_def PATH_MAX_def)
qed

end

text \<open>The allocator of the least unused address, with blocks full of the byte 165.\<close>

definition poison :: "addr \<Rightarrow> byte list" where
  "poison a = replicate 4096 165"

interpretation poisoned: path_alloc next_addr poison
  by unfold_locales (auto simp: next_addr_fresh poison_def PATH_MAX_def)

end
