(* ===== verification/Khook.thy ===== *)
theory Khook
  imports Dentry_Path Search_Tree
begin

text \<open>
  The return probe on \<open>path_mount\<close> of \<open>src/hook/khook.c\<close>. The entry handler stores the arguments of
  a mount in a search tree under the address of the probe instance; the return handler takes them
  out again and logs them. The heap is a list of live blocks, so that leaks and double frees show.
\<close>

section \<open>Model\<close>

record mount_params =
  dev_name :: "byte list"
  dir_name :: "byte list"
  fs_type :: "byte list"
  flags :: u64

record my_entry =
  node :: addr
  key :: u64
  params :: addr

record probe_pool = heap +
  pool :: "addr option"
  root :: "my_entry tree"
  lock :: bool
  params_at :: "addr \<Rightarrow> mount_params"
  dmesg :: "klog list"

text \<open>
  What the handlers use of the kernel: the red-black trees, \<open>kmalloc\<close>, the directory entries, the
  bytes readable at an address (none at the null pointer) and the entry that a path refers to.
\<close>

record kernel =
  rb :: "my_entry rb_api"
  alloc :: addr_alloc
  garbage :: "addr \<Rightarrow> byte list"
  dentries :: dcache
  kstring :: "u64 \<Rightarrow> byte list option"
  path_dentry :: "u64 \<Rightarrow> addr option"

definition pt_regs_params :: "pt_regs \<Rightarrow> nat \<Rightarrow> u64" where
  "pt_regs_params regs idx =
     (if idx = 0 then di regs else if idx = 1 then si regs else if idx = 2 then dx regs
      else if idx = 3 then r10 regs else if idx = 4 then r8 regs else 0)"

definition probe_pool_init :: "probe_pool \<Rightarrow> probe_pool" where
  "probe_pool_init st = st\<lparr>root := Leaf, lock := False\<rparr>"

partial_function (option) clear_loop :: "kernel \<Rightarrow> probe_pool \<Rightarrow> (probe_pool, unit) run option" where
  "clear_loop K st =
     (case rb_first (rb K) (root st) of
        None \<Rightarrow> Some (Ret st ())
      | Some e \<Rightarrow>
          (case hfree (node e) (st\<lparr>root := rb_erase (rb K) e (root st)\<rparr>) of
             Ret st1 _ \<Rightarrow> clear_loop K st1
           | Block st1 \<Rightarrow> Some (Block st1)
           | Fault f \<Rightarrow> Some (Fault f)))"

definition probe_pool_clear :: "kernel \<Rightarrow> probe_pool \<Rightarrow> (probe_pool, unit) run" where
  "probe_pool_clear K st =
     (if lock st then Block st
      else case clear_loop K (st\<lparr>lock := True\<rparr>) of
        None \<Rightarrow> Block st
      | Some r \<Rightarrow> run_bind r (\<lambda>st1 _. Ret (st1\<lparr>lock := False\<rparr>) ()))"

definition insert_node :: "kernel \<Rightarrow> u64 \<Rightarrow> addr \<Rightarrow> probe_pool \<Rightarrow> (probe_pool, int) run" where
  "insert_node K k p st =
     (case find_slot key k (root st) of
        None \<Rightarrow> Ret st (- EEXIST)
      | Some new \<Rightarrow>
          (case halloc (alloc K) st of
             (None, _) \<Rightarrow> Fault NullDeref
           | (Some a, st1) \<Rightarrow>
               Ret (st1\<lparr>root := rb_insert_color (rb K) (rb_link_node \<lparr>node = a, key = k, params = p\<rparr> new (root st1))\<rparr>) 0))"

definition search_node :: "u64 \<Rightarrow> probe_pool \<Rightarrow> my_entry option" where
  "search_node k st = tree_search key k (root st)"

definition pop_node :: "kernel \<Rightarrow> u64 \<Rightarrow> probe_pool \<Rightarrow> (probe_pool, addr option) run" where
  "pop_node K k st =
     (case search_node k st of
        None \<Rightarrow> Ret st None
      | Some e \<Rightarrow> run_bind (hfree (node e) (st\<lparr>root := rb_erase (rb K) e (root st)\<rparr>))
                    (\<lambda>st1 _. Ret st1 (Some (params e))))"

definition insert_params :: "kernel \<Rightarrow> u64 \<Rightarrow> addr \<Rightarrow> probe_pool \<Rightarrow> (probe_pool, int) run" where
  "insert_params K k p st =
     (if pool st = None then Fault NullDeref
      else if lock st then Block st
      else run_bind (insert_node K k p (st\<lparr>lock := True\<rparr>)) (\<lambda>st1 _. Ret (st1\<lparr>lock := False\<rparr>) 0))"

definition pop_params :: "kernel \<Rightarrow> u64 \<Rightarrow> probe_pool \<Rightarrow> (probe_pool, addr option) run" where
  "pop_params K k st =
     (if pool st = None then Fault NullDeref
      else if lock st then Block st
      else run_bind (pop_node K k (st\<lparr>lock := True\<rparr>)) (\<lambda>st1 p. Ret (st1\<lparr>lock := False\<rparr>) p))"

text \<open>
  A string in a block of parameters is read up to the first zero byte, beyond its array into the
  rest of the structure if it has none.
\<close>

definition params_bytes :: "mount_params \<Rightarrow> byte list" where
  "params_bytes mp = dev_name mp @ dir_name mp @ fs_type mp @ map (\<lambda>i. ucast (drop_bit (8 * i) (flags mp))) [0..<8]"

definition params_str :: "nat \<Rightarrow> mount_params \<Rightarrow> byte list option" where
  "params_str off mp = (let b = drop off (params_bytes mp) in if has_nul b then Some (cstr b) else None)"

text \<open>The stores of the entry handler when there is memory for the parameters.\<close>

definition record_mount :: "kernel \<Rightarrow> u64 \<Rightarrow> pt_regs \<Rightarrow> addr \<Rightarrow> probe_pool \<Rightarrow> (probe_pool, unit) run" where
  "record_mount K ri regs p st =
     (case kstring K (pt_regs_params regs 0) of None \<Rightarrow> Fault NullDeref | Some s \<Rightarrow>
      case strncpy s 256 of None \<Rightarrow> Fault OutOfBounds | Some dev \<Rightarrow>
      case path_dentry K (pt_regs_params regs 1) of None \<Rightarrow> Fault NullDeref | Some d \<Rightarrow>
      run_bind (get_absolute_path (alloc K) (garbage K) (dentries K) d st) (\<lambda>st1 buffer.
        case buffer of None \<Rightarrow> Fault NullDeref | Some (_, b) \<Rightarrow>
        case strncpy b 256 of None \<Rightarrow> Fault OutOfBounds | Some dir \<Rightarrow>
        case kstring K (pt_regs_params regs 2) of None \<Rightarrow> Fault NullDeref | Some t \<Rightarrow>
        case strncpy t 64 of None \<Rightarrow> Fault OutOfBounds | Some type \<Rightarrow>
        let mp = \<lparr>dev_name = dev, dir_name = dir, fs_type = type, flags = pt_regs_params regs 3\<rparr>
        in run_bind (insert_params K ri p (st1\<lparr>params_at := (params_at st1)(p := mp)\<rparr>)) (\<lambda>st2 _. Ret st2 ())))"

definition entry_handler :: "kernel \<Rightarrow> u64 \<Rightarrow> pt_regs option \<Rightarrow> probe_pool \<Rightarrow> (probe_pool, int) run" where
  "entry_handler K ri regs st =
     (case halloc (alloc K) st of (p, st0) \<Rightarrow>
      let st1 = st0\<lparr>dmesg := dmesg st0 @ [LogInt (uint ri)]\<rparr>
      in case regs of None \<Rightarrow> Ret st1 0 | Some r \<Rightarrow>
         run_bind (case p of Some a \<Rightarrow> if ri > 0 then record_mount K ri r a st1 else Ret st1 () | None \<Rightarrow> Ret st1 ())
           (\<lambda>st2 _. case p of None \<Rightarrow> Fault NullDeref | Some a \<Rightarrow>
              if ri = 0 then Fault UninitRead
              else case params_str 256 (params_at st2 a) of None \<Rightarrow> Fault OutOfBounds | Some dir \<Rightarrow>
                   case kstring K (pt_regs_params r 0) of
                     None \<Rightarrow> Ret (st2\<lparr>dmesg := dmesg st2 @ [LogNull, LogStr dir]\<rparr>) 0
                   | Some s \<Rightarrow> if has_nul s then Ret (st2\<lparr>dmesg := dmesg st2 @ [LogStr (cstr s), LogStr dir]\<rparr>) 0
                               else Fault OutOfBounds))"

definition params_log :: "mount_params \<Rightarrow> klog list option" where
  "params_log mp =
     (case (params_str 0 mp, params_str 256 mp, params_str 512 mp) of
        (Some dev, Some dir, Some type) \<Rightarrow> Some [LogStr dev, LogStr dir, LogStr type, LogInt (uint (flags mp))]
      | _ \<Rightarrow> None)"

definition ret_handler :: "kernel \<Rightarrow> u64 \<Rightarrow> pt_regs option \<Rightarrow> probe_pool \<Rightarrow> (probe_pool, int) run" where
  "ret_handler K ri regs st =
     (case regs of None \<Rightarrow> Fault NullDeref | Some r \<Rightarrow>
      run_bind (pop_params K ri st) (\<lambda>st1 p.
        let st2 = st1\<lparr>dmesg := dmesg st1 @ [LogInt (sint (ucast (ax r) :: 32 word)), LogInt (uint ri)]\<rparr>
        in case p of None \<Rightarrow> Ret st2 0 | Some a \<Rightarrow>
           if a \<notin> set (hblocks st2) then Fault UseAfterFree
           else case params_log (params_at st2 a) of None \<Rightarrow> Fault OutOfBounds | Some l \<Rightarrow>
                run_bind (hfree a (st2\<lparr>dmesg := dmesg st2 @ l\<rparr>)) (\<lambda>st3 _. Ret st3 0)))"

text \<open>\<open>registered\<close> is the result of \<open>register_kretprobe\<close>.\<close>

definition hook_init :: "kernel \<Rightarrow> int \<Rightarrow> probe_pool \<Rightarrow> (probe_pool, int) run" where
  "hook_init K registered st =
     (case halloc (alloc K) st of
        (None, _) \<Rightarrow> Fault NullDeref
      | (Some a, st1) \<Rightarrow>
          let st2 = probe_pool_init (st1\<lparr>pool := Some a\<rparr>)
          in if registered \<noteq> 0 then Ret (st2\<lparr>dmesg := dmesg st2 @ [LogInt registered]\<rparr>) (- EINVAL)
             else Ret (st2\<lparr>dmesg := dmesg st2 @ [LogInt 4096, LogInt 512, LogInt 8]\<rparr>) 0)"

definition hook_exit :: "kernel \<Rightarrow> probe_pool \<Rightarrow> (probe_pool, unit) run" where
  "hook_exit K st =
     (case pool st of None \<Rightarrow> Fault NullDeref | Some a \<Rightarrow>
      run_bind (probe_pool_clear K st) (\<lambda>st1 _. hfree a st1))"

section \<open>Invariant and abstraction\<close>

text \<open>The three strings of a block of parameters end within their arrays.\<close>

definition terminated :: "mount_params \<Rightarrow> bool" where
  "terminated mp \<longleftrightarrow> length (dev_name mp) = 256 \<and> length (dir_name mp) = 256 \<and> length (fs_type mp) = 64 \<and>
     has_nul (dev_name mp) \<and> has_nul (dir_name mp) \<and> has_nul (fs_type mp)"

definition owned :: "my_entry set \<Rightarrow> addr set" where
  "owned es = node ` es \<union> params ` es"

definition pool_ok :: "probe_pool \<Rightarrow> bool" where
  "pool_ok st \<longleftrightarrow> search_tree key (root st) \<and> \<not> lock st \<and> distinct (hblocks st) \<and>
     inj_on node (set_tree (root st)) \<and> inj_on params (set_tree (root st)) \<and>
     node ` set_tree (root st) \<inter> params ` set_tree (root st) = {} \<and>
     owned (set_tree (root st)) \<subseteq> set (hblocks st) \<and>
     (\<exists>a. pool st = Some a \<and> a \<in> set (hblocks st) - owned (set_tree (root st))) \<and>
     (\<forall>e\<in>set_tree (root st). terminated (params_at st (params e)))"

text \<open>What a mount was called with, as strings, and the mounts that are under way.\<close>

record mount_call =
  m_dev :: "byte list"
  m_dir :: "byte list"
  m_type :: "byte list"
  m_flags :: u64

definition call_of :: "mount_params \<Rightarrow> mount_call" where
  "call_of mp = \<lparr>m_dev = cstr (dev_name mp), m_dir = cstr (dir_name mp), m_type = cstr (fs_type mp), m_flags = flags mp\<rparr>"

definition active :: "probe_pool \<Rightarrow> u64 \<rightharpoonup> mount_call" where
  "active st k = map_option (\<lambda>e. call_of (params_at st (params e))) (search_node k st)"

text \<open>The registers at a probed call, and what the called function gets: readable strings that fit.\<close>

definition call_ok :: "kernel \<Rightarrow> pt_regs \<Rightarrow> mount_call \<Rightarrow> bool" where
  "call_ok K r c \<longleftrightarrow>
     (\<exists>s t d ns. kstring K (di r) = Some s \<and> has_nul s \<and> cstr s = m_dev c \<and> length (m_dev c) < 256 \<and>
        path_dentry K (si r) = Some d \<and> path_names (dentries K) d ns \<and> ns \<noteq> [] \<and> (\<forall>n\<in>set ns. 0 \<notin> set n) \<and>
        path_text ns = m_dir c \<and> length (m_dir c) < 256 \<and>
        kstring K (dx r) = Some t \<and> has_nul t \<and> cstr t = m_type c \<and> length (m_type c) < 64 \<and> m_flags c = r10 r)"

text \<open>A history of handler calls, and what it should do to the mounts under way, the log and the leaks.\<close>

datatype probe_event = Enter u64 pt_regs | Return u64 pt_regs

fun handle :: "kernel \<Rightarrow> probe_event \<Rightarrow> probe_pool \<Rightarrow> (probe_pool, int) run" where
  "handle K (Enter ri r) st = entry_handler K ri (Some r) st"
| "handle K (Return ri r) st = ret_handler K ri (Some r) st"

fun handle_all :: "kernel \<Rightarrow> probe_event list \<Rightarrow> probe_pool \<Rightarrow> (probe_pool, unit) run" where
  "handle_all K [] st = Ret st ()"
| "handle_all K (ev # evs) st = run_bind (handle K ev st) (\<lambda>st1 _. handle_all K evs st1)"

type_synonym mounts = "(u64 \<rightharpoonup> mount_call) \<times> klog list \<times> int"

definition call_log :: "mount_call \<Rightarrow> klog list" where
  "call_log c = [LogStr (m_dev c), LogStr (m_dir c), LogStr (m_type c), LogInt (uint (m_flags c))]"

fun spec_event :: "(pt_regs \<Rightarrow> mount_call) \<Rightarrow> probe_event \<Rightarrow> mounts \<Rightarrow> mounts" where
  "spec_event call (Enter ri r) (m, l, n) =
     (let l' = l @ [LogInt (uint ri), LogStr (m_dev (call r)), LogStr (m_dir (call r))]
      in if m ri = None then (m(ri \<mapsto> call r), l', n + 1) else (m, l', n + 2))"
| "spec_event call (Return ri r) (m, l, n) =
     (m(ri := None), l @ [LogInt (sint (ucast (ax r) :: 32 word)), LogInt (uint ri)] @
        (case m ri of None \<Rightarrow> [] | Some c \<Rightarrow> call_log c), n)"

fun event_ok :: "kernel \<Rightarrow> (pt_regs \<Rightarrow> mount_call) \<Rightarrow> probe_event \<Rightarrow> bool" where
  "event_ok K call (Enter ri r) \<longleftrightarrow> ri > 0 \<and> call_ok K r (call r)"
| "event_ok K call (Return ri r) \<longleftrightarrow> True"

text \<open>The blocks that neither the pool nor an entry in it accounts for.\<close>

definition leaked :: "probe_pool \<Rightarrow> int" where
  "leaked st = int (length (hblocks st)) - 1 - 2 * int (card (set_tree (root st)))"

definition abs_pool :: "probe_pool \<Rightarrow> mounts" where
  "abs_pool st = (active st, dmesg st, leaked st)"

section \<open>Strings\<close>

lemma has_nul_append [simp]: "has_nul (a @ b) \<longleftrightarrow> has_nul a \<or> has_nul b"
  by (auto simp: has_nul_def)

lemma cstr_append_nul: "has_nul a \<Longrightarrow> cstr (a @ b) = cstr a"
  by (auto simp: cstr_def has_nul_def takeWhile_append1)

lemma params_str_terminated:
  assumes "terminated mp"
  shows "params_str 0 mp = Some (cstr (dev_name mp))" "params_str 256 mp = Some (cstr (dir_name mp))"
    "params_str 512 mp = Some (cstr (fs_type mp))"
  using assms by (simp_all add: params_str_def params_bytes_def terminated_def Let_def cstr_append_nul)

lemma strncpy_cstr: "has_nul b \<Longrightarrow> strncpy b n = strncpy (cstr b @ [0]) n"
  by (induction b n rule: strncpy.induct) (auto simp: cstr_def has_nul_def)

lemma zero_not_in_cstr: "0 \<notin> set (cstr b)"
  by (auto simp: cstr_def dest: set_takeWhileD)

lemma strncpy_short:
  assumes "has_nul b" and "length (cstr b) < n"
  shows "\<exists>x. strncpy b n = Some x \<and> length x = n \<and> has_nul x \<and> cstr x = cstr b"
proof -
  obtain k where k: "n - length (cstr b) = Suc k" using assms(2) by (metis Suc_diff_Suc)
  have "strncpy b n = Some (cstr b @ replicate (n - length (cstr b)) 0)"
    using strncpy_cstr [OF assms(1)] strncpy_pad [OF zero_not_in_cstr, of b n] assms(2) by simp
  moreover have "cstr (cstr b @ replicate (n - length (cstr b)) 0) = cstr b"
    using cstr_append [OF zero_not_in_cstr, of b] k by simp
  ultimately show ?thesis using assms(2) k by (auto simp: has_nul_def)
qed

section \<open>The pool\<close>

lemma open_unlocked: "pool_ok st \<Longrightarrow> pool st \<noteq> None \<and> \<not> lock st \<and> st\<lparr>lock := False\<rparr> = st"
  by (cases st) (auto simp: pool_ok_def)

lemma active_Some:
  "pool_ok st \<Longrightarrow> active st k = Some c \<longleftrightarrow>
     (\<exists>e\<in>set_tree (root st). key e = k \<and> call_of (params_at st (params e)) = c)"
  using tree_search_Some [of key "root st" k] by (auto simp: active_def search_node_def pool_ok_def)

lemma active_None: "pool_ok st \<Longrightarrow> active st k = None \<longleftrightarrow> k \<notin> key ` set_tree (root st)"
  using tree_search_None [of key "root st" k] by (simp add: active_def search_node_def pool_ok_def)

lemma active_eqI:
  assumes "pool_ok st"
    and "\<And>k c. m k = Some c \<longleftrightarrow> (\<exists>e\<in>set_tree (root st). key e = k \<and> call_of (params_at st (params e)) = c)"
  shows "active st = m"
proof
  fix k
  have "active st k = Some c \<longleftrightarrow> m k = Some c" for c using active_Some [OF assms(1)] assms(2) by blast
  then show "active st k = m k" by (metis not_Some_eq)
qed

lemma dmesg_frame [simp]:
  "pool_ok (st\<lparr>dmesg := l\<rparr>) = pool_ok st" "active (st\<lparr>dmesg := l\<rparr>) = active st" "leaked (st\<lparr>dmesg := l\<rparr>) = leaked st"
  by (simp_all add: pool_ok_def leaked_def active_def search_node_def fun_eq_iff)

text \<open>Taking a block that the pool does not own, changing its contents, and giving it back.\<close>

lemma take_block:
  fixes n :: nat
  assumes "pool_ok st" and "a \<notin> set (hblocks st)"
  defines "st' \<equiv> st\<lparr>hcalls := n, hblocks := a # hblocks st\<rparr>"
  shows "pool_ok st'" "active st' = active st" "leaked st' = leaked st + 1"
    "a \<notin> owned (set_tree (root st'))" "pool st' \<noteq> Some a"
  using assms by (auto simp: pool_ok_def leaked_def active_def search_node_def fun_eq_iff)

lemma set_params:
  fixes mp :: mount_params
  assumes "pool_ok st" and "a \<notin> owned (set_tree (root st))"
  defines "st' \<equiv> st\<lparr>params_at := (params_at st)(a := mp)\<rparr>"
  shows "pool_ok st'" "active st' = active st" "leaked st' = leaked st"
proof -
  have ne: "params e \<noteq> a" if "e \<in> set_tree (root st)" for e using assms(2) that by (auto simp: owned_def)
  show ok: "pool_ok st'" using assms(1) ne by (auto simp: pool_ok_def st'_def)
  show "leaked st' = leaked st" by (simp add: leaked_def st'_def)
  show "active st' = active st"
    by (rule active_eqI [OF ok]) (use ne in \<open>auto simp: active_Some [OF assms(1)] st'_def\<close>)
qed

lemma give_block:
  assumes ok: "pool_ok st" and a: "a \<in> set (hblocks st)" "a \<notin> owned (set_tree (root st))" "pool st \<noteq> Some a"
  shows "\<exists>st'. hfree a st = Ret st' () \<and> pool_ok st' \<and> active st' = active st \<and> leaked st' = leaked st - 1 \<and>
    dmesg st' = dmesg st"
proof -
  let ?st = "st\<lparr>hblocks := remove1 a (hblocks st)\<rparr>"
  have d: "distinct (hblocks st)" using ok by (simp add: pool_ok_def)
  then have "set (remove1 a (hblocks st)) = set (hblocks st) - {a}" by simp
  then have "pool_ok ?st" using ok a(2,3) d by (auto simp: pool_ok_def)
  moreover have "leaked ?st = leaked st - 1" using length_remove1_int [OF a(1)] by (simp add: leaked_def)
  moreover have "active ?st = active st" by (simp add: active_def search_node_def fun_eq_iff)
  ultimately show ?thesis using a(1) by (simp add: hfree_def)
qed

text \<open>The contract of the kernel; memory does not run out.\<close>

locale khook_kernel = rb_tree "rb K" + path_alloc "alloc K" "garbage K" + total_alloc "alloc K" for K :: kernel
begin

lemma insert_params_new:
  assumes ok: "pool_ok st" and new: "active st k = None" and p: "p \<in> set (hblocks st)" "p \<notin> owned (set_tree (root st))"
    "pool st \<noteq> Some p" "terminated (params_at st p)"
  shows "\<exists>st'. insert_params K k p st = Ret st' 0 \<and> pool_ok st' \<and> active st' = (active st)(k \<mapsto> call_of (params_at st p)) \<and>
    leaked st' = leaked st - 1 \<and> dmesg st' = dmesg st \<and> params_at st' = params_at st"
proof -
  have s: "search_tree key (root st)" using ok by (simp add: pool_ok_def)
  have nk: "k \<notin> key ` set_tree (root st)" using active_None [OF ok] new by blast
  then obtain slot where slot: "find_slot key k (root st) = Some slot" using find_slot_None [OF s, of k] by auto
  obtain a where a: "a \<notin> set (hblocks st)"
    "halloc (alloc K) (st\<lparr>lock := True\<rparr>) = (Some a, st\<lparr>lock := True, hcalls := Suc (hcalls st), hblocks := a # hblocks st\<rparr>)"
    using halloc_Some [of "st\<lparr>lock := True\<rparr>"] by auto
  define e where "e = \<lparr>node = a, key = k, params = p\<rparr>"
  have e: "node e = a" "key e = k" "params e = p" by (simp_all add: e_def)
  let ?t = "rb_insert_color (rb K) (rb_link_node e slot (root st))"
  let ?st = "st\<lparr>lock := False, hcalls := Suc (hcalls st), hblocks := a # hblocks st, root := ?t\<rparr>"
  have "find_slot key (key e) (root st) = Some slot" using slot by (simp add: e)
  then have t: "search_tree key ?t" "set_tree ?t = insert e (set_tree (root st))"
    using link_search_tree [OF s] by (simp_all add: color_ok)
  have "pool st \<noteq> None" "\<not> lock st" using ok by (auto simp: pool_ok_def)
  then have run: "insert_params K k p st = Ret ?st 0"
    using slot a(2) by (simp add: insert_params_def insert_node_def e_def [symmetric])
  have fresh: "a \<notin> owned (set_tree (root st))" using ok a(1) by (auto simp: pool_ok_def)
  have ap: "a \<noteq> p" using a(1) p(1) by blast
  have "inj_on node (insert e (set_tree (root st)))" "inj_on params (insert e (set_tree (root st)))"
    using ok fresh p(2) by (auto simp: pool_ok_def owned_def e)
  moreover have "node ` insert e (set_tree (root st)) \<inter> params ` insert e (set_tree (root st)) = {}"
    using ok fresh p(2) ap by (auto simp: pool_ok_def owned_def e)
  moreover have "owned (insert e (set_tree (root st))) = insert a (insert p (owned (set_tree (root st))))"
    by (auto simp: owned_def e)
  moreover obtain q where "pool st = Some q" "q \<in> set (hblocks st)" "q \<notin> owned (set_tree (root st))" "q \<noteq> p" "q \<noteq> a"
    using ok p(3) a(1) by (auto simp: pool_ok_def)
  ultimately have pok: "pool_ok ?st" using ok a(1) p t by (auto simp: pool_ok_def e)
  moreover have "active ?st = (active st)(k \<mapsto> call_of (params_at st p))"
    by (rule active_eqI [OF pok]) (use nk in \<open>auto simp: t(2) e active_Some [OF ok]\<close>)
  moreover have "e \<notin> set_tree (root st)" using nk e(2) by force
  then have "card (set_tree ?t) = Suc (card (set_tree (root st)))" unfolding t(2) by simp
  ultimately show ?thesis using run by (simp add: leaked_def)
qed

lemma insert_params_old:
  assumes ok: "pool_ok st" and "active st k \<noteq> None"
  shows "insert_params K k p st = Ret st 0"
proof -
  have s: "search_tree key (root st)" using ok by (simp add: pool_ok_def)
  have "k \<in> key ` set_tree (root st)" using active_None [OF ok, of k] assms(2) by simp
  then have "find_slot key k (root st) = None" using find_slot_None [OF s, of k] by simp
  then show ?thesis using open_unlocked [OF ok] by (simp add: insert_params_def insert_node_def)
qed

lemma pop_params_none: "pool_ok st \<Longrightarrow> active st k = None \<Longrightarrow> pop_params K k st = Ret st None"
  using open_unlocked [of st] by (simp add: pop_params_def pop_node_def active_def search_node_def)

lemma pop_params_some:
  assumes ok: "pool_ok st" and act: "active st k = Some c"
  shows "\<exists>st' p. pop_params K k st = Ret st' (Some p) \<and> pool_ok st' \<and> active st' = (active st)(k := None) \<and>
    p \<in> set (hblocks st') \<and> p \<notin> owned (set_tree (root st')) \<and> pool st' \<noteq> Some p \<and>
    terminated (params_at st' p) \<and> call_of (params_at st' p) = c \<and> leaked st' = leaked st + 1 \<and> dmesg st' = dmesg st"
proof -
  have s: "search_tree key (root st)" using ok by (simp add: pool_ok_def)
  obtain e where e: "search_node k st = Some e" "call_of (params_at st (params e)) = c"
    using act by (auto simp: active_def)
  then have e': "e \<in> set_tree (root st)" "key e = k" using tree_search_Some [OF s] by (auto simp: search_node_def)
  note t = erase_ok [OF s e'(1)]
  let ?t = "rb_erase (rb K) e (root st)" and ?b = "remove1 (node e) (hblocks st)"
  let ?st = "st\<lparr>lock := False, root := ?t, hblocks := ?b\<rparr>"
  have n: "node e \<in> set (hblocks st)" "params e \<in> set (hblocks st)" "distinct (hblocks st)"
    using ok e'(1) by (auto simp: pool_ok_def owned_def)
  have run: "pop_params K k st = Ret ?st (Some (params e))"
    using open_unlocked [OF ok] e(1) n by (simp add: pop_params_def pop_node_def search_node_def hfree_def)
  have b: "set ?b = set (hblocks st) - {node e}" using n(3) by simp
  have ne: "node e \<notin> owned (set_tree (root st) - {e})" "params e \<notin> owned (set_tree (root st) - {e})" "params e \<noteq> node e"
    using ok e'(1) by (auto simp: pool_ok_def owned_def dest: inj_onD)
  have "owned (set_tree (root st) - {e}) \<subseteq> owned (set_tree (root st))" by (auto simp: owned_def)
  moreover obtain q where q: "pool st = Some q" "q \<in> set (hblocks st)" "q \<notin> owned (set_tree (root st))"
    using ok by (auto simp: pool_ok_def)
  moreover have "q \<noteq> node e" "q \<noteq> params e" using q(3) e'(1) by (auto simp: owned_def)
  ultimately have pok: "pool_ok ?st"
    using ok ne(1) n(3) t b by (auto simp: pool_ok_def intro: inj_on_subset)
  have inj: "x = e" if "x \<in> set_tree (root st)" "key x = k" for x
    using search_tree_inj [OF s that(1) e'(1)] that(2) e'(2) by simp
  have "active ?st = (active st)(k := None)"
    by (rule active_eqI [OF pok]) (use inj e'(2) in \<open>auto simp: t(2) active_Some [OF ok]\<close>)
  moreover have "card (set_tree (root st)) = Suc (card (set_tree (root st) - {e}))"
    using card_Suc_Diff1 [OF _ e'(1)] by simp
  moreover have "int (length ?b) = int (length (hblocks st)) - 1"
    by (rule length_remove1_int [OF n(1)])
  ultimately show ?thesis
    using run pok ne n b t e'(1) q(1) \<open>q \<noteq> params e\<close> e(2) ok by (auto simp: leaked_def pool_ok_def)
qed

lemma record_mount_ok:
  assumes ok: "pool_ok st" and c: "call_ok K r c" and p: "p \<in> set (hblocks st)" "p \<notin> owned (set_tree (root st))" "pool st \<noteq> Some p"
  shows "\<exists>st'. record_mount K ri r p st = Ret st' () \<and> pool_ok st' \<and> dmesg st' = dmesg st \<and>
    terminated (params_at st' p) \<and> call_of (params_at st' p) = c \<and>
    (if active st ri = None then active st' = (active st)(ri \<mapsto> c) \<and> leaked st' = leaked st
     else active st' = active st \<and> leaked st' = leaked st + 1)"
proof -
  obtain s t d ns where dev: "kstring K (di r) = Some s" "has_nul s" "cstr s = m_dev c" "length (m_dev c) < 256"
    and dir: "path_dentry K (si r) = Some d" "path_names (dentries K) d ns" "ns \<noteq> []" "\<forall>n\<in>set ns. 0 \<notin> set n"
      "path_text ns = m_dir c" "length (m_dir c) < 256"
    and type: "kstring K (dx r) = Some t" "has_nul t" "cstr t = m_type c" "length (m_type c) < 64"
    and fl: "m_flags c = r10 r" using c by (auto simp: call_ok_def)
  obtain x where x: "strncpy s 256 = Some x" "length x = 256" "has_nul x" "cstr x = m_dev c"
    using strncpy_short [of s 256] dev by auto
  obtain z where z: "strncpy t 64 = Some z" "length z = 64" "has_nul z" "cstr z = m_type c"
    using strncpy_short [of t 64] type by auto
  obtain a where a: "a \<notin> set (hblocks st)" "alloc K (hblocks st) (hcalls st) = Some a"
    "halloc (alloc K) st = (Some a, st\<lparr>hcalls := Suc (hcalls st), hblocks := a # hblocks st\<rparr>)"
    using halloc_Some by blast
  define st1 where "st1 = st\<lparr>hcalls := Suc (hcalls st), hblocks := a # hblocks st\<rparr>"
  obtain b where b: "get_absolute_path (alloc K) (garbage K) (dentries K) d st = Ret st1 (Some (a, b))"
      "has_nul b" "cstr b = m_dir c"
    using get_absolute_path_ok [OF dir(2,4), of st] a dir(3,5,6) by (auto simp: st1_def)
  obtain y where y: "strncpy b 256 = Some y" "length y = 256" "has_nul y" "cstr y = m_dir c"
    using strncpy_short [of b 256] b dir(6) by auto
  define mp where "mp = \<lparr>dev_name = x, dir_name = y, fs_type = z, flags = r10 r\<rparr>"
  have mp: "terminated mp" "call_of mp = c" using x y z fl by (simp_all add: terminated_def call_of_def mp_def)
  define st2 where "st2 = st1\<lparr>params_at := (params_at st1)(p := mp)\<rparr>"
  have run: "record_mount K ri r p st = run_bind (insert_params K ri p st2) (\<lambda>st2 _. Ret st2 ())"
    using dev(1) dir(1) type(1) x(1) y(1) z(1) b(1)
    by (simp add: record_mount_def pt_regs_params_def mp_def [symmetric] st2_def Let_def)
  note blk = take_block [OF ok a(1), of "Suc (hcalls st)", folded st1_def]
  have p1: "p \<notin> owned (set_tree (root st1))" using p(2) by (simp add: st1_def)
  note upd = set_params [OF blk(1) p1, of mp, folded st2_def]
  have p2: "p \<in> set (hblocks st2)" "p \<notin> owned (set_tree (root st2))" "pool st2 \<noteq> Some p" "params_at st2 p = mp"
    "dmesg st2 = dmesg st" using p by (simp_all add: st2_def st1_def)
  show ?thesis
  proof (cases "active st ri = None")
    case True
    then show ?thesis using insert_params_new [OF upd(1) _ p2(1,2,3), of ri] upd blk p2 mp run by auto
  next
    case False
    then show ?thesis using insert_params_old [OF upd(1), of ri p] upd blk p2 mp run by simp
  qed
qed

lemma entry_ok:
  assumes ok: "pool_ok st" and c: "call_ok K r c" and ri: "ri > 0"
  shows "\<exists>st'. entry_handler K ri (Some r) st = Ret st' 0 \<and> pool_ok st' \<and>
    dmesg st' = dmesg st @ [LogInt (uint ri), LogStr (m_dev c), LogStr (m_dir c)] \<and>
    (if active st ri = None then active st' = (active st)(ri \<mapsto> c) \<and> leaked st' = leaked st + 1
     else active st' = active st \<and> leaked st' = leaked st + 2)"
proof -
  obtain p where p: "p \<notin> set (hblocks st)"
    "halloc (alloc K) st = (Some p, st\<lparr>hcalls := Suc (hcalls st), hblocks := p # hblocks st\<rparr>)"
    using halloc_Some by blast
  define st1 where "st1 = st\<lparr>hcalls := Suc (hcalls st), hblocks := p # hblocks st\<rparr>"
  note blk = take_block [OF ok p(1), of "Suc (hcalls st)", folded st1_def]
  let ?st = "st1\<lparr>dmesg := dmesg st @ [LogInt (uint ri)]\<rparr>"
  have q: "p \<in> set (hblocks ?st)" "p \<notin> owned (set_tree (root ?st))" "pool ?st \<noteq> Some p" "pool_ok ?st"
    using blk by (simp_all add: st1_def)
  obtain st2 where st2: "record_mount K ri r p ?st = Ret st2 ()" "pool_ok st2" "dmesg st2 = dmesg ?st"
    "terminated (params_at st2 p)" "call_of (params_at st2 p) = c"
    "if active ?st ri = None then active st2 = (active ?st)(ri \<mapsto> c) \<and> leaked st2 = leaked ?st
     else active st2 = active ?st \<and> leaked st2 = leaked ?st + 1"
    using record_mount_ok [OF q(4) c q(1-3), of ri] by blast
  obtain s where s: "kstring K (di r) = Some s" "has_nul s" "cstr s = m_dev c" using c by (auto simp: call_ok_def)
  have "params_str 256 (params_at st2 p) = Some (m_dir c)"
    using params_str_terminated(2) [OF st2(4)] st2(5) by (auto simp: call_of_def)
  moreover have "dmesg st1 = dmesg st" by (simp add: st1_def)
  ultimately have "entry_handler K ri (Some r) st = Ret (st2\<lparr>dmesg := dmesg st2 @ [LogStr (m_dev c), LogStr (m_dir c)]\<rparr>) 0"
    using p(2) st2(1) s ri by (simp add: entry_handler_def st1_def [symmetric] pt_regs_params_def Let_def)
  then show ?thesis using st2 blk by (simp split: if_splits)
qed

lemma ret_ok:
  assumes ok: "pool_ok st"
  shows "\<exists>st'. ret_handler K ri (Some r) st = Ret st' 0 \<and> pool_ok st' \<and> active st' = (active st)(ri := None) \<and>
    leaked st' = leaked st \<and>
    dmesg st' = dmesg st @ [LogInt (sint (ucast (ax r) :: 32 word)), LogInt (uint ri)] @
      (case active st ri of None \<Rightarrow> []
       | Some c \<Rightarrow> [LogStr (m_dev c), LogStr (m_dir c), LogStr (m_type c), LogInt (uint (m_flags c))])"
proof (cases "active st ri")
  case None
  then show ?thesis
    using pop_params_none [OF ok None] ok by (simp add: ret_handler_def Let_def fun_upd_idem)
next
  case (Some c)
  let ?l = "[LogInt (sint (ucast (ax r) :: 32 word)), LogInt (uint ri)]"
  obtain st1 p where st1: "pop_params K ri st = Ret st1 (Some p)" "pool_ok st1" "active st1 = (active st)(ri := None)"
    "p \<in> set (hblocks st1)" "p \<notin> owned (set_tree (root st1))" "pool st1 \<noteq> Some p"
    "terminated (params_at st1 p)" "call_of (params_at st1 p) = c" "leaked st1 = leaked st + 1" "dmesg st1 = dmesg st"
    using pop_params_some [OF ok Some] by blast
  let ?cl = "[LogStr (m_dev c), LogStr (m_dir c), LogStr (m_type c), LogInt (uint (m_flags c))]"
  have "params_log (params_at st1 p) = Some ?cl"
    using params_str_terminated [OF st1(7)] st1(8) by (auto simp: params_log_def call_of_def)
  then have run: "ret_handler K ri (Some r) st = run_bind (hfree p (st1\<lparr>dmesg := dmesg st @ ?l @ ?cl\<rparr>)) (\<lambda>st3 _. Ret st3 0)"
    using st1(1,4,10) by (simp add: ret_handler_def Let_def)
  have "pool_ok (st1\<lparr>dmesg := dmesg st @ ?l @ ?cl\<rparr>)" using st1(2) by simp
  from give_block [OF this] obtain st' where "hfree p (st1\<lparr>dmesg := dmesg st @ ?l @ ?cl\<rparr>) = Ret st' ()" "pool_ok st'"
    "active st' = active st1" "leaked st' = leaked st1 - 1" "dmesg st' = dmesg st @ ?l @ ?cl"
    using st1(4,5,6) by auto
  then show ?thesis using run Some st1(3,9) by simp
qed

lemma handle_ok:
  assumes "pool_ok st" and "event_ok K call ev"
  shows "\<exists>st' v. handle K ev st = Ret st' v \<and> pool_ok st' \<and> abs_pool st' = spec_event call ev (abs_pool st)"
proof (cases ev)
  case (Enter ri r)
  then show ?thesis using entry_ok [OF assms(1), of r "call r" ri] assms(2)
    by (auto simp: abs_pool_def Let_def split: if_splits)
next
  case (Return ri r)
  then show ?thesis using ret_ok [OF assms(1), of ri r] by (auto simp: abs_pool_def call_log_def split: option.split)
qed

lemma handle_all_ok:
  assumes "pool_ok st" and "\<forall>ev\<in>set evs. event_ok K call ev"
  shows "\<exists>st'. handle_all K evs st = Ret st' () \<and> pool_ok st' \<and> abs_pool st' = fold (spec_event call) evs (abs_pool st)"
  using assms
proof (induction evs arbitrary: st)
  case (Cons ev evs)
  then obtain st1 v where "handle K ev st = Ret st1 v" "pool_ok st1" "abs_pool st1 = spec_event call ev (abs_pool st)"
    using handle_ok [of st call ev] by auto
  then show ?case using Cons.IH [of st1] Cons.prems by auto
qed simp

lemma clear_loop_ok:
  assumes "search_tree key (root st)" "inj_on node (set_tree (root st))" "node ` set_tree (root st) \<subseteq> set (hblocks st)"
    "distinct (hblocks st)"
  shows "\<exists>st'. clear_loop K st = Some (Ret st' ()) \<and> root st' = Leaf \<and> pool st' = pool st \<and> distinct (hblocks st') \<and>
    set (hblocks st') = set (hblocks st) - node ` set_tree (root st)"
  using assms
proof (induction "card (set_tree (root st))" arbitrary: st)
  case 0
  then have "root st = Leaf" by simp
  then show ?case using 0 by (subst clear_loop.simps) (simp add: first_inorder)
next
  case (Suc n)
  then obtain e es where e: "inorder (root st) = e # es" by (cases "inorder (root st)") auto
  then have mem: "e \<in> set_tree (root st)" by (metis list.set_intros(1) set_inorder)
  note t = erase_ok [OF Suc.prems(1) mem]
  let ?st = "st\<lparr>root := rb_erase (rb K) e (root st), hblocks := remove1 (node e) (hblocks st)\<rparr>"
  have b: "node e \<in> set (hblocks st)" using Suc.prems(3) mem by blast
  have sb: "set (remove1 (node e) (hblocks st)) = set (hblocks st) - {node e}" using Suc.prems(4) by simp
  have img: "node ` (set_tree (root st) - {e}) = node ` set_tree (root st) - {node e}"
    using Suc.prems(2) mem by (auto dest: inj_onD)
  have "\<exists>st'. clear_loop K ?st = Some (Ret st' ()) \<and> root st' = Leaf \<and> pool st' = pool ?st \<and> distinct (hblocks st') \<and>
      set (hblocks st') = set (hblocks ?st) - node ` set_tree (root ?st)"
  proof (rule Suc.hyps(1))
    show "n = card (set_tree (root ?st))" using Suc.hyps(2) mem by (simp add: t(2))
    show "search_tree key (root ?st)" using t(1) by simp
    show "inj_on node (set_tree (root ?st))" using Suc.prems(2) by (simp add: t(2) inj_on_diff)
    show "node ` set_tree (root ?st) \<subseteq> set (hblocks ?st)" using Suc.prems(3) by (simp add: t(2) img sb) blast
    show "distinct (hblocks ?st)" using Suc.prems(4) by simp
  qed
  moreover have "clear_loop K st = clear_loop K ?st"
    using b e by (subst clear_loop.simps) (simp add: first_inorder hfree_def)
  moreover have "set (hblocks ?st) - node ` set_tree (root ?st) = set (hblocks st) - node ` set_tree (root st)"
    using mem by (auto simp: t(2) img sb)
  ultimately show ?case by auto
qed

lemma exit_ok:
  assumes ok: "pool_ok st"
  shows "\<exists>st'. hook_exit K st = Ret st' () \<and> root st' = Leaf \<and>
    set (hblocks st') = set (hblocks st) - {the (pool st)} - node ` set_tree (root st)"
proof -
  obtain q where q: "pool st = Some q" "q \<in> set (hblocks st)" "q \<notin> node ` set_tree (root st)"
    using ok by (auto simp: pool_ok_def owned_def)
  obtain st1 where st1: "clear_loop K (st\<lparr>lock := True\<rparr>) = Some (Ret st1 ())" "root st1 = Leaf" "distinct (hblocks st1)"
    "set (hblocks st1) = set (hblocks st) - node ` set_tree (root st)"
    using clear_loop_ok [of "st\<lparr>lock := True\<rparr>"] ok by (auto simp: pool_ok_def owned_def)
  have "hook_exit K st = hfree q (st1\<lparr>lock := False\<rparr>)"
    using q(1) st1(1) open_unlocked [OF ok] by (simp add: hook_exit_def probe_pool_clear_def)
  moreover have "q \<in> set (hblocks st1)" using q st1(4) by blast
  ultimately show ?thesis using st1 q(1) by (auto simp: hfree_def)
qed

end

section \<open>An instance\<close>

text \<open>A directory \<open>/mnt\<close>; the strings \<open>sdb\<close> and \<open>ext4\<close>.\<close>

definition mnt_dentries :: dcache where
  "mnt_dentries d = (if d = 2 then \<lparr>d_parent = 1, d_name = [109, 110, 116]\<rparr> else \<lparr>d_parent = d, d_name = [47]\<rparr>)"

definition demo_kernel :: kernel where
  "demo_kernel = \<lparr>rb = plain_rb, alloc = next_addr, garbage = poison, dentries = mnt_dentries,
     kstring = (\<lambda>a. if a = 16 then Some [115, 100, 98, 0] else if a = 32 then Some [101, 120, 116, 52, 0] else None),
     path_dentry = (\<lambda>a. if a = 24 then Some 2 else None)\<rparr>"

interpretation demo: khook_kernel demo_kernel
  by (simp add: demo_kernel_def khook_kernel_def plain.rb_tree_axioms poisoned.path_alloc_axioms
      next_addr.total_alloc_axioms)

definition demo_regs :: pt_regs where
  "demo_regs = \<lparr>di = 16, si = 24, dx = 32, cx = 1, r8 = 0, r10 = 9, ax = 0\<rparr>"

definition demo_call :: mount_call where
  "demo_call = \<lparr>m_dev = [115, 100, 98], m_dir = [47, 109, 110, 116], m_type = [101, 120, 116, 52], m_flags = 9\<rparr>"

lemma demo_call_ok: "call_ok demo_kernel demo_regs demo_call"
proof -
  have "path_names mnt_dentries (d_parent (mnt_dentries 2)) []" by (rule path_names.root) (simp add: mnt_dentries_def)
  then have "path_names mnt_dentries 2 ([] @ [d_name (mnt_dentries 2)])"
    by (rule path_names.child [rotated 2]) (simp_all add: mnt_dentries_def)
  then have "path_names mnt_dentries 2 [[109, 110, 116]]" by (simp add: mnt_dentries_def)
  then show ?thesis
    by (auto simp: call_ok_def demo_kernel_def demo_regs_def demo_call_def cstr_def has_nul_def path_text_def
        intro!: exI [of _ "[[109, 110, 116]]"])
qed

definition khook_unloaded :: probe_pool where
  "khook_unloaded = \<lparr>hblocks = [], hcalls = 0, pool = None, root = Leaf, lock = False,
     params_at = (\<lambda>_. \<lparr>dev_name = [], dir_name = [], fs_type = [], flags = 0\<rparr>), dmesg = []\<rparr>"

definition khook_loaded :: probe_pool where
  "khook_loaded = khook_unloaded\<lparr>hblocks := [1], hcalls := 1, pool := Some 1\<rparr>"

lemma khook_loaded_ok: "pool_ok khook_loaded"
  by (simp add: pool_ok_def khook_loaded_def khook_unloaded_def owned_def search_tree_def)

section \<open>Properties\<close>

text \<open>
  C9. The pool with the two handlers refines a table of the mounts under way: for any history of
  entry and return events with readable strings that fit, every handler returns and keeps the
  invariant, the log is that of the table (each return reports the arguments recorded at the entry
  of the same probe instance, with \<open>r10\<close> as the flags), and the memory that is lost is one path
  buffer for each entry, and in addition the parameters when the instance is already in the pool.
\<close>

theorem khook_refines_mounts:
  assumes "khook_kernel K" and "pool_ok st" and "\<forall>ev\<in>set evs. event_ok K call ev"
  shows "\<exists>st'. handle_all K evs st = Ret st' () \<and> pool_ok st' \<and>
    abs_pool st' = fold (spec_event call) evs (abs_pool st)"
  by (rule khook_kernel.handle_all_ok [OF assms])

theorem khook_refines_mounts_witness:
  "\<exists>st'. handle_all demo_kernel [Enter 5 demo_regs, Return 5 demo_regs] khook_loaded = Ret st' () \<and> pool_ok st' \<and>
    abs_pool st' = (Map.empty, [LogInt 5, LogStr (m_dev demo_call), LogStr (m_dir demo_call), LogInt 0, LogInt 5] @ call_log demo_call, 1)"
proof -
  have "\<forall>ev\<in>set [Enter 5 demo_regs, Return 5 demo_regs]. event_ok demo_kernel (\<lambda>_. demo_call) ev"
    using demo_call_ok by simp
  from khook_refines_mounts [OF demo.khook_kernel_axioms khook_loaded_ok this] obtain st'
    where "handle_all demo_kernel [Enter 5 demo_regs, Return 5 demo_regs] khook_loaded = Ret st' ()" "pool_ok st'"
      "abs_pool st' = fold (spec_event (\<lambda>_. demo_call)) [Enter 5 demo_regs, Return 5 demo_regs] (abs_pool khook_loaded)"
    by blast
  moreover have "active khook_loaded = Map.empty" "dmesg khook_loaded = []" "leaked khook_loaded = 0" "ax demo_regs = 0"
    by (simp_all add: active_def search_node_def khook_loaded_def khook_unloaded_def leaked_def demo_regs_def fun_eq_iff)
  ultimately show ?thesis by (auto simp: abs_pool_def Let_def)
qed

text \<open>
  Unloading ends and frees the pool and the entries in it, but not the parameters of the mounts
  that are still under way nor anything that was leaked before.
\<close>

theorem khook_exit_leaks:
  assumes "khook_kernel K" and "pool_ok st"
  shows "\<exists>st'. hook_exit K st = Ret st' () \<and> root st' = Leaf \<and>
    set (hblocks st') = set (hblocks st) - {the (pool st)} - node ` set_tree (root st)"
  by (rule khook_kernel.exit_ok [OF assms])

end
