(* ===== verification/Hook.thy ===== *)
theory Hook
  imports Dentry_Path
begin

text \<open>
  The probes on \<open>vfs_write\<close>, \<open>vfs_rename\<close> and \<open>vfs_unlink\<close> of \<open>src/hook/main.c\<close>: handlers that log
  what happens to files named \<open>test.txt\<close>. Blocks have addresses, so that what a handler does not free
  shows, and the copy of the user's data is a store into a block of the size that was asked for.
\<close>

section \<open>Model\<close>

record hook_state = heap +
  dmesg :: "klog list"
  registered :: "nat list"

text \<open>
  What the handlers use of the kernel: memory, directory entries, the entry of an open file, the two
  entries of a rename, the file position at an address, and the user memory with its accessors.
\<close>

record 'u vfs_kernel =
  alloc :: addr_alloc
  garbage :: "addr \<Rightarrow> byte list"
  dentries :: dcache
  file_dentry :: "u64 \<Rightarrow> addr"
  rename_dentries :: "u64 \<Rightarrow> addr \<times> addr"
  pos_at :: "u64 \<Rightarrow> int option"
  user :: 'u
  uacc :: "'u uaccess"
  strnlen_user :: "'u \<Rightarrow> addr \<Rightarrow> nat \<Rightarrow> nat"

text \<open>The name \<open>test.txt\<close>.\<close>

definition test_txt :: "byte list" where
  "test_txt = [116, 101, 115, 116, 46, 116, 120, 116]"

definition IS_ERR_OR_NULL :: "u64 \<Rightarrow> bool" where
  "IS_ERR_OR_NULL p \<longleftrightarrow> p = 0 \<or> - 4095 \<le> p"

definition kfree :: "(addr \<times> byte list) option \<Rightarrow> hook_state \<Rightarrow> (hook_state, unit) run" where
  "kfree p st = (case p of None \<Rightarrow> Ret st () | Some (a, _) \<Rightarrow> hfree a st)"

text \<open>A string argument of \<open>pr_info\<close>; a block without a zero byte is read past its end.\<close>

definition print_str :: "(addr \<times> byte list) option \<Rightarrow> klog option" where
  "print_str p = (case p of None \<Rightarrow> Some LogNull | Some (_, b) \<Rightarrow> if has_nul b then Some (LogStr (cstr b)) else None)"

definition path_of :: "'u vfs_kernel \<Rightarrow> addr \<Rightarrow> hook_state \<Rightarrow> (hook_state, (addr \<times> byte list) option) run" where
  "path_of V d st = get_absolute_path (alloc V) (garbage V) (dentries V) d st"

text \<open>The second half of \<open>vfs_write_pre\<close>: the path, the message and the two \<open>kfree\<close>.\<close>

definition report_write :: "'u vfs_kernel \<Rightarrow> pt_regs \<Rightarrow> (addr \<times> byte list) option \<Rightarrow> hook_state \<Rightarrow> (hook_state, int) run" where
  "report_write V regs data st =
     run_bind (path_of V (file_dentry V (di regs)) st) (\<lambda>st1 fpath.
       case (pos_at V (cx regs), print_str fpath, print_str data) of
         (None, _, _) \<Rightarrow> Fault NullDeref
       | (Some pos, Some p, Some d) \<Rightarrow>
           run_bind (kfree data (st1\<lparr>dmesg := dmesg st1 @ [LogInt (uint (dx regs)), LogInt pos, p, d]\<rparr>))
             (\<lambda>st2 _. run_bind (kfree fpath st2) (\<lambda>st3 _. Ret st3 0))
       | _ \<Rightarrow> Fault OutOfBounds)"

text \<open>\<open>PTR_ERR_OR_ZERO\<close> is 0 for a null pointer, so a failed \<open>kzalloc\<close> goes on to the copy.\<close>

definition vfs_write_pre :: "'u vfs_kernel \<Rightarrow> pt_regs \<Rightarrow> hook_state \<Rightarrow> (hook_state, int) run" where
  "vfs_write_pre V regs st =
     (let buf = si regs; count = unat (dx regs)
      in if d_name (dentries V (file_dentry V (di regs))) \<noteq> test_txt then Ret st 0
         else if IS_ERR_OR_NULL buf then Ret st (- EFAULT)
         else let slen = strnlen_user V (user V) (unat buf) PATH_MAX
         in if slen = 0 \<or> slen > PATH_MAX then Ret st (- EFAULT)
         else case halloc (alloc V) st of
           (None, st1) \<Rightarrow> if count = 0 then report_write V regs None st1 else Fault NullDeref
         | (Some a, st1) \<Rightarrow>
             (case copy_from_user (uacc V) (user V) (unat buf) count of (bytes, rest) \<Rightarrow>
                case mem_store (replicate (slen + 1) 0) 0 bytes of
                  None \<Rightarrow> Fault OutOfBounds
                | Some data \<Rightarrow>
                    if rest \<noteq> 0 then run_bind (hfree a st1) (\<lambda>st2 _. Ret st2 (- EFAULT))
                    else report_write V regs (Some (a, data)) st1))"

definition vfs_write_post :: "'u vfs_kernel \<Rightarrow> pt_regs \<Rightarrow> hook_state \<Rightarrow> (hook_state, unit) run" where
  "vfs_write_post V regs st =
     run_bind (path_of V (file_dentry V (di regs)) st) (\<lambda>st1 fpath.
       if d_name (dentries V (file_dentry V (di regs))) \<noteq> test_txt then Ret st1 ()
       else case print_str fpath of
         None \<Rightarrow> Fault OutOfBounds
       | Some p \<Rightarrow> kfree fpath (st1\<lparr>dmesg := dmesg st1 @ [p]\<rparr>))"

definition vfs_rename_pre :: "'u vfs_kernel \<Rightarrow> pt_regs \<Rightarrow> hook_state \<Rightarrow> (hook_state, int) run" where
  "vfs_rename_pre V regs st =
     (case rename_dentries V (di regs) of (old, new) \<Rightarrow>
        let fname = d_name (dentries V old)
        in if fname \<noteq> test_txt then Ret st 0
           else Ret (st\<lparr>dmesg := dmesg st @ [LogStr fname, LogStr (d_name (dentries V new))]\<rparr>) 0)"

definition vfs_unlink_pre :: "'u vfs_kernel \<Rightarrow> pt_regs \<Rightarrow> hook_state \<Rightarrow> (hook_state, int) run" where
  "vfs_unlink_pre V regs st =
     (let d = unat (dx regs)
      in if d_name (dentries V d) \<noteq> test_txt then Ret st 0
         else run_bind (path_of V d st) (\<lambda>st1 fpath.
           case print_str fpath of
             None \<Rightarrow> Fault OutOfBounds
           | Some p \<Rightarrow> Ret (st1\<lparr>dmesg := dmesg st1 @ [p]\<rparr>) 0))"

text \<open>
  The three probes by their index in \<open>kps\<close>; \<open>result\<close> is what \<open>register_kprobe\<close> returns for each,
  and only a probe that was registered becomes active.
\<close>

definition kps_count :: nat where "kps_count = 3"

fun register_from :: "(nat \<Rightarrow> int) \<Rightarrow> nat list \<Rightarrow> hook_state \<Rightarrow> hook_state" where
  "register_from result [] st = st"
| "register_from result (i # is) st =
     register_from result is (if result i = 0 then st\<lparr>registered := registered st @ [i]\<rparr> else st)"

definition hook_init :: "(nat \<Rightarrow> int) \<Rightarrow> hook_state \<Rightarrow> hook_state \<times> int" where
  "hook_init result st = (register_from result [0..<kps_count] st, 0)"

fun unregister_from :: "nat list \<Rightarrow> hook_state \<Rightarrow> hook_state" where
  "unregister_from [] st = st"
| "unregister_from (i # is) st = unregister_from is (st\<lparr>registered := removeAll i (registered st)\<rparr>)"

definition hook_exit :: "hook_state \<Rightarrow> hook_state" where
  "hook_exit st = unregister_from [0..<kps_count] st"

section \<open>Lemmas\<close>

text \<open>
  The contract of \<open>strnlen_user\<close>: a positive result within the bound is the length of the user's
  string with its zero byte.
\<close>

locale vfs_api = path_alloc "alloc V" "garbage V" + total_alloc "alloc V" + user_access "uacc V" ubyte
  for V :: "'u vfs_kernel" and ubyte +
  assumes strnlen: "strnlen_user V u a n = k \<Longrightarrow> 0 < k \<Longrightarrow> k \<le> n \<Longrightarrow>
    ubyte u (a + (k - 1)) = 0 \<and> (\<forall>i < k - 1. ubyte u (a + i) \<noteq> 0)"

definition entry_path :: "'u vfs_kernel \<Rightarrow> addr \<Rightarrow> byte list list \<Rightarrow> bool" where
  "entry_path V d ns \<longleftrightarrow> path_names (dentries V) d ns \<and> ns \<noteq> [] \<and> (\<forall>n\<in>set ns. 0 \<notin> set n)"

text \<open>The user string that the block then holds: up to the first zero byte, at most \<open>count\<close> bytes.\<close>

definition user_string :: "(addr \<Rightarrow> byte) \<Rightarrow> addr \<Rightarrow> nat \<Rightarrow> byte list" where
  "user_string f a n = cstr (user_bytes f a n)"

text \<open>A history of probe hits: when a hit is harmless, and which hits lose a path buffer.\<close>

datatype vfs_event = WritePre pt_regs | WritePost pt_regs | RenamePre pt_regs | UnlinkPre pt_regs

definition discard :: "('s, 'a) run \<Rightarrow> ('s, unit) run" where
  "discard x = run_bind x (\<lambda>s _. Ret s ())"

fun handle :: "'u vfs_kernel \<Rightarrow> vfs_event \<Rightarrow> hook_state \<Rightarrow> (hook_state, unit) run" where
  "handle V (WritePre r) st = discard (vfs_write_pre V r st)"
| "handle V (WritePost r) st = vfs_write_post V r st"
| "handle V (RenamePre r) st = discard (vfs_rename_pre V r st)"
| "handle V (UnlinkPre r) st = discard (vfs_unlink_pre V r st)"

fun handle_all :: "'u vfs_kernel \<Rightarrow> vfs_event list \<Rightarrow> hook_state \<Rightarrow> (hook_state, unit) run" where
  "handle_all V [] st = Ret st ()"
| "handle_all V (ev # evs) st = run_bind (handle V ev st) (\<lambda>st1 _. handle_all V evs st1)"

definition is_test :: "'u vfs_kernel \<Rightarrow> addr \<Rightarrow> bool" where
  "is_test V d \<longleftrightarrow> d_name (dentries V d) = test_txt"

definition write_len :: "'u vfs_kernel \<Rightarrow> pt_regs \<Rightarrow> nat" where
  "write_len V r = strnlen_user V (user V) (unat (si r)) PATH_MAX"

fun event_ok :: "'u vfs_kernel \<Rightarrow> vfs_event \<Rightarrow> bool" where
  "event_ok V (WritePre r) \<longleftrightarrow> \<not> is_test V (file_dentry V (di r)) \<or> IS_ERR_OR_NULL (si r) \<or>
     write_len V r = 0 \<or> write_len V r > PATH_MAX \<or>
     unat (dx r) \<le> write_len V r + 1 \<and> (\<exists>ns. entry_path V (file_dentry V (di r)) ns) \<and> pos_at V (cx r) \<noteq> None"
| "event_ok V (WritePost r) \<longleftrightarrow> (\<exists>ns. entry_path V (file_dentry V (di r)) ns)"
| "event_ok V (RenamePre r) \<longleftrightarrow> True"
| "event_ok V (UnlinkPre r) \<longleftrightarrow> \<not> is_test V (unat (dx r)) \<or> (\<exists>ns. entry_path V (unat (dx r)) ns)"

fun loses_buffer :: "'u vfs_kernel \<Rightarrow> vfs_event \<Rightarrow> bool" where
  "loses_buffer V (WritePost r) \<longleftrightarrow> \<not> is_test V (file_dentry V (di r))"
| "loses_buffer V (UnlinkPre r) \<longleftrightarrow> is_test V (unat (dx r))"
| "loses_buffer V _ \<longleftrightarrow> False"

lemma hfree_cons: "a \<notin> set (hblocks h) \<Longrightarrow> hfree a (h\<lparr>hcalls := n, hblocks := a # hblocks h\<rparr>) = Ret (h\<lparr>hcalls := n\<rparr>) ()"
  by (simp add: hfree_def)

context vfs_api
begin

lemma path_of_ok:
  assumes "entry_path V d ns"
  shows "\<exists>a b. a \<notin> set (hblocks st) \<and> has_nul b \<and> cstr b = take 4095 (path_text ns) \<and>
    path_of V d st = Ret (st\<lparr>hcalls := Suc (hcalls st), hblocks := a # hblocks st\<rparr>) (Some (a, b))"
proof -
  obtain a where a: "a \<notin> set (hblocks st)" "alloc V (hblocks st) (hcalls st) = Some a"
    "halloc (alloc V) st = (Some a, st\<lparr>hcalls := Suc (hcalls st), hblocks := a # hblocks st\<rparr>)"
    using halloc_Some by blast
  then show ?thesis
    using get_absolute_path_ok [of "dentries V" d ns st] assms by (auto simp: entry_path_def path_of_def)
qed

lemma data_block:
  assumes k: "strnlen_user V u a PATH_MAX = k" "0 < k" "k \<le> PATH_MAX" and n: "n \<le> k + 1"
    and c: "copy_from_user (uacc V) u a n = (bytes, 0)"
  shows "\<exists>data. mem_store (replicate (k + 1) 0) 0 bytes = Some data \<and> has_nul data \<and> cstr data = user_string (ubyte u) a n"
proof -
  have bytes: "bytes = user_bytes (ubyte u) a n" by (rule from_ok [OF c])
  let ?data = "bytes @ replicate (k + 1 - n) 0"
  have "mem_store (replicate (k + 1) 0) 0 bytes = Some ?data"
    using n drop_replicate [of n "k + 1" "0 :: byte"] by (simp add: mem_store_def bytes)
  moreover have z: "has_nul bytes" if "k \<le> n"
  proof -
    have "bytes ! (k - 1) = 0" "k - 1 < length bytes"
      using strnlen [OF k] k(2) that by (simp_all add: bytes)
    then show ?thesis unfolding has_nul_def by (metis nth_mem)
  qed
  moreover have "has_nul ?data" using z n by (cases "k \<le> n") (auto simp: has_nul_def)
  moreover have "cstr ?data = cstr bytes"
  proof (cases "has_nul bytes")
    case True
    then show ?thesis by (auto simp: cstr_def has_nul_def takeWhile_append1)
  next
    case False
    then have nz: "0 \<notin> set bytes" and "\<not> k \<le> n" using z by (auto simp: has_nul_def)
    then obtain m where "k + 1 - n = Suc m" by (metis Suc_diff_Suc add.commute less_Suc_eq not_le plus_1_eq_Suc)
    moreover have "cstr bytes = bytes" using nz by (auto simp: cstr_def takeWhile_eq_all_conv)
    ultimately show ?thesis using cstr_append [OF nz, of "replicate m 0"] by simp
  qed
  ultimately show ?thesis by (auto simp: user_string_def bytes)
qed

lemma report_ok:
  assumes p: "entry_path V (file_dentry V (di r)) ns" and pos: "pos_at V (cx r) = Some pos"
    and a: "a \<notin> set (hblocks st)" and d: "has_nul data"
  shows "\<exists>n. report_write V r (Some (a, data)) (st\<lparr>hcalls := m, hblocks := a # hblocks st\<rparr>) =
    Ret (st\<lparr>hcalls := n, dmesg := dmesg st @ [LogInt (uint (dx r)), LogInt pos, LogStr (take 4095 (path_text ns)), LogStr (cstr data)]\<rparr>) 0"
proof -
  let ?st = "st\<lparr>hcalls := m, hblocks := a # hblocks st\<rparr>"
  obtain b buf where b: "b \<notin> set (hblocks ?st)" "has_nul buf" "cstr buf = take 4095 (path_text ns)"
    "path_of V (file_dentry V (di r)) ?st = Ret (?st\<lparr>hcalls := Suc m, hblocks := b # hblocks ?st\<rparr>) (Some (b, buf))"
    using path_of_ok [OF p, of ?st] by auto
  then show ?thesis
    using a d pos by (auto simp: report_write_def print_str_def kfree_def hfree_def)
qed

lemma write_pre_ok:
  assumes name: "d_name (dentries V (file_dentry V (di r))) = test_txt" and buf: "\<not> IS_ERR_OR_NULL (si r)"
    and k: "strnlen_user V (user V) (unat (si r)) PATH_MAX = k" "0 < k" "k \<le> PATH_MAX"
    and p: "entry_path V (file_dentry V (di r)) ns" and pos: "pos_at V (cx r) = Some pos"
  shows "if unat (dx r) > k + 1 then vfs_write_pre V r st = Fault OutOfBounds
    else \<exists>n. vfs_write_pre V r st =
      (if snd (copy_from_user (uacc V) (user V) (unat (si r)) (unat (dx r))) \<noteq> 0 then Ret (st\<lparr>hcalls := n\<rparr>) (- EFAULT)
       else Ret (st\<lparr>hcalls := n, dmesg := dmesg st @ [LogInt (uint (dx r)), LogInt pos, LogStr (take 4095 (path_text ns)),
         LogStr (user_string (ubyte (user V)) (unat (si r)) (unat (dx r)))]\<rparr>) 0)"
proof -
  obtain a where a: "a \<notin> set (hblocks st)"
    "halloc (alloc V) st = (Some a, st\<lparr>hcalls := Suc (hcalls st), hblocks := a # hblocks st\<rparr>)"
    using halloc_Some by blast
  obtain bytes rest where c: "copy_from_user (uacc V) (user V) (unat (si r)) (unat (dx r)) = (bytes, rest)" by force
  have len: "length bytes = unat (dx r)" using from_len [of "user V" "unat (si r)" "unat (dx r)"] c by simp
  have g: "\<not> (k = 0 \<or> PATH_MAX < k)" using k by simp
  note pre = vfs_write_pre_def Let_def name buf k(1) if_not_P [OF g] a(2) c prod.case option.case fst_conv snd_conv simp_thms if_False if_True
  show ?thesis
  proof (cases "unat (dx r) > k + 1")
    case True
    then have "mem_store (replicate (k + 1) 0) 0 bytes = None" by (simp add: mem_store_def len)
    then show ?thesis using True by (simp only: pre)
  next
    case False
    then have fit: "mem_store (replicate (k + 1) 0) 0 bytes \<noteq> None" by (simp add: mem_store_def len)
    show ?thesis
    proof (cases "rest = 0")
      case True
      obtain data where d: "mem_store (replicate (k + 1) 0) 0 bytes = Some data" "has_nul data"
        "cstr data = user_string (ubyte (user V)) (unat (si r)) (unat (dx r))"
        using data_block [OF k, of "unat (dx r)" bytes] False c True by auto
      have "vfs_write_pre V r st = report_write V r (Some (a, data)) (st\<lparr>hcalls := Suc (hcalls st), hblocks := a # hblocks st\<rparr>)"
        using True by (simp only: pre d(1))
      with report_ok [OF p pos a(1) d(2), of "Suc (hcalls st)"] show ?thesis
        using False True c d(3) by auto
    next
      case rest: False
      obtain data where "mem_store (replicate (k + 1) 0) 0 bytes = Some data" using fit by blast
      then have "vfs_write_pre V r st = Ret (st\<lparr>hcalls := Suc (hcalls st)\<rparr>) (- EFAULT)"
        using rest by (simp only: pre hfree_cons [OF a(1)] run_bind_simps)
      then show ?thesis using False rest c by auto
    qed
  qed
qed

lemma write_pre_frees:
  assumes "event_ok V (WritePre r)"
  shows "\<exists>st'. handle V (WritePre r) st = Ret st' () \<and> length (hblocks st') = length (hblocks st)"
proof (cases "\<not> is_test V (file_dentry V (di r)) \<or> IS_ERR_OR_NULL (si r) \<or> write_len V r = 0 \<or> write_len V r > PATH_MAX")
  case True
  then show ?thesis by (auto simp: discard_def vfs_write_pre_def is_test_def write_len_def Let_def)
next
  case False
  then obtain ns pos where h: "unat (dx r) \<le> write_len V r + 1" "entry_path V (file_dentry V (di r)) ns" "pos_at V (cx r) = Some pos"
    "d_name (dentries V (file_dentry V (di r))) = test_txt" "\<not> IS_ERR_OR_NULL (si r)" "0 < write_len V r" "write_len V r \<le> PATH_MAX"
    using assms by (auto simp: is_test_def)
  have n: "\<not> write_len V r + 1 < unat (dx r)" using h(1) by simp
  obtain n where "vfs_write_pre V r st = Ret (st\<lparr>hcalls := n\<rparr>) (- EFAULT) \<or>
      (\<exists>l. vfs_write_pre V r st = Ret (st\<lparr>hcalls := n, dmesg := dmesg st @ l\<rparr>) 0)"
    using write_pre_ok [OF h(4,5) write_len_def [symmetric] h(6,7,2,3), of st] unfolding if_not_P [OF n] by (auto split: if_splits)
  then show ?thesis by (auto simp: discard_def)
qed

lemma handle_ok:
  assumes "event_ok V ev"
  shows "\<exists>st'. handle V ev st = Ret st' () \<and>
    length (hblocks st') = length (hblocks st) + (if loses_buffer V ev then 1 else 0)"
proof (cases ev)
  case (WritePre r)
  then show ?thesis using write_pre_frees [of r st] assms by simp
next
  case (WritePost r)
  then obtain ns where "entry_path V (file_dentry V (di r)) ns" using assms by auto
  from path_of_ok [OF this, of st] show ?thesis
    unfolding WritePost by (auto simp: vfs_write_post_def is_test_def print_str_def kfree_def hfree_def)
next
  case (RenamePre r)
  then show ?thesis by (auto simp: discard_def vfs_rename_pre_def Let_def split: prod.splits)
next
  case (UnlinkPre r)
  show ?thesis
  proof (cases "is_test V (unat (dx r))")
    case True
    then obtain ns where "entry_path V (unat (dx r)) ns" using assms UnlinkPre by auto
    from path_of_ok [OF this, of st] True show ?thesis
      unfolding UnlinkPre by (auto simp: discard_def vfs_unlink_pre_def is_test_def print_str_def)
  next
    case False
    then show ?thesis unfolding UnlinkPre by (simp add: discard_def vfs_unlink_pre_def is_test_def)
  qed
qed

lemma handle_all_ok:
  assumes "\<forall>ev\<in>set evs. event_ok V ev"
  shows "\<exists>st'. handle_all V evs st = Ret st' () \<and>
    length (hblocks st') = length (hblocks st) + length (filter (loses_buffer V) evs)"
  using assms
proof (induction evs arbitrary: st)
  case (Cons ev evs)
  obtain st1 where "handle V ev st = Ret st1 ()"
    "length (hblocks st1) = length (hblocks st) + (if loses_buffer V ev then 1 else 0)"
    using handle_ok [of ev st] Cons.prems by auto
  then show ?case using Cons.IH [of st1] Cons.prems by auto
qed simp

end

section \<open>An instance\<close>

text \<open>\<open>strnlen_user\<close> on the flat user memory: 0 when it runs into an unmapped address.\<close>

definition flat_strnlen :: "umem \<Rightarrow> addr \<Rightarrow> nat \<Rightarrow> nat" where
  "flat_strnlen u a n =
     (let m = mapped_prefix u a n; z = length (cstr (user_bytes (flat_byte u) a m))
      in if z < m then z + 1 else if m < n then 0 else n + 1)"

lemma flat_strnlen_ok:
  assumes "flat_strnlen u a n = k" "0 < k" "k \<le> n"
  shows "flat_byte u (a + (k - 1)) = 0 \<and> (\<forall>i < k - 1. flat_byte u (a + i) \<noteq> 0)"
proof -
  let ?m = "mapped_prefix u a n" let ?bs = "user_bytes (flat_byte u) a ?m"
  let ?z = "length (takeWhile (\<lambda>c. c \<noteq> 0) ?bs)"
  have z: "?z < ?m" "k = ?z + 1" using assms by (auto simp: flat_strnlen_def Let_def cstr_def split: if_splits)
  then have "?bs ! ?z = 0" using nth_length_takeWhile [of "\<lambda>c. c \<noteq> 0" ?bs] by simp
  moreover have "?bs ! i \<noteq> 0" if "i < ?z" for i
    using nth_mem [OF that] takeWhile_nth [OF that] by (auto dest: set_takeWhileD)
  ultimately show ?thesis using z by simp
qed

text \<open>A file \<open>/test.txt\<close> and a user buffer at 100 with the string \<open>hi\<close>.\<close>

definition demo_dentries :: dcache where
  "demo_dentries d = (if d = 2 then \<lparr>d_parent = 1, d_name = test_txt\<rparr> else \<lparr>d_parent = d, d_name = [47]\<rparr>)"

definition demo_vfs :: "umem vfs_kernel" where
  "demo_vfs = \<lparr>alloc = next_addr, garbage = poison, dentries = demo_dentries, file_dentry = unat,
     rename_dentries = (\<lambda>_. (2, 1)), pos_at = (\<lambda>_. Some 0),
     user = [100 \<mapsto> 104, 101 \<mapsto> 105, 102 \<mapsto> 0, 103 \<mapsto> 120, 104 \<mapsto> 120], uacc = flat_uaccess, strnlen_user = flat_strnlen\<rparr>"

interpretation demo: vfs_api demo_vfs flat_byte
proof -
  have sn: "strnlen_user demo_vfs = flat_strnlen" by (simp add: demo_vfs_def)
  have "vfs_api_axioms demo_vfs flat_byte" unfolding vfs_api_axioms_def sn using flat_strnlen_ok by blast
  then show "vfs_api demo_vfs flat_byte"
    by (simp add: vfs_api_def poisoned.path_alloc_axioms next_addr.total_alloc_axioms flat.user_access_axioms demo_vfs_def)
qed

definition demo_regs :: "u64 \<Rightarrow> pt_regs" where
  "demo_regs n = \<lparr>di = 2, si = 100, dx = n, cx = 8, r8 = 0, r10 = 0, ax = 0\<rparr>"

definition demo_state :: hook_state where
  "demo_state = \<lparr>hblocks = [], hcalls = 0, dmesg = [], registered = [0, 1, 2]\<rparr>"

lemma demo_path: "entry_path demo_vfs 2 [test_txt]"
proof -
  have "path_names demo_dentries (d_parent (demo_dentries 2)) []" by (rule path_names.root) (simp add: demo_dentries_def)
  then have "path_names demo_dentries 2 ([] @ [d_name (demo_dentries 2)])"
    by (rule path_names.child [rotated 2]) (simp_all add: demo_dentries_def)
  then show ?thesis by (simp add: entry_path_def demo_vfs_def demo_dentries_def test_txt_def)
qed

lemma mapped_prefix_step:
  "0 < n \<Longrightarrow> mapped_prefix u a n = (case u a of None \<Rightarrow> 0 | Some _ \<Rightarrow> Suc (mapped_prefix u (Suc a) (n - 1)))"
  by (cases n) (auto split: option.split)

lemma demo_len: "write_len demo_vfs (demo_regs n) = 3"
proof -
  have m: "mapped_prefix (user demo_vfs) 100 4096 = 5" by (simp add: demo_vfs_def mapped_prefix_step)
  have "cstr (user_bytes (flat_byte (user demo_vfs)) 100 5) = [104, 105]"
    by (simp add: user_bytes_def demo_vfs_def flat_byte_def cstr_def upt_rec)
  then show ?thesis using m
    by (simp add: write_len_def demo_regs_def PATH_MAX_def flat_strnlen_def demo_vfs_def Let_def)
qed

lemma demo_is_test: "is_test demo_vfs (file_dentry demo_vfs (di (demo_regs n)))"
  by (simp add: is_test_def demo_vfs_def demo_regs_def demo_dentries_def)

lemma demo_buf: "\<not> IS_ERR_OR_NULL (si (demo_regs n))"
  by (simp add: IS_ERR_OR_NULL_def demo_regs_def)

section \<open>Properties\<close>

text \<open>
  C12. \<open>vfs_write_pre\<close> on a file named \<open>test.txt\<close> with a readable user string of \<open>k\<close> bytes, zero byte
  included: when more than \<open>k + 1\<close> bytes are written, the copy runs past the end of the block that
  was sized by the string; otherwise it logs the number of bytes, the position, the path and the
  user's data up to the first zero byte, or returns \<open>-EFAULT\<close> when the copy fails, and in both cases
  frees what it allocated.
\<close>

theorem hook_write_pre_spec:
  assumes "vfs_api V ubyte" and "is_test V (file_dentry V (di r))" and "\<not> IS_ERR_OR_NULL (si r)"
    and "0 < write_len V r" and "write_len V r \<le> PATH_MAX"
    and "entry_path V (file_dentry V (di r)) ns" and "pos_at V (cx r) = Some pos"
  shows "if unat (dx r) > write_len V r + 1 then vfs_write_pre V r st = Fault OutOfBounds
    else \<exists>n. vfs_write_pre V r st =
      (if snd (copy_from_user (uacc V) (user V) (unat (si r)) (unat (dx r))) \<noteq> 0 then Ret (st\<lparr>hcalls := n\<rparr>) (- EFAULT)
       else Ret (st\<lparr>hcalls := n, dmesg := dmesg st @ [LogInt (uint (dx r)), LogInt pos, LogStr (take 4095 (path_text ns)),
         LogStr (user_string (ubyte (user V)) (unat (si r)) (unat (dx r)))]\<rparr>) 0)"
  by (rule vfs_api.write_pre_ok [OF assms(1) assms(2) [unfolded is_test_def] assms(3) write_len_def [symmetric] assms(4-7)])

theorem hook_write_pre_spec_witness:
  "vfs_write_pre demo_vfs (demo_regs 5) demo_state = Fault OutOfBounds \<and>
   (\<exists>n v. vfs_write_pre demo_vfs (demo_regs 3) demo_state = Ret (demo_state\<lparr>hcalls := n, dmesg := v\<rparr>) 0)"
proof -
  have l: "0 < write_len demo_vfs (demo_regs n)" "write_len demo_vfs (demo_regs n) \<le> PATH_MAX" for n
    by (simp_all add: demo_len PATH_MAX_def)
  have p: "entry_path demo_vfs (file_dentry demo_vfs (di (demo_regs n))) [test_txt]" for n
    using demo_path by (simp add: demo_vfs_def demo_regs_def)
  have q: "pos_at demo_vfs (cx (demo_regs n)) = Some 0" for n by (simp add: demo_vfs_def)
  note inst = hook_write_pre_spec [OF demo.vfs_api_axioms demo_is_test demo_buf l p q]
  have d: "unat (dx (demo_regs 5)) = 5" "unat (dx (demo_regs 3)) = 3" "unat (si (demo_regs 3)) = 100"
    by (simp_all add: demo_regs_def)
  have "vfs_write_pre demo_vfs (demo_regs 5) demo_state = Fault OutOfBounds"
    using inst [of 5 demo_state] by (simp add: demo_len d)
  moreover have "mapped_prefix (user demo_vfs) 100 3 = 3" by (simp add: demo_vfs_def mapped_prefix_step)
  then have "snd (copy_from_user (uacc demo_vfs) (user demo_vfs) 100 3) = 0"
    by (simp add: demo_vfs_def flat_uaccess_def flat_from_user_def Let_def)
  ultimately show ?thesis using inst [of 3 demo_state] by (auto simp: demo_len d)
qed

text \<open>
  C22. In a history of harmless probe hits every handler returns, and the module loses exactly one
  path buffer for each write to a file not named \<open>test.txt\<close> and for each removal of a file so named;
  a write or a rename handler loses nothing.
\<close>

theorem hook_loses_buffers:
  assumes "vfs_api V ubyte" and "\<forall>ev\<in>set evs. event_ok V ev"
  shows "\<exists>st'. handle_all V evs st = Ret st' () \<and>
    length (hblocks st') = length (hblocks st) + length (filter (loses_buffer V) evs)"
  by (rule vfs_api.handle_all_ok [OF assms])

theorem hook_loses_buffers_witness:
  "\<exists>st'. handle_all demo_vfs [WritePre (demo_regs 3), WritePost (demo_regs 3), UnlinkPre (demo_regs 2)] demo_state = Ret st' () \<and>
     length (hblocks st') = 1"
proof -
  let ?evs = "[WritePre (demo_regs 3), WritePost (demo_regs 3), UnlinkPre (demo_regs 2)]"
  have f: "file_dentry demo_vfs (di (demo_regs n)) = 2" for n by (simp add: demo_vfs_def demo_regs_def)
  have u: "unat (dx (demo_regs 2)) = 2" "unat (dx (demo_regs 3)) = 3" by (simp_all add: demo_regs_def)
  have t: "is_test demo_vfs 2" using demo_is_test f by simp
  have q: "pos_at demo_vfs (cx (demo_regs 3)) \<noteq> None" by (simp add: demo_vfs_def)
  have "\<forall>ev\<in>set ?evs. event_ok demo_vfs ev" using demo_path q by (auto simp: f u demo_len)
  from hook_loses_buffers [OF demo.vfs_api_axioms this, of demo_state] show ?thesis
    by (simp add: f u t demo_state_def)
qed

text \<open>
  Loading reports success whatever the registrations return; exactly the probes whose registration
  succeeded are then active, and unloading leaves none active.
\<close>

theorem hook_load_unload:
  assumes "registered st = []"
  shows "snd (hook_init result st) = 0" "registered (fst (hook_init result st)) = filter (\<lambda>i. result i = 0) [0, 1, 2]"
    "registered (hook_exit (fst (hook_init result st))) = []"
  using assms by (simp_all add: hook_init_def hook_exit_def kps_count_def upt_rec numeral_2_eq_2)

end
