(* ===== verification/Ftrace.thy ===== *)
theory Ftrace
  imports Kernel_Heap
begin

text \<open>
  The function hook of \<open>src/ftrace/main.c\<close>: the module looks up the address of \<open>path_mount\<close>, lets
  ftrace call back on it and redirects calls from outside the module to a replacement, which logs the
  mount and calls the original. Calls are modelled with the redirection that ftrace applies to each,
  so that a call from the replacement goes through the same callback.
\<close>

section \<open>Model\<close>

datatype ftrace_flag = FTRACE_OPS_FL_SAVE_REGS | FTRACE_OPS_FL_RECURSION | FTRACE_OPS_FL_IPMODIFY

record ftrace_ops =
  func :: bool
  ops_flags :: "ftrace_flag list"
  filter_ips :: "u64 list"

record ftrace_hook =
  name :: "byte list"
  hook_function :: u64
  address :: u64
  ops :: ftrace_ops

record mount_args =
  dev_name :: "byte list"
  path :: u64
  type_page :: "byte list option"
  mnt_flags :: u64
  data_page :: u64

text \<open>
  The module's variables, the list of mounts that stands for the state of the file systems, and
  whether ftrace has the operations registered.
\<close>

record 'm ftrace_state = heap +
  path_mount_hook :: ftrace_hook
  orig_path_mount :: u64
  ops_registered :: bool
  mounts :: 'm
  dmesg :: "klog list"

text \<open>
  The kernel: \<open>register_kprobe\<close> by symbol gives a result and an address; \<open>filter_ret\<close> is what
  \<open>ftrace_set_filter_ip\<close> returns for adding and for removing; the original \<open>path_mount\<close> and its address;
  \<open>call_site\<close> is the return address of the call in the replacement.
\<close>

record 'm ftrace_kernel =
  alloc :: addr_alloc
  kprobe_at :: "byte list \<Rightarrow> int \<times> u64"
  filter_ret :: "bool \<Rightarrow> int"
  register_ret :: int
  unregister_ret :: int
  within_module :: "u64 \<Rightarrow> bool"
  d_path :: "u64 \<Rightarrow> byte list option"
  real_addr :: u64
  real_mount :: "mount_args \<Rightarrow> 'm \<Rightarrow> 'm \<times> int"
  call_site :: u64

definition lookup_name :: "'m ftrace_kernel \<Rightarrow> byte list \<Rightarrow> u64" where
  "lookup_name K n = (case kprobe_at K n of (ret, addr) \<Rightarrow> if ret < 0 then 0 else addr)"

definition resolve_hook_address :: "'m ftrace_kernel \<Rightarrow> 'm ftrace_state \<Rightarrow> 'm ftrace_state \<times> int" where
  "resolve_hook_address K st =
     (let a = lookup_name K (name (path_mount_hook st));
          st1 = st\<lparr>path_mount_hook := (path_mount_hook st)\<lparr>address := a\<rparr>\<rparr>
      in if a = 0 then (st1, - ENOENT) else (st1\<lparr>orig_path_mount := a\<rparr>, 0))"

definition upd_ops :: "(ftrace_ops \<Rightarrow> ftrace_ops) \<Rightarrow> 'm ftrace_state \<Rightarrow> 'm ftrace_state" where
  "upd_ops f st = st\<lparr>path_mount_hook := (path_mount_hook st)\<lparr>ops := f (ops (path_mount_hook st))\<rparr>\<rparr>"

definition ftrace_set_filter_ip :: "'m ftrace_kernel \<Rightarrow> bool \<Rightarrow> 'm ftrace_state \<Rightarrow> 'm ftrace_state \<times> int" where
  "ftrace_set_filter_ip K remove st =
     (let ip = address (path_mount_hook st)
      in if filter_ret K remove \<noteq> 0 then (st, filter_ret K remove)
         else (upd_ops (\<lambda>o1. o1\<lparr>filter_ips := if remove then removeAll ip (filter_ips o1) else List.insert ip (filter_ips o1)\<rparr>) st, 0))"

definition register_hook :: "'m ftrace_kernel \<Rightarrow> 'm ftrace_state \<Rightarrow> 'm ftrace_state \<times> int" where
  "register_hook K st =
     (case resolve_hook_address K st of (st1, ret) \<Rightarrow>
        if ret \<noteq> 0 then (st1, ret)
        else let st2 = upd_ops (\<lambda>o1. o1\<lparr>func := True,
                         ops_flags := [FTRACE_OPS_FL_SAVE_REGS, FTRACE_OPS_FL_RECURSION, FTRACE_OPS_FL_IPMODIFY]\<rparr>) st1
             in case ftrace_set_filter_ip K False st2 of (st3, ret) \<Rightarrow>
                  if ret \<noteq> 0 then (st3, ret)
                  else if register_ret K \<noteq> 0 then (fst (ftrace_set_filter_ip K True st3), register_ret K)
                  else (st3\<lparr>ops_registered := True\<rparr>, 0))"

definition unregister_hook :: "'m ftrace_kernel \<Rightarrow> 'm ftrace_state \<Rightarrow> 'm ftrace_state \<times> int" where
  "unregister_hook K st =
     (let st1 = (if unregister_ret K = 0 then st\<lparr>ops_registered := False\<rparr> else st)
      in ftrace_set_filter_ip K True st1)"

definition ftrace_init :: "'m ftrace_kernel \<Rightarrow> 'm ftrace_state \<Rightarrow> 'm ftrace_state \<times> int" where
  "ftrace_init K st = (case register_hook K st of (st1, ret) \<Rightarrow> (st1, if ret \<noteq> 0 then - EINVAL else 0))"

definition ftrace_exit :: "'m ftrace_kernel \<Rightarrow> 'm ftrace_state \<Rightarrow> 'm ftrace_state" where
  "ftrace_exit K st = fst (unregister_hook K st)"

text \<open>The callback gets the address of the traced function and the caller, and may set the instruction pointer.\<close>

definition ftrace_callback_handler :: "'m ftrace_kernel \<Rightarrow> 'm ftrace_state \<Rightarrow> u64 \<Rightarrow> u64 \<Rightarrow> 'm ftrace_state \<times> u64" where
  "ftrace_callback_handler K st ip parent_ip =
     (let st1 = st\<lparr>dmesg := dmesg st @ [LogInt (uint ip)]\<rparr>; f = hook_function (path_mount_hook st)
      in if \<not> within_module K parent_ip then (st1\<lparr>dmesg := dmesg st1 @ [LogInt (uint f)]\<rparr>, f) else (st1, ip))"

text \<open>The replacement; \<open>orig\<close> is the call through \<open>orig_path_mount\<close>. Nothing is the call that does not return.\<close>

definition dir_log :: "'m ftrace_kernel \<Rightarrow> mount_args \<Rightarrow> klog" where
  "dir_log K args = (case d_path K (path args) of None \<Rightarrow> LogNull | Some d \<Rightarrow> LogStr d)"

definition ftrace_path_mount :: "'m ftrace_kernel \<Rightarrow> ('m ftrace_state \<Rightarrow> ('m ftrace_state, int) run option) \<Rightarrow>
    mount_args \<Rightarrow> 'm ftrace_state \<Rightarrow> ('m ftrace_state, int) run option" where
  "ftrace_path_mount K orig args st =
     (case halloc (alloc K) st of
        (None, st1) \<Rightarrow> Some (Ret st1 (- ENOMEM))
      | (Some buf, st1) \<Rightarrow>
          Option.bind (orig (st1\<lparr>dmesg := dmesg st1 @ [LogStr (dev_name args), dir_log K args]\<rparr>)) (\<lambda>r.
            Some (run_bind r (\<lambda>st2 sys_ret.
              let st3 = (if sys_ret \<noteq> 0
                         then st2\<lparr>dmesg := dmesg st2 @ [LogStr (dev_name args), dir_log K args, LogInt sys_ret]\<rparr> else st2)
              in run_bind (hfree buf st3) (\<lambda>st4 _. Ret st4 sys_ret)))))"

text \<open>
  A call of the function at \<open>target\<close> that returns to \<open>parent_ip\<close>: ftrace calls back on entry when the
  operations are registered for that address, and execution goes on where the callback left the
  instruction pointer; a jump to any other address is a fault. The number bounds the depth of nested calls.
\<close>

definition traced :: "'m ftrace_state \<Rightarrow> u64 \<Rightarrow> bool" where
  "traced st target \<longleftrightarrow> ops_registered st \<and> target \<in> set (filter_ips (ops (path_mount_hook st)))"

fun call_mount :: "nat \<Rightarrow> 'm ftrace_kernel \<Rightarrow> mount_args \<Rightarrow> u64 \<Rightarrow> u64 \<Rightarrow> 'm ftrace_state \<Rightarrow> ('m ftrace_state, int) run option" where
  "call_mount 0 K args target parent_ip st = None"
| "call_mount (Suc n) K args target parent_ip st =
     (case (if traced st target then ftrace_callback_handler K st target parent_ip else (st, target)) of (st1, ip) \<Rightarrow>
        if ip = hook_function (path_mount_hook st1)
        then ftrace_path_mount K (\<lambda>st2. call_mount n K args (orig_path_mount st2) (call_site K) st2) args st1
        else if ip = real_addr K
        then (case real_mount K args (mounts st1) of (m, ret) \<Rightarrow> Some (Ret (st1\<lparr>mounts := m\<rparr>) ret))
        else Some (Fault NullDeref))"

section \<open>Lemmas\<close>

declare call_mount.simps(2) [simp del]

text \<open>What the kernel and the layout of the module guarantee.\<close>

locale ftrace_api = fresh_alloc "alloc K" for K :: "'m ftrace_kernel" +
  assumes call_site_inside: "within_module K (call_site K)"

text \<open>The hook is in place: the lookup found the function, and the replacement is another one.\<close>

definition hooked :: "'m ftrace_kernel \<Rightarrow> 'm ftrace_state \<Rightarrow> bool" where
  "hooked K st \<longleftrightarrow> ops_registered st \<and> address (path_mount_hook st) = real_addr K \<and>
     real_addr K \<in> set (filter_ips (ops (path_mount_hook st))) \<and> orig_path_mount st = real_addr K \<and>
     hook_function (path_mount_hook st) \<noteq> real_addr K \<and> func (ops (path_mount_hook st))"

text \<open>A state in which ftrace leaves all calls alone.\<close>

definition untraced :: "'m ftrace_state \<Rightarrow> bool" where
  "untraced st \<longleftrightarrow> \<not> ops_registered st"

lemma call_inside:
  assumes "hooked K st" and "within_module K p"
  shows "call_mount (Suc n) K args (real_addr K) p st =
    (case real_mount K args (mounts st) of (m, ret) \<Rightarrow>
       Some (Ret (st\<lparr>dmesg := dmesg st @ [LogInt (uint (real_addr K))], mounts := m\<rparr>) ret))"
  using assms by (auto simp: call_mount.simps(2) traced_def hooked_def ftrace_callback_handler_def Let_def split: prod.splits)

lemma call_unhooked:
  assumes "untraced st" and "hook_function (path_mount_hook st) \<noteq> real_addr K"
  shows "call_mount (Suc n) K args (real_addr K) p st =
    (case real_mount K args (mounts st) of (m, ret) \<Rightarrow> Some (Ret (st\<lparr>mounts := m\<rparr>) ret))"
  using assms by (simp add: call_mount.simps(2) traced_def untraced_def split: prod.splits)

context ftrace_api
begin

lemma call_outside:
  assumes h: "hooked K st" and p: "\<not> within_module K p"
  shows "case alloc K (hblocks st) (hcalls st) of
      None \<Rightarrow> (\<exists>st'. call_mount (Suc (Suc n)) K args (real_addr K) p st = Some (Ret st' (- ENOMEM)) \<and>
        mounts st' = mounts st \<and> hblocks st' = hblocks st \<and> hooked K st')
    | Some _ \<Rightarrow> (\<exists>st'. call_mount (Suc (Suc n)) K args (real_addr K) p st = Some (Ret st' (snd (real_mount K args (mounts st)))) \<and>
        mounts st' = fst (real_mount K args (mounts st)) \<and> hblocks st' = hblocks st \<and> hooked K st')"
proof -
  let ?f = "hook_function (path_mount_hook st)"
  define st1 where "st1 = st\<lparr>dmesg := dmesg st @ [LogInt (uint (real_addr K)), LogInt (uint ?f)]\<rparr>"
  have cb: "ftrace_callback_handler K st (real_addr K) p = (st1, ?f)" "traced st (real_addr K)"
    using h p by (auto simp: ftrace_callback_handler_def Let_def st1_def hooked_def traced_def)
  have run: "call_mount (Suc (Suc n)) K args (real_addr K) p st =
      ftrace_path_mount K (\<lambda>st2. call_mount (Suc n) K args (orig_path_mount st2) (call_site K) st2) args st1"
    by (subst call_mount.simps(2)) (simp add: cb st1_def)
  show ?thesis
  proof (cases "alloc K (hblocks st) (hcalls st)")
    case None
    then have "halloc (alloc K) st1 = (None, st1\<lparr>hcalls := Suc (hcalls st)\<rparr>)" by (simp add: halloc_def st1_def)
    then have "call_mount (Suc (Suc n)) K args (real_addr K) p st = Some (Ret (st1\<lparr>hcalls := Suc (hcalls st)\<rparr>) (- ENOMEM))"
      using run by (simp add: ftrace_path_mount_def)
    then show ?thesis using None h by (simp add: st1_def hooked_def)
  next
    case (Some a)
    obtain m ret where m: "real_mount K args (mounts st) = (m, ret)" by force
    define st2 where "st2 = st1\<lparr>hcalls := Suc (hcalls st), hblocks := a # hblocks st, dmesg := dmesg st1 @ [LogStr (dev_name args), dir_log K args]\<rparr>"
    have al: "halloc (alloc K) st1 = (Some a, st1\<lparr>hcalls := Suc (hcalls st), hblocks := a # hblocks st\<rparr>)"
      using Some by (simp add: halloc_def st1_def)
    have h2: "hooked K st2" and o2: "orig_path_mount st2 = real_addr K" and b2: "mounts st2 = mounts st" "hblocks st2 = a # hblocks st"
      using h by (simp_all add: hooked_def st2_def st1_def)
    have inner: "call_mount (Suc n) K args (orig_path_mount st2) (call_site K) st2 =
        Some (Ret (st2\<lparr>dmesg := dmesg st2 @ [LogInt (uint (real_addr K))], mounts := m\<rparr>) ret)"
      unfolding o2 by (simp add: call_inside [OF h2 call_site_inside] b2 m)
    have "call_mount (Suc (Suc n)) K args (real_addr K) p st =
        Option.bind (call_mount (Suc n) K args (orig_path_mount st2) (call_site K) st2) (\<lambda>r.
          Some (run_bind r (\<lambda>st2 sys_ret.
            let st3 = (if sys_ret \<noteq> 0
                       then st2\<lparr>dmesg := dmesg st2 @ [LogStr (dev_name args), dir_log K args, LogInt sys_ret]\<rparr> else st2)
            in run_bind (hfree a st3) (\<lambda>st4 _. Ret st4 sys_ret))))"
      unfolding run by (simp add: ftrace_path_mount_def al st2_def)
    then show ?thesis using Some m b2 h2 unfolding inner by (simp add: hfree_def hooked_def Let_def)
  qed
qed

end

text \<open>The four outcomes of loading.\<close>

definition no_filter :: "'m ftrace_state \<Rightarrow> bool" where
  "no_filter st \<longleftrightarrow> filter_ips (ops (path_mount_hook st)) = []"

lemmas register_defs = register_hook_def resolve_hook_address_def ftrace_set_filter_ip_def upd_ops_def Let_def

lemma register_hook_fails:
  assumes "no_filter st" and "\<not> ops_registered st"
    and "lookup_name K (name (path_mount_hook st)) = 0 \<or> filter_ret K False \<noteq> 0 \<or> register_ret K \<noteq> 0"
  shows "snd (register_hook K st) =
      (if lookup_name K (name (path_mount_hook st)) = 0 then - ENOENT
       else if filter_ret K False \<noteq> 0 then filter_ret K False else register_ret K) \<and>
    untraced (fst (register_hook K st)) \<and> (filter_ret K True = 0 \<longrightarrow> no_filter (fst (register_hook K st)))"
  using assms by (auto simp: register_defs untraced_def no_filter_def ENOENT_def)

lemma register_hook_works:
  assumes "lookup_name K (name (path_mount_hook st)) = real_addr K" "real_addr K \<noteq> 0" "filter_ret K False = 0" "register_ret K = 0"
    and "hook_function (path_mount_hook st) \<noteq> real_addr K"
  shows "snd (register_hook K st) = 0 \<and> hooked K (fst (register_hook K st))"
  using assms by (auto simp: register_defs hooked_def)

section \<open>An instance\<close>

text \<open>A file system state that counts mounts; mounting with flags 1 fails.\<close>

definition demo_ftrace :: "nat ftrace_kernel" where
  "demo_ftrace = \<lparr>alloc = next_addr, kprobe_at = (\<lambda>n. if n = [112] then (0, 64) else (- ENOENT, 0)), filter_ret = (\<lambda>_. 0),
     register_ret = 0, unregister_ret = 0, within_module = (\<lambda>a. 1024 \<le> a), d_path = (\<lambda>_. Some [47]), real_addr = 64,
     real_mount = (\<lambda>args m. if mnt_flags args = 1 then (m, - EINVAL) else (Suc m, 0)), call_site = 1030\<rparr>"

interpretation demo: ftrace_api demo_ftrace
  by unfold_locales (auto simp: demo_ftrace_def next_addr_fresh)

definition demo_fstate :: "nat ftrace_state" where
  "demo_fstate = \<lparr>hblocks = [], hcalls = 0,
     path_mount_hook = \<lparr>name = [112], hook_function = 1024, address = 0, ops = \<lparr>func = False, ops_flags = [], filter_ips = []\<rparr>\<rparr>,
     orig_path_mount = 0, ops_registered = False, mounts = 0, dmesg = []\<rparr>"

lemma demo_hooked: "hooked demo_ftrace (fst (register_hook demo_ftrace demo_fstate))"
  using register_hook_works [of demo_ftrace demo_fstate] by (simp add: lookup_name_def demo_ftrace_def demo_fstate_def)

section \<open>Properties\<close>

text \<open>
  C11. With the hook in place a call of \<open>path_mount\<close> behaves as the original: from inside the module
  it is the original; from outside it is redirected once, the replacement's own call is not
  redirected again, so the nested calls end, and the result and the effect are those of the
  original, with the buffer freed and the hook still in place. The one difference is that without
  memory for the log the mount is refused with \<open>-ENOMEM\<close> and not done.
\<close>

theorem ftrace_mount_equivalent:
  assumes "ftrace_api K" and "hooked K st"
  shows "if within_module K p
    then call_mount (Suc (Suc n)) K args (real_addr K) p st =
      Some (Ret (st\<lparr>dmesg := dmesg st @ [LogInt (uint (real_addr K))], mounts := fst (real_mount K args (mounts st))\<rparr>)
        (snd (real_mount K args (mounts st))))
    else \<exists>st'. hblocks st' = hblocks st \<and> hooked K st' \<and>
      (if alloc K (hblocks st) (hcalls st) = None
       then call_mount (Suc (Suc n)) K args (real_addr K) p st = Some (Ret st' (- ENOMEM)) \<and> mounts st' = mounts st
       else call_mount (Suc (Suc n)) K args (real_addr K) p st = Some (Ret st' (snd (real_mount K args (mounts st)))) \<and>
         mounts st' = fst (real_mount K args (mounts st)))"
proof (cases "within_module K p")
  case True
  then show ?thesis using call_inside [OF assms(2) True] by (simp add: split_beta)
next
  case False
  show ?thesis
    using ftrace_api.call_outside [OF assms False, of n args] False
    by (cases "alloc K (hblocks st) (hcalls st)") auto
qed

theorem ftrace_mount_equivalent_witness:
  "\<exists>st'. call_mount 2 demo_ftrace \<lparr>dev_name = [115], path = 8, type_page = None, mnt_flags = 0, data_page = 0\<rparr> 64 16
     (fst (register_hook demo_ftrace demo_fstate)) = Some (Ret st' 0) \<and> mounts st' = 1"
proof -
  let ?st = "fst (register_hook demo_ftrace demo_fstate)"
  let ?args = "\<lparr>dev_name = [115], path = 8, type_page = None, mnt_flags = 0, data_page = 0\<rparr>"
  have m: "mounts ?st = 0" by (simp add: register_defs lookup_name_def demo_ftrace_def demo_fstate_def)
  have k: "\<not> within_module demo_ftrace 16" "real_addr demo_ftrace = 64" "real_mount demo_ftrace ?args 0 = (1, 0)"
    "alloc demo_ftrace lv i \<noteq> None" for lv i
    by (simp_all add: demo_ftrace_def next_addr_def)
  from ftrace_mount_equivalent [OF demo.ftrace_api_axioms demo_hooked, of 16 0 ?args] show ?thesis
    using k m by (auto simp: numeral_2_eq_2)
qed

text \<open>
  C29. Loading succeeds exactly when the symbol is found and both ftrace calls succeed, and then the
  hook is in place; otherwise it fails with \<open>-EINVAL\<close> whatever the error was, no call is traced, and
  the filter is empty again if the removal of the address worked. Unloading stops the tracing
  exactly if the unregistration succeeds, but the result of that is masked: \<open>unregister_hook\<close>
  returns what the removal of the filter returns.
\<close>

theorem ftrace_load_unload:
  assumes "untraced st" and "no_filter st" and "hook_function (path_mount_hook st) \<noteq> real_addr K"
    and "lookup_name K (name (path_mount_hook st)) \<in> {0, real_addr K}"
  shows "let ok = (lookup_name K (name (path_mount_hook st)) \<noteq> 0 \<and> filter_ret K False = 0 \<and> register_ret K = 0);
      (st1, ret) = ftrace_init K st
    in ret = (if ok then 0 else - EINVAL) \<and>
       (if ok then hooked K st1 \<and> (untraced (ftrace_exit K st1) \<longleftrightarrow> unregister_ret K = 0) \<and>
          snd (unregister_hook K st1) = filter_ret K True
        else untraced st1 \<and> (filter_ret K True = 0 \<longrightarrow> no_filter st1))"
proof (cases "lookup_name K (name (path_mount_hook st)) \<noteq> 0 \<and> filter_ret K False = 0 \<and> register_ret K = 0")
  case True
  obtain st1 where st1: "register_hook K st = (st1, 0)" "hooked K st1"
    using register_hook_works [of K st] True assms(3,4) by (cases "register_hook K st") auto
  have "ops_registered st1" using st1(2) by (simp add: hooked_def)
  then have "untraced (ftrace_exit K st1) \<longleftrightarrow> unregister_ret K = 0" "snd (unregister_hook K st1) = filter_ret K True"
    by (auto simp: ftrace_exit_def unregister_hook_def ftrace_set_filter_ip_def upd_ops_def untraced_def Let_def)
  then show ?thesis using st1 True by (simp add: ftrace_init_def)
next
  case False
  obtain st1 r where st1: "register_hook K st = (st1, r)" by force
  have f: "lookup_name K (name (path_mount_hook st)) = 0 \<or> filter_ret K False \<noteq> 0 \<or> register_ret K \<noteq> 0"
    using False by blast
  have u: "\<not> ops_registered st" using assms(1) by (simp add: untraced_def)
  have "r \<noteq> 0" "untraced st1" "filter_ret K True = 0 \<longrightarrow> no_filter st1"
    using register_hook_fails [OF assms(2) u f] st1 f by (auto simp: ENOENT_def split: if_splits)
  then show ?thesis unfolding Let_def if_not_P [OF False] using st1 by (simp add: ftrace_init_def)
qed

theorem ftrace_load_unload_witness:
  "snd (ftrace_init demo_ftrace demo_fstate) = 0 \<and> hooked demo_ftrace (fst (ftrace_init demo_ftrace demo_fstate))"
proof -
  have a: "untraced demo_fstate" "no_filter demo_fstate" "hook_function (path_mount_hook demo_fstate) \<noteq> real_addr demo_ftrace"
    "lookup_name demo_ftrace (name (path_mount_hook demo_fstate)) \<in> {0, real_addr demo_ftrace}"
    by (simp_all add: untraced_def no_filter_def lookup_name_def demo_ftrace_def demo_fstate_def)
  have "lookup_name demo_ftrace (name (path_mount_hook demo_fstate)) \<noteq> 0" "filter_ret demo_ftrace False = 0" "register_ret demo_ftrace = 0"
    by (simp_all add: lookup_name_def demo_ftrace_def demo_fstate_def)
  with ftrace_load_unload [OF a] show ?thesis by (auto simp: Let_def split: prod.splits)
qed

end
