(* ===== verification/Hashmap.thy ===== *)
theory Hashmap
  imports Kernel_Heap
begin

text \<open>
  The hash table module of \<open>src/map/map.c\<close>, on the buckets of \<open>linux/hashtable.h\<close>: 128 lists, a new
  element goes to the front of the list that the hash of its key selects. The hash function is a
  parameter; keys may occur more than once.
\<close>

section \<open>Model\<close>

record my_data =
  node :: addr
  key :: u32
  name :: "byte list"

record table = heap +
  ht :: "my_data list list"
  dmesg :: "klog list"

definition HASH_SIZE :: nat where "HASH_SIZE = 128"

definition hash_init :: "table \<Rightarrow> table" where
  "hash_init st = st\<lparr>ht := replicate HASH_SIZE []\<rparr>"

definition hash_add :: "(u32 \<Rightarrow> nat) \<Rightarrow> my_data \<Rightarrow> table \<Rightarrow> table" where
  "hash_add H d st = st\<lparr>ht := (ht st)[H (key d) := d # ht st ! H (key d)]\<rparr>"

text \<open>\<open>hash_del\<close> takes the node out of the list it is in.\<close>

definition hash_del :: "my_data \<Rightarrow> table \<Rightarrow> table" where
  "hash_del d st = st\<lparr>ht := map (remove1 d) (ht st)\<rparr>"

definition add_element :: "(u32 \<Rightarrow> nat) \<Rightarrow> addr_alloc \<Rightarrow> u32 \<Rightarrow> byte list \<Rightarrow> table \<Rightarrow> table" where
  "add_element H A k n st =
     (case halloc A st of
        (None, st1) \<Rightarrow> st1
      | (Some a, st1) \<Rightarrow> hash_add H \<lparr>node = a, key = k, name = n\<rparr> st1)"

definition remove_element :: "my_data \<Rightarrow> table \<Rightarrow> (table, unit) run" where
  "remove_element d st = hfree (node d) (hash_del d st)"

definition get_element :: "(u32 \<Rightarrow> nat) \<Rightarrow> u32 \<Rightarrow> table \<Rightarrow> my_data option" where
  "get_element H k st = List.find (\<lambda>d. key d = k) (ht st ! H k)"

fun remove_each :: "my_data list \<Rightarrow> table \<Rightarrow> (table, unit) run" where
  "remove_each [] st = Ret st ()"
| "remove_each (d # ds) st = run_bind (remove_element d st) (\<lambda>st1 _. remove_each ds st1)"

fun clear_from :: "nat list \<Rightarrow> table \<Rightarrow> (table, unit) run" where
  "clear_from [] st = Ret st ()"
| "clear_from (i # is) st = run_bind (remove_each (ht st ! i) st) (\<lambda>st1 _. clear_from is st1)"

definition clear :: "table \<Rightarrow> (table, unit) run" where
  "clear st = clear_from [0..<HASH_SIZE] st"

definition entry_log :: "my_data \<Rightarrow> klog list" where
  "entry_log d = [LogInt (sint (key d)), LogStr (name d)]"

definition print_hash_table :: "table \<Rightarrow> table" where
  "print_hash_table st = st\<lparr>dmesg := dmesg st @ concat (map (\<lambda>i. concat (map entry_log (ht st ! i))) [0..<HASH_SIZE])\<rparr>"

text \<open>The names \<open>John\<close> and \<open>Bob\<close>.\<close>

definition john :: "byte list" where "john = [74, 111, 104, 110]"
definition bob :: "byte list" where "bob = [66, 111, 98]"

definition my_init :: "(u32 \<Rightarrow> nat) \<Rightarrow> addr_alloc \<Rightarrow> table \<Rightarrow> (table, int) run" where
  "my_init H A st =
     (let st1 = print_hash_table (add_element H A 2 bob (add_element H A 1 john (hash_init st)))
      in run_bind (case get_element H 1 st1 of None \<Rightarrow> Ret st1 () | Some p \<Rightarrow> remove_element p st1)
           (\<lambda>st2 _. run_bind (clear (print_hash_table st2)) (\<lambda>st3 _. Ret st3 0)))"

section \<open>Invariant and abstraction\<close>

text \<open>Every element is in the list of its hash and has a live block of its own.\<close>

definition table_ok :: "(u32 \<Rightarrow> nat) \<Rightarrow> table \<Rightarrow> bool" where
  "table_ok H st \<longleftrightarrow> length (ht st) = HASH_SIZE \<and> (\<forall>i<HASH_SIZE. \<forall>d\<in>set (ht st ! i). H (key d) = i) \<and>
     distinct (map node (concat (ht st))) \<and> node ` set (concat (ht st)) \<subseteq> set (hblocks st) \<and> distinct (hblocks st)"

text \<open>The names under a key, the newest first.\<close>

definition names :: "(u32 \<Rightarrow> nat) \<Rightarrow> table \<Rightarrow> u32 \<Rightarrow> byte list list" where
  "names H st k = map name (filter (\<lambda>d. key d = k) (ht st ! H k))"

text \<open>The kernel's hash of a 32-bit key to 7 bits: a multiplication, of which the high bits are kept.\<close>

definition hash_32 :: "u32 \<Rightarrow> nat" where
  "hash_32 k = unat (drop_bit 25 (k * 0x61C88647))"

locale hash_function =
  fixes H :: "u32 \<Rightarrow> nat"
  assumes hash_bound: "H k < HASH_SIZE"

interpretation hash32: hash_function hash_32
proof
  fix k :: u32
  have "unat (k * 0x61C88647) < 128 * 2 ^ 25" using unsigned_less [of "k * 0x61C88647"] by simp
  then show "hash_32 k < HASH_SIZE"
    unfolding hash_32_def unat_drop_bit_eq drop_bit_eq_div [of 25 "unat _"] HASH_SIZE_def by (rule less_mult_imp_div_less)
qed

section \<open>Lemmas\<close>

lemma find_concat_hash:
  assumes "i < length xss" and "\<forall>j<length xss. \<forall>x\<in>set (xss ! j). P x \<longrightarrow> j = i"
  shows "List.find P (concat xss) = List.find P (xss ! i)"
  using assms
proof (induction xss arbitrary: i)
  case (Cons xs xss)
  have app: "List.find P (xs @ ys) = (case List.find P xs of None \<Rightarrow> List.find P ys | Some x \<Rightarrow> Some x)" for ys
    by (induction xs) auto
  show ?case
  proof (cases i)
    case 0
    have "\<not> P y" if y: "y \<in> set (concat xss)" for y
    proof -
      obtain ys where "ys \<in> set xss" "y \<in> set ys" using y by auto
      then obtain j where j: "j < length xss" "y \<in> set (xss ! j)" using in_set_conv_nth [of ys xss] by auto
      then show ?thesis using Cons.prems(2) [rule_format, of "Suc j" y] 0 by auto
    qed
    then have "List.find P (concat xss) = None" unfolding find_None_iff by blast
    then show ?thesis using 0 by (simp add: app split: option.split)
  next
    case (Suc m)
    have "\<not> P y" if "y \<in> set xs" for y using Cons.prems(2) [rule_format, of 0 y] that Suc by auto
    then have "List.find P xs = None" by (simp add: find_None_iff)
    moreover have "j = m" if "j < length xss" "y \<in> set (xss ! j)" "P y" for j y
      using Cons.prems(2) [rule_format, of "Suc j" y] that Suc by simp
    ultimately show ?thesis using Cons.IH [of m] Cons.prems(1) Suc by (simp add: app)
  qed
qed simp

lemma concat_remove1:
  "distinct (concat xss) \<Longrightarrow> concat (map (remove1 d) xss) = remove1 d (concat xss)"
proof (induction xss)
  case (Cons xs xss)
  have "map (remove1 d) xss = xss" if "d \<in> set xs"
  proof (rule map_idI)
    fix ys assume "ys \<in> set xss"
    then show "remove1 d ys = ys" using Cons.prems that by (intro remove1_idem) auto
  qed
  then show ?case using Cons by (auto simp: remove1_append remove1_idem)
qed simp

lemma find_SomeD: "List.find P xs = Some d \<Longrightarrow> d \<in> set xs \<and> P d"
  by (induction xs) (auto split: if_splits)

lemma filter_remove1_other: "\<not> P d \<Longrightarrow> filter P (remove1 d xs) = filter P xs"
  by (induction xs) auto

lemma filter_remove1_first: "List.find P xs = Some d \<Longrightarrow> filter P (remove1 d xs) = tl (filter P xs)"
  by (induction xs) (auto split: if_splits dest: find_SomeD)

lemma concat_update_front:
  assumes "i < length xss"
  shows "\<exists>xs ys. concat xss = xs @ ys \<and> concat (xss[i := x # xss ! i]) = xs @ x # ys"
proof -
  have "concat xss = concat (take i xss) @ xss ! i @ concat (drop (Suc i) xss)"
    by (metis assms concat.simps(2) concat_append id_take_nth_drop)
  moreover have "concat (xss[i := x # xss ! i]) = concat (take i xss) @ x # xss ! i @ concat (drop (Suc i) xss)"
    using assms by (simp add: upd_conv_take_nth_drop)
  ultimately show ?thesis by blast
qed

text \<open>The live blocks that are not elements of the table.\<close>

definition foreign :: "table \<Rightarrow> addr set" where
  "foreign st = set (hblocks st) - node ` set (concat (ht st))"

lemma table_ok_bucket:
  "table_ok H st \<Longrightarrow> i < HASH_SIZE \<Longrightarrow> d \<in> set (ht st ! i) \<Longrightarrow> d \<in> set (concat (ht st)) \<and> H (key d) = i"
  by (auto simp: table_ok_def)

lemma remove_element_ok:
  assumes ok: "table_ok H st" and d: "d \<in> set (concat (ht st))"
  shows "\<exists>st'. remove_element d st = Ret st' () \<and> table_ok H st' \<and> ht st' = map (remove1 d) (ht st) \<and>
    foreign st' = foreign st \<and> dmesg st' = dmesg st"
proof -
  let ?st = "st\<lparr>ht := map (remove1 d) (ht st), hblocks := remove1 (node d) (hblocks st)\<rparr>"
  have dist: "distinct (concat (ht st))" "inj_on node (set (concat (ht st)))" "distinct (hblocks st)"
    using ok by (auto simp: table_ok_def distinct_map)
  have c: "concat (map (remove1 d) (ht st)) = remove1 d (concat (ht st))" by (rule concat_remove1 [OF dist(1)])
  have sub: "node ` set (concat (ht st)) \<subseteq> set (hblocks st)" using ok unfolding table_ok_def by blast
  have n: "node d \<in> set (hblocks st)" using sub d by blast
  have img: "node ` (set (concat (ht st)) - {d}) = node ` set (concat (ht st)) - {node d}"
    using dist(2) d by (auto dest: inj_onD)
  have sc: "set (remove1 d (concat (ht st))) = set (concat (ht st)) - {d}" using dist(1) by simp
  have "\<forall>i<HASH_SIZE. \<forall>x\<in>set (map (remove1 d) (ht st) ! i). H (key x) = i"
    using ok by (auto simp: table_ok_def dest: notin_set_remove1)
  moreover have "distinct (map node (remove1 d (concat (ht st))))"
    using dist sc by (auto simp: distinct_map intro: inj_on_subset)
  moreover have "node ` (set (concat (ht st)) - {d}) \<subseteq> set (hblocks st) - {node d}" using sub unfolding img by blast
  ultimately have "table_ok H ?st"
    using ok dist(3) sc unfolding table_ok_def by (simp add: c del: set_concat)
  moreover have "foreign ?st = foreign st" using dist(3) sc img d by (auto simp: foreign_def c simp del: set_concat)
  ultimately show ?thesis using n by (simp add: remove_element_def hash_del_def hfree_def)
qed

lemma get_element_Some:
  assumes "get_element H k st = Some d"
  shows "d \<in> set (ht st ! H k)" "key d = k"
  using assms by (auto simp: get_element_def dest: find_SomeD)

lemma bucket_remove1: "table_ok H st \<Longrightarrow> i < HASH_SIZE \<Longrightarrow> map (remove1 d) (ht st) ! i = remove1 d (ht st ! i)"
  by (simp add: table_ok_def)

lemma remove_each_ok:
  "table_ok H st \<Longrightarrow> i < HASH_SIZE \<Longrightarrow> ht st ! i = ds \<Longrightarrow>
   \<exists>st'. remove_each ds st = Ret st' () \<and> table_ok H st' \<and> ht st' ! i = [] \<and>
     (\<forall>j<HASH_SIZE. ht st ! j = [] \<longrightarrow> ht st' ! j = []) \<and> foreign st' = foreign st \<and> dmesg st' = dmesg st"
proof (induction ds arbitrary: st)
  case (Cons d ds)
  have "d \<in> set (concat (ht st))" using table_ok_bucket [OF Cons.prems(1,2)] Cons.prems(3) by simp
  from remove_element_ok [OF Cons.prems(1) this] obtain st1 where st1: "remove_element d st = Ret st1 ()" "table_ok H st1"
    "ht st1 = map (remove1 d) (ht st)" "foreign st1 = foreign st" "dmesg st1 = dmesg st" by blast
  have "ht st1 ! i = ds" using st1(3) bucket_remove1 [OF Cons.prems(1,2)] Cons.prems(3) by simp
  from Cons.IH [OF st1(2) Cons.prems(2) this] obtain st2 where st2: "remove_each ds st1 = Ret st2 ()" "table_ok H st2" "ht st2 ! i = []"
    "\<forall>j<HASH_SIZE. ht st1 ! j = [] \<longrightarrow> ht st2 ! j = []" "foreign st2 = foreign st1" "dmesg st2 = dmesg st1" by blast
  have "\<forall>j<HASH_SIZE. ht st ! j = [] \<longrightarrow> ht st1 ! j = []" using st1(3) bucket_remove1 [OF Cons.prems(1)] by simp
  then show ?case using st1 st2 by auto
qed simp

lemma clear_from_ok:
  "table_ok H st \<Longrightarrow> set is \<subseteq> {..<HASH_SIZE} \<Longrightarrow>
   \<exists>st'. clear_from is st = Ret st' () \<and> table_ok H st' \<and> (\<forall>i\<in>set is. ht st' ! i = []) \<and>
     (\<forall>j<HASH_SIZE. ht st ! j = [] \<longrightarrow> ht st' ! j = []) \<and> foreign st' = foreign st \<and> dmesg st' = dmesg st"
proof (induction "is" arbitrary: st)
  case (Cons i "is")
  then have i: "i < HASH_SIZE" by simp
  obtain st1 where st1: "remove_each (ht st ! i) st = Ret st1 ()" "table_ok H st1" "ht st1 ! i = []"
    "\<forall>j<HASH_SIZE. ht st ! j = [] \<longrightarrow> ht st1 ! j = []" "foreign st1 = foreign st" "dmesg st1 = dmesg st"
    using remove_each_ok [OF Cons.prems(1) i refl] by blast
  obtain st2 where st2: "clear_from is st1 = Ret st2 ()" "table_ok H st2" "\<forall>i\<in>set is. ht st2 ! i = []"
    "\<forall>j<HASH_SIZE. ht st1 ! j = [] \<longrightarrow> ht st2 ! j = []" "foreign st2 = foreign st1" "dmesg st2 = dmesg st1"
    using Cons.IH [OF st1(2)] Cons.prems(2) by auto
  then show ?case using st1 i by auto
qed simp

lemma clear_ok:
  assumes "table_ok H st"
  shows "\<exists>st'. clear st = Ret st' () \<and> table_ok H st' \<and> concat (ht st') = [] \<and> set (hblocks st') = foreign st \<and> dmesg st' = dmesg st"
proof -
  obtain st' where st': "clear st = Ret st' ()" "table_ok H st'" "\<forall>i<HASH_SIZE. ht st' ! i = []"
    "foreign st' = foreign st" "dmesg st' = dmesg st"
    using clear_from_ok [OF assms, of "[0..<HASH_SIZE]"] by (auto simp: clear_def atLeast0LessThan)
  have e: "concat (ht st') = []" using st'(2,3) by (auto simp: table_ok_def in_set_conv_nth)
  then have "foreign st' = set (hblocks st')" unfolding foreign_def by (simp del: set_concat concat_eq_Nil_conv)
  then show ?thesis using st' e by blast
qed

context hash_function
begin

lemma add_element_ok:
  assumes ok: "table_ok H st" and A: "fresh_alloc A"
  shows "table_ok H (add_element H A k n st) \<and> foreign (add_element H A k n st) = foreign st \<and>
    dmesg (add_element H A k n st) = dmesg st \<and>
    names H (add_element H A k n st) =
      (if A (hblocks st) (hcalls st) = None then names H st else (names H st)(k := n # names H st k))"
proof (cases "A (hblocks st) (hcalls st)")
  case None
  then show ?thesis using ok by (simp add: add_element_def halloc_def table_ok_def foreign_def names_def fun_eq_iff)
next
  case (Some a)
  have fresh: "a \<notin> set (hblocks st)" by (rule fresh_alloc.alloc_fresh [OF A Some])
  let ?d = "\<lparr>node = a, key = k, name = n\<rparr>" and ?b = "ht st ! H k"
  let ?ht = "(ht st)[H k := \<lparr>node = a, key = k, name = n\<rparr> # ht st ! H k]"
  have l: "H k < length (ht st)" using hash_bound ok by (simp add: table_ok_def)
  obtain xs ys where c: "concat (ht st) = xs @ ys" "concat ?ht = xs @ ?d # ys"
    using concat_update_front [OF l, of ?d] by blast
  have sc: "set (concat ?ht) = insert ?d (set (concat (ht st)))" unfolding c by auto
  have sub: "node ` set (concat (ht st)) \<subseteq> set (hblocks st)" using ok unfolding table_ok_def by blast
  let ?st = "st\<lparr>hcalls := Suc (hcalls st), hblocks := a # hblocks st, ht := ?ht\<rparr>"
  have add: "add_element H A k n st = ?st" using Some by (simp add: add_element_def halloc_def hash_add_def)
  have "distinct (map node (concat (ht st)))" using ok by (simp add: table_ok_def)
  then have "distinct (map node (concat ?ht))" unfolding c using fresh sub unfolding c by auto
  moreover have "\<forall>i<HASH_SIZE. \<forall>d\<in>set (?ht ! i). H (key d) = i"
    using ok l by (auto simp: table_ok_def nth_list_update)
  ultimately have "table_ok H ?st"
    using ok fresh sub sc unfolding table_ok_def by (auto simp del: set_concat)
  moreover have "foreign ?st = foreign st" using fresh sub sc by (auto simp: foreign_def simp del: set_concat)
  moreover have "names H ?st = (names H st)(k := n # names H st k)"
  proof
    fix k'
    show "names H ?st k' = ((names H st)(k := n # names H st k)) k'"
      using l by (cases "H k' = H k") (auto simp: names_def)
  qed
  ultimately show ?thesis using Some by (simp add: add)
qed

lemma get_element_linear:
  assumes "table_ok H st"
  shows "get_element H k st = List.find (\<lambda>d. key d = k) (concat (ht st))"
proof -
  have "\<forall>j<length (ht st). \<forall>d\<in>set (ht st ! j). key d = k \<longrightarrow> j = H k" using assms by (auto simp: table_ok_def)
  moreover have "H k < length (ht st)" using hash_bound assms by (simp add: table_ok_def)
  ultimately show ?thesis unfolding get_element_def by (intro find_concat_hash [symmetric])
qed

lemma get_element_names:
  "map_option name (get_element H k st) = (case names H st k of [] \<Rightarrow> None | n # _ \<Rightarrow> Some n)"
proof -
  have "map_option name (List.find P xs) = (case map name (filter P xs) of [] \<Rightarrow> None | n # _ \<Rightarrow> Some n)" for P and xs :: "my_data list"
    by (induction xs) auto
  then show ?thesis by (simp add: get_element_def names_def)
qed

lemma remove_found_ok:
  assumes ok: "table_ok H st" and d: "get_element H k st = Some d"
  shows "\<exists>st'. remove_element d st = Ret st' () \<and> table_ok H st' \<and> foreign st' = foreign st \<and> dmesg st' = dmesg st \<and>
    names H st' = (names H st)(k := tl (names H st k))"
proof -
  have mem: "d \<in> set (concat (ht st))" "key d = k"
    using table_ok_bucket [OF ok hash_bound] get_element_Some [OF d] by auto
  obtain st' where st': "remove_element d st = Ret st' ()" "table_ok H st'" "ht st' = map (remove1 d) (ht st)"
    "foreign st' = foreign st" "dmesg st' = dmesg st" using remove_element_ok [OF ok mem(1)] by blast
  have "names H st' = (names H st)(k := tl (names H st k))"
  proof
    fix k'
    have "names H st' k' = map name (filter (\<lambda>d. key d = k') (remove1 d (ht st ! H k')))"
      by (simp add: names_def st'(3) bucket_remove1 [OF ok hash_bound])
    then show "names H st' k' = ((names H st)(k := tl (names H st k))) k'"
      using filter_remove1_first [OF d [unfolded get_element_def]] filter_remove1_other [of "\<lambda>d. key d = k'" d] mem(2)
      by (cases "k' = k") (simp_all add: names_def map_tl)
  qed
  then show ?thesis using st' by blast
qed

end

text \<open>The operations of a client, and what they should do to the names under each key.\<close>

datatype map_op = Add u32 "byte list" | RemoveKey u32 | Clear

fun run_op :: "(u32 \<Rightarrow> nat) \<Rightarrow> addr_alloc \<Rightarrow> map_op \<Rightarrow> table \<Rightarrow> (table, unit) run" where
  "run_op H A (Add k n) st = Ret (add_element H A k n st) ()"
| "run_op H A (RemoveKey k) st = (case get_element H k st of None \<Rightarrow> Ret st () | Some d \<Rightarrow> remove_element d st)"
| "run_op H A Clear st = clear st"

fun run_ops :: "(u32 \<Rightarrow> nat) \<Rightarrow> addr_alloc \<Rightarrow> map_op list \<Rightarrow> table \<Rightarrow> (table, unit) run" where
  "run_ops H A [] st = Ret st ()"
| "run_ops H A (x # xs) st = run_bind (run_op H A x st) (\<lambda>st1 _. run_ops H A xs st1)"

fun spec_op :: "map_op \<Rightarrow> (u32 \<Rightarrow> byte list list) \<Rightarrow> u32 \<Rightarrow> byte list list" where
  "spec_op (Add k n) f = f(k := n # f k)"
| "spec_op (RemoveKey k) f = f(k := tl (f k))"
| "spec_op Clear f = (\<lambda>_. [])"

locale hash_module = hash_function H + total_alloc A for H :: "u32 \<Rightarrow> nat" and A :: addr_alloc
begin

lemma run_op_ok:
  assumes ok: "table_ok H st"
  shows "\<exists>st'. run_op H A x st = Ret st' () \<and> table_ok H st' \<and> foreign st' = foreign st \<and> names H st' = spec_op x (names H st)"
proof (cases x)
  case (Add k n)
  then show ?thesis using add_element_ok [OF ok fresh_alloc_axioms, of k n] alloc_total by simp
next
  case (RemoveKey k)
  show ?thesis
  proof (cases "get_element H k st")
    case None
    then have "names H st k = []" using get_element_names [of k st] by (auto split: list.splits)
    then have "names H st = (names H st)(k := tl (names H st k))" by auto
    then show ?thesis using RemoveKey None ok by simp
  next
    case (Some d)
    then show ?thesis using RemoveKey remove_found_ok [OF ok Some] by auto
  qed
next
  case Clear
  obtain st' where st': "clear st = Ret st' ()" "table_ok H st'" "concat (ht st') = []" "set (hblocks st') = foreign st"
    using clear_ok [OF ok] by blast
  have "H k < length (ht st')" for k using st'(2) hash_bound by (simp add: table_ok_def)
  then have "ht st' ! H k = []" for k using st'(3) nth_mem [of "H k" "ht st'"] by (auto simp: concat_eq_Nil_conv)
  then have "names H st' = (\<lambda>_. [])" by (simp add: names_def fun_eq_iff)
  moreover have "foreign st' = foreign st" using st'(3,4) unfolding foreign_def [of st'] by (simp del: set_concat concat_eq_Nil_conv)
  ultimately show ?thesis using Clear st' by simp
qed

lemma run_ops_ok:
  "table_ok H st \<Longrightarrow> \<exists>st'. run_ops H A xs st = Ret st' () \<and> table_ok H st' \<and> foreign st' = foreign st \<and>
     names H st' = fold spec_op xs (names H st)"
proof (induction xs arbitrary: st)
  case (Cons x xs)
  obtain st1 where st1: "run_op H A x st = Ret st1 ()" "table_ok H st1" "foreign st1 = foreign st" "names H st1 = spec_op x (names H st)"
    using run_op_ok [OF Cons.prems, of x] by blast
  then show ?case using Cons.IH [OF st1(2)] by auto
qed simp

lemma hash_init_ok:
  assumes "distinct (hblocks st)"
  shows "table_ok H (hash_init st)" "names H (hash_init st) = (\<lambda>_. [])" "foreign (hash_init st) = set (hblocks st)"
  using assms hash_bound by (auto simp: table_ok_def hash_init_def names_def foreign_def)

lemma print_frame [simp]:
  "table_ok H (print_hash_table st) = table_ok H st" "names H (print_hash_table st) = names H st"
  "foreign (print_hash_table st) = foreign st" "get_element H k (print_hash_table st) = get_element H k st"
  by (simp_all add: print_hash_table_def table_ok_def names_def foreign_def get_element_def fun_eq_iff)

lemma my_init_ok:
  assumes d: "distinct (hblocks st)"
  shows "\<exists>st'. my_init H A st = Ret st' 0 \<and> concat (ht st') = [] \<and> set (hblocks st') = set (hblocks st)"
proof -
  define st1 where "st1 = print_hash_table (add_element H A 2 bob (add_element H A 1 john (hash_init st)))"
  note init = hash_init_ok [OF d]
  note s1 = add_element_ok [OF init(1) fresh_alloc_axioms, of 1 john]
  note s2 = add_element_ok [OF conjunct1 [OF s1] fresh_alloc_axioms, of 2 bob]
  have ok: "table_ok H st1" "foreign st1 = set (hblocks st)" "names H st1 1 = [john]"
    using s1 s2 init alloc_total by (simp_all add: st1_def)
  then obtain p where p: "get_element H 1 st1 = Some p" using get_element_names [of 1 st1] by auto
  obtain st2 where st2: "remove_element p st1 = Ret st2 ()" "table_ok H st2" "foreign st2 = foreign st1"
    using remove_found_ok [OF ok(1) p] by blast
  obtain st3 where "clear (print_hash_table st2) = Ret st3 ()" "concat (ht st3) = []" "set (hblocks st3) = foreign st2"
    using clear_ok [of H "print_hash_table st2"] st2(2) by auto
  then show ?thesis using p st2 ok(2) by (simp add: my_init_def st1_def [symmetric] Let_def)
qed

end

interpretation hash_demo: hash_module hash_32 next_addr ..

definition no_table :: table where
  "no_table = \<lparr>hblocks = [], hcalls = 0, ht = [], dmesg = []\<rparr>"

section \<open>Properties\<close>

text \<open>
  C10. The hash table with adding, removing by key and clearing refines a function from keys to
  stacks of names, whatever the hash function: every operation returns and keeps the invariant,
  looking up a key gives the name added last and not yet removed, removal uncovers the name below
  it, and no block is lost or freed twice: the blocks outside the table stay the same.
\<close>

theorem hashmap_refines_stacks:
  assumes "hash_module H A" and "table_ok H st"
  shows "\<exists>st'. run_ops H A xs st = Ret st' () \<and> table_ok H st' \<and> foreign st' = foreign st \<and>
    names H st' = fold spec_op xs (names H st) \<and>
    (\<forall>k. map_option name (get_element H k st') = (case fold spec_op xs (names H st) k of [] \<Rightarrow> None | n # _ \<Rightarrow> Some n))"
proof -
  have "hash_function H" using assms(1) by (simp add: hash_module_def)
  then show ?thesis
    using hash_module.run_ops_ok [OF assms, of xs] hash_function.get_element_names [of H] by fastforce
qed

theorem hashmap_refines_stacks_witness:
  "\<exists>st'. run_ops hash_32 next_addr [Add 1 john, Add 1 bob, RemoveKey 1] (hash_init no_table) = Ret st' () \<and>
     map_option name (get_element hash_32 1 st') = Some john"
proof -
  have d: "distinct (hblocks no_table)" by (simp add: no_table_def)
  note init = hash_demo.hash_init_ok [OF d]
  from hashmap_refines_stacks [OF hash_demo.hash_module_axioms init(1), of "[Add 1 john, Add 1 bob, RemoveKey 1]"]
  obtain st' where "run_ops hash_32 next_addr [Add 1 john, Add 1 bob, RemoveKey 1] (hash_init no_table) = Ret st' ()"
    "map_option name (get_element hash_32 1 st') =
      (case fold spec_op [Add 1 john, Add 1 bob, RemoveKey 1] (names hash_32 (hash_init no_table)) 1 of [] \<Rightarrow> None | n # _ \<Rightarrow> Some n)"
    by blast
  then show ?thesis by (auto simp: init(2))
qed

text \<open>
  Looking at the one list that the hash selects finds the same element as a linear search
  through the whole table.
\<close>

theorem hashmap_get_linear:
  assumes "hash_function H" and "table_ok H st"
  shows "get_element H k st = List.find (\<lambda>d. key d = k) (concat (ht st))"
  by (rule hash_function.get_element_linear [OF assms])

theorem hashmap_get_linear_witness:
  "get_element hash_32 1 (hash_init no_table) = List.find (\<lambda>d. key d = 1) (concat (ht (hash_init no_table)))"
  by (rule hashmap_get_linear [OF hash32.hash_function_axioms hash_demo.hash_init_ok(1)]) (simp add: no_table_def)

text \<open>The test run at load time returns 0, ends with an empty table and gives all its memory back.\<close>

theorem hashmap_my_init:
  assumes "hash_module H A" and "distinct (hblocks st)"
  shows "\<exists>st'. my_init H A st = Ret st' 0 \<and> concat (ht st') = [] \<and> set (hblocks st') = set (hblocks st)"
  by (rule hash_module.my_init_ok [OF assms])

end
