(* ===== verification/Rhashtable.thy ===== *)
theory Rhashtable
  imports Kernel_Heap
begin

text \<open>
  The test of the kernel's resizable hash table in \<open>src/rhashtable/main.c\<close>: it inserts the squares of
  0 to 999, looks each up twice, removes one entry and destroys the table. The table is an interface
  whose laws speak of the dictionary it stands for; memory and insertion may fail.
\<close>

section \<open>Model\<close>












section \<open>The interface\<close>




section \<open>An instance\<close>








section \<open>Properties\<close>



end
