(* ===== verification/Tasklet.thy ===== *)
theory Tasklet
  imports Kernel_Heap
begin

text \<open>
  The interrupt and tasklet demonstration of \<open>src/tasklet/main.c\<close>. Interrupts, the tasklet and the
  module's load and unload interleave; unloading is two steps, killing the tasklet and then freeing
  the interrupt, between which an interrupt may still come.
\<close>

section \<open>Model\<close>

datatype phase = Unloaded | Loaded | Killed | Gone

datatype irqreturn_t = IRQ_NONE | IRQ_HANDLED

record tasklet_state =
  irq_num :: int
  irq_counter :: u32
  scheduled :: bool
  module_phase :: phase
  dmesg :: "klog list"

definition tasklet_start :: tasklet_state where
  "tasklet_start = \<lparr>irq_num = 1, irq_counter = 0, scheduled = False, module_phase = Unloaded, dmesg = []\<rparr>"

definition my_tasklet_handler :: "int \<Rightarrow> tasklet_state \<Rightarrow> tasklet_state" where
  "my_tasklet_handler d st = st\<lparr>dmesg := dmesg st @ [LogInt d]\<rparr>"

text \<open>A tasklet that is scheduled already is not scheduled a second time.\<close>

definition tasklet_schedule :: "tasklet_state \<Rightarrow> tasklet_state" where
  "tasklet_schedule st = st\<lparr>scheduled := True\<rparr>"

definition irq_handler :: "int \<Rightarrow> tasklet_state \<Rightarrow> tasklet_state \<times> irqreturn_t" where
  "irq_handler irq st =
     (if irq \<noteq> irq_num st then (st, IRQ_NONE)
      else (tasklet_schedule (st\<lparr>irq_counter := irq_counter st + 1\<rparr>), IRQ_HANDLED))"

text \<open>\<open>request\<close> is the result of \<open>request_irq\<close>.\<close>

definition tasklet_demo_init :: "int \<Rightarrow> tasklet_state \<Rightarrow> tasklet_state \<times> int" where
  "tasklet_demo_init request st =
     (let st1 = st\<lparr>scheduled := False\<rparr>
      in if request \<noteq> 0 then (st1, - EIO) else (st1\<lparr>module_phase := Loaded\<rparr>, 0))"

text \<open>\<open>tasklet_kill\<close> waits until the tasklet is not scheduled; \<open>free_irq\<close> and the last message follow.\<close>

definition tasklet_kill :: "tasklet_state \<Rightarrow> tasklet_state option" where
  "tasklet_kill st = (if scheduled st then None else Some (st\<lparr>module_phase := Killed\<rparr>))"

definition free_irq :: "tasklet_state \<Rightarrow> tasklet_state" where
  "free_irq st = st\<lparr>module_phase := Gone, dmesg := dmesg st @ [LogInt (sint (irq_counter st))]\<rparr>"

definition tasklet_demo_exit :: "tasklet_state \<Rightarrow> tasklet_state option" where
  "tasklet_demo_exit st = map_option free_irq (tasklet_kill st)"

datatype event = Load int | Irq int | Softirq | Kill | Free

inductive step :: "tasklet_state \<Rightarrow> event \<Rightarrow> tasklet_state \<Rightarrow> bool" where
  load: "module_phase st = Unloaded \<Longrightarrow> step st (Load r) (fst (tasklet_demo_init r st))"
| irq: "module_phase st \<in> {Loaded, Killed} \<Longrightarrow> step st (Irq n) (fst (irq_handler n st))"
| softirq: "scheduled st \<Longrightarrow> module_phase st \<in> {Loaded, Killed} \<Longrightarrow>
    step st Softirq (my_tasklet_handler 0x1234 (st\<lparr>scheduled := False\<rparr>))"
| kill: "module_phase st = Loaded \<Longrightarrow> tasklet_kill st = Some st' \<Longrightarrow> step st Kill st'"
| free: "module_phase st = Killed \<Longrightarrow> step st Free (free_irq st)"

inductive_cases step_LoadE: "step st (Load r) st'"
inductive_cases step_IrqE: "step st (Irq n) st'"
inductive_cases step_SoftirqE: "step st Softirq st'"
inductive_cases step_KillE: "step st Kill st'"
inductive_cases step_FreeE: "step st Free st'"

lemmas stepEs = step_LoadE step_IrqE step_SoftirqE step_KillE step_FreeE

inductive history :: "event list \<Rightarrow> tasklet_state \<Rightarrow> bool" where
  start: "history [] tasklet_start"
| more: "history es st \<Longrightarrow> step st e st' \<Longrightarrow> history (es @ [e]) st'"

section \<open>Invariant\<close>

definition interrupts :: "event list \<Rightarrow> nat" where
  "interrupts es = length (filter (\<lambda>e. e = Irq 1) es)"

definition softirqs :: "event list \<Rightarrow> nat" where
  "softirqs es = length (filter (\<lambda>e. e = Softirq) es)"

text \<open>The events after the tasklet was killed.\<close>

definition after_kill :: "event list \<Rightarrow> event list" where
  "after_kill es = tl (dropWhile (\<lambda>e. e \<noteq> Kill) es)"

lemma counts_simps [simp]:
  "interrupts [] = 0" "interrupts (es @ [e]) = interrupts es + (if e = Irq 1 then 1 else 0)"
  "softirqs [] = 0" "softirqs (es @ [e]) = softirqs es + (if e = Softirq then 1 else 0)"
  by (simp_all add: interrupts_def softirqs_def)

lemma after_kill_append: "Kill \<in> set es \<Longrightarrow> after_kill (es @ [e]) = after_kill es @ [e]"
  by (induction es) (auto simp: after_kill_def)

lemma after_kill_now: "Kill \<notin> set es \<Longrightarrow> after_kill (es @ [Kill]) = []"
  by (induction es) (auto simp: after_kill_def)

definition history_inv :: "event list \<Rightarrow> tasklet_state \<Rightarrow> bool" where
  "history_inv es st \<longleftrightarrow> irq_num st = 1 \<and> irq_counter st = of_nat (interrupts es) \<and>
     softirqs es + (if scheduled st then 1 else 0) \<le> interrupts es \<and>
     (scheduled st \<longrightarrow> module_phase st \<noteq> Unloaded) \<and>
     (Kill \<in> set es \<longleftrightarrow> module_phase st \<in> {Killed, Gone}) \<and>
     (Kill \<in> set es \<longrightarrow> scheduled st \<longrightarrow> Irq 1 \<in> set (after_kill es))"

lemma history_inv_holds: "history es st \<Longrightarrow> history_inv es st"
proof (induction rule: history.induct)
  case start
  then show ?case by (simp add: history_inv_def tasklet_start_def)
next
  case (more es st e st')
  show ?case
  proof (cases e)
    case (Load r)
    then show ?thesis using more
      by (cases "r = 0") (auto elim!: stepEs simp: history_inv_def tasklet_demo_init_def Let_def after_kill_append)
  next
    case (Irq n)
    then show ?thesis using more
      by (cases "n = 1") (auto elim!: stepEs simp: history_inv_def irq_handler_def tasklet_schedule_def after_kill_append)
  next
    case Softirq
    then show ?thesis using more by (auto elim!: stepEs simp: history_inv_def my_tasklet_handler_def after_kill_append)
  next
    case Kill
    then show ?thesis using more by (auto elim!: stepEs simp: history_inv_def tasklet_kill_def after_kill_now split: if_splits)
  next
    case Free
    then show ?thesis using more by (auto elim!: stepEs simp: history_inv_def free_irq_def after_kill_append)
  qed
qed

text \<open>An interrupt between the two steps of the unload.\<close>

definition late_interrupt :: "event list" where
  "late_interrupt = [Load 0, Kill, Irq 1, Free]"

lemma late_history:
  "history late_interrupt (free_irq (tasklet_schedule (tasklet_start\<lparr>module_phase := Killed, irq_counter := 1\<rparr>)))"
proof -
  let ?s1 = "tasklet_start\<lparr>module_phase := Loaded\<rparr>" and ?s2 = "tasklet_start\<lparr>module_phase := Killed\<rparr>"
  let ?s3 = "tasklet_schedule (tasklet_start\<lparr>module_phase := Killed, irq_counter := 1\<rparr>)"
  have "step tasklet_start (Load 0) ?s1"
    using step.load [of tasklet_start 0] by (simp add: tasklet_demo_init_def tasklet_start_def)
  then have "history ([] @ [Load 0]) ?s1" by (rule history.more [OF history.start])
  moreover have "step ?s1 Kill ?s2" by (rule step.kill) (simp_all add: tasklet_kill_def tasklet_start_def)
  ultimately have "history (([] @ [Load 0]) @ [Kill]) ?s2" by (rule history.more)
  moreover have "step ?s2 (Irq 1) ?s3"
    using step.irq [of ?s2 1] by (simp add: irq_handler_def tasklet_start_def tasklet_schedule_def)
  ultimately have "history ((([] @ [Load 0]) @ [Kill]) @ [Irq 1]) ?s3" by (rule history.more)
  moreover have "step ?s3 Free (free_irq ?s3)" by (rule step.free) (simp add: tasklet_schedule_def)
  ultimately show ?thesis unfolding late_interrupt_def by (auto dest: history.more)
qed

section \<open>Properties\<close>

text \<open>
  C17. In every interleaving of interrupts, tasklet runs, load and unload: the counter is the number
  of interrupts on the module's line, to 32 bits; the tasklet runs at most once for each of them,
  and at least one run is still to come while it is scheduled; and when the module is gone the
  tasklet can only be scheduled if an interrupt came after it was killed.
\<close>

theorem tasklet_history:
  assumes "history es st"
  shows "irq_counter st = of_nat (interrupts es) \<and>
    softirqs es + (if scheduled st then 1 else 0) \<le> interrupts es \<and>
    (module_phase st = Gone \<longrightarrow> Irq 1 \<notin> set (after_kill es) \<longrightarrow> \<not> scheduled st)"
  using history_inv_holds [OF assms] by (auto simp: history_inv_def)

theorem tasklet_history_witness:
  "\<exists>st. history late_interrupt st \<and> irq_counter st = 1 \<and> softirqs late_interrupt \<le> interrupts late_interrupt"
  using tasklet_history [OF late_history] late_history by (auto simp: late_interrupt_def interrupts_def softirqs_def)


end
