(* ===== verification/Timers.thy ===== *)
theory Timers
  imports Kernel_Heap
begin

text \<open>
  The two periodic timers of \<open>src/second/\<close>: \<open>main.c\<close> arms a kernel timer again from its callback,
  counted in jiffies, a 64-bit counter that wraps; \<open>hrtimer.c\<close> moves the expiry of a high resolution
  timer forward by whole intervals of 500 ms.
\<close>

section \<open>The jiffies timer\<close>

text \<open>
  \<open>ticks\<close> is the true number of ticks since boot and \<open>jiffies\<close> what the kernel keeps of it: the
  counter starts at an arbitrary value. \<open>fired\<close> records at which tick the callback ran.
\<close>

record timer_state =
  boot :: u64
  ticks :: nat
  expires :: "u64 option"
  fired :: "nat list"
  dmesg :: "klog list"

definition jiffies :: "timer_state \<Rightarrow> u64" where
  "jiffies st = boot st + of_nat (ticks st)"

definition time_after_eq :: "u64 \<Rightarrow> u64 \<Rightarrow> bool" where
  "time_after_eq a b \<longleftrightarrow> 0 \<le> sint (a - b)"

definition mod_timer :: "u64 \<Rightarrow> timer_state \<Rightarrow> timer_state" where
  "mod_timer e st = st\<lparr>expires := Some e\<rparr>"

text \<open>\<open>M\<close> is the kernel's \<open>msecs_to_jiffies\<close>.\<close>

definition timer_callback :: "(nat \<Rightarrow> u64) \<Rightarrow> timer_state \<Rightarrow> timer_state" where
  "timer_callback M st =
     (let st1 = st\<lparr>dmesg := dmesg st @ [LogInt (uint (jiffies st))], fired := fired st @ [ticks st]\<rparr>
      in mod_timer (jiffies st1 + M 2000) st1)"

definition timer_init :: "(nat \<Rightarrow> u64) \<Rightarrow> timer_state \<Rightarrow> timer_state \<times> int" where
  "timer_init M st = (mod_timer (jiffies st + M 2000) (st\<lparr>expires := None\<rparr>), 0)"

definition timer_exit :: "timer_state \<Rightarrow> timer_state" where
  "timer_exit st = st\<lparr>expires := None\<rparr>"

text \<open>Time passes; a timer that has expired runs its callback, disarmed, at some tick.\<close>

inductive timer_run :: "(nat \<Rightarrow> u64) \<Rightarrow> timer_state \<Rightarrow> timer_state \<Rightarrow> bool" for M :: "nat \<Rightarrow> u64" and st0 :: timer_state where
  init: "timer_run M st0 (fst (timer_init M st0))"
| tick: "timer_run M st0 st \<Longrightarrow> timer_run M st0 (st\<lparr>ticks := Suc (ticks st)\<rparr>)"
| fire: "timer_run M st0 st \<Longrightarrow> expires st = Some e \<Longrightarrow> time_after_eq (jiffies st) e \<Longrightarrow>
    timer_run M st0 (timer_callback M (st\<lparr>expires := None\<rparr>))"
| exit: "timer_run M st0 st \<Longrightarrow> timer_run M st0 (timer_exit st)"

definition period :: "(nat \<Rightarrow> u64) \<Rightarrow> nat" where
  "period M = unat (M 2000)"

text \<open>The ticks at which the timer was armed, in a list of starts, are at least a period apart.\<close>

definition timer_inv :: "(nat \<Rightarrow> u64) \<Rightarrow> timer_state \<Rightarrow> timer_state \<Rightarrow> bool" where
  "timer_inv M st0 st \<longleftrightarrow> boot st = boot st0 \<and>
     (let starts = ticks st0 # fired st
      in (\<forall>i. Suc i < length starts \<longrightarrow> starts ! i + period M \<le> starts ! Suc i) \<and> last starts \<le> ticks st \<and>
         (case expires st of None \<Rightarrow> True | Some e \<Rightarrow> e = boot st + of_nat (last starts) + M 2000))"

lemma early_not_expired:
  assumes "s \<le> t" and "t < s + unat d" and "unat d < 2 ^ 63"
  shows "\<not> time_after_eq (b + of_nat t) (b + of_nat s + d :: u64)"
proof -
  define k where "k = int t - int s - int (unat d)"
  have eq: "b + of_nat t - (b + of_nat s + d) = of_int k" by (simp add: k_def)
  have "int (unat d) < 2 ^ 63" using assms(3) of_nat_less_iff [of "unat d" "2 ^ 63", where 'a = int] by simp
  then have k: "k < 0" "- (2 ^ 63) \<le> k" using assms(1,2) unfolding k_def by linarith+
  then have "sint (of_int k :: u64) = k" by (simp add: signed_of_int signed_take_bit_int_eq_self)
  then show ?thesis unfolding time_after_eq_def eq using k(1) by simp
qed

lemma timer_inv_holds:
  assumes p: "period M < 2 ^ 63" and none: "fired st0 = []"
  shows "timer_run M st0 st \<Longrightarrow> timer_inv M st0 st"
proof (induction rule: timer_run.induct)
  case init
  then show ?case using none by (simp add: timer_inv_def timer_init_def mod_timer_def jiffies_def)
next
  case (tick st)
  then show ?case by (auto simp: timer_inv_def Let_def split: option.splits)
next
  case (fire st e)
  define starts where "starts = ticks st0 # fired st"
  have inv: "boot st = boot st0" "\<forall>i. Suc i < length starts \<longrightarrow> starts ! i + period M \<le> starts ! Suc i" "last starts \<le> ticks st"
    "e = boot st + of_nat (last starts) + M 2000"
    using fire.IH fire.hyps(2) by (auto simp: timer_inv_def Let_def starts_def)
  have late: "last starts + period M \<le> ticks st"
    using early_not_expired [OF inv(3), of "M 2000" "boot st"] fire.hyps(3) p inv(4)
    by (force simp: jiffies_def period_def)
  have "(starts @ [ticks st]) ! i + period M \<le> (starts @ [ticks st]) ! Suc i" if "Suc i < length (starts @ [ticks st])" for i
  proof (cases "Suc i < length starts")
    case True
    then show ?thesis using inv(2) by (simp add: nth_append)
  next
    case False
    then have i: "length starts = Suc i" using that by simp
    have "starts \<noteq> []" by (simp add: starts_def)
    then have "starts ! i = last starts" using last_conv_nth [of starts] i by simp
    then show ?thesis using late i by (simp add: nth_append)
  qed
  then show ?case
    using inv(1) by (simp add: timer_inv_def timer_callback_def mod_timer_def jiffies_def starts_def)
next
  case (exit st)
  then show ?case by (simp add: timer_inv_def timer_exit_def Let_def)
qed

section \<open>The high resolution timer\<close>

text \<open>\<open>slots\<close> records which expiry each callback served and when it ran, in nanoseconds.\<close>

record hr_state =
  interval :: int
  hr_expires :: int
  hr_active :: bool
  now :: int
  slots :: "(int \<times> int) list"

datatype hrtimer_restart = HRTIMER_NORESTART | HRTIMER_RESTART

definition ktime_set :: "int \<Rightarrow> int \<Rightarrow> int" where
  "ktime_set s ns = s * 1000000000 + ns"

text \<open>\<open>F now e i\<close> is the expiry that \<open>hrtimer_forward\<close> gives a timer with expiry \<open>e\<close>.\<close>

definition hrtimer_callback :: "(int \<Rightarrow> int \<Rightarrow> int \<Rightarrow> int) \<Rightarrow> hr_state \<Rightarrow> hr_state \<times> hrtimer_restart" where
  "hrtimer_callback F st =
     (st\<lparr>slots := slots st @ [(hr_expires st, now st)], hr_expires := F (now st) (hr_expires st) (interval st)\<rparr>, HRTIMER_RESTART)"

definition hrtimer_init :: "hr_state \<Rightarrow> hr_state \<times> int" where
  "hrtimer_init st =
     (let i = ktime_set 0 500000000
      in (st\<lparr>interval := i, hr_expires := now st + i, hr_active := True\<rparr>, 0))"

definition hrtimer_exit :: "hr_state \<Rightarrow> hr_state" where
  "hrtimer_exit st = st\<lparr>hr_active := False\<rparr>"

text \<open>The kernel runs the callback of an active timer that has expired and keeps it active if told so.\<close>

definition hr_interrupt :: "(int \<Rightarrow> int \<Rightarrow> int \<Rightarrow> int) \<Rightarrow> hr_state \<Rightarrow> hr_state" where
  "hr_interrupt F st = (case hrtimer_callback F st of (st1, r) \<Rightarrow> st1\<lparr>hr_active := (r = HRTIMER_RESTART)\<rparr>)"

inductive hr_run :: "(int \<Rightarrow> int \<Rightarrow> int \<Rightarrow> int) \<Rightarrow> hr_state \<Rightarrow> hr_state \<Rightarrow> bool" for F and st0 :: hr_state where
  hr_init: "hr_run F st0 (fst (hrtimer_init st0))"
| hr_time: "hr_run F st0 st \<Longrightarrow> now st \<le> t \<Longrightarrow> hr_run F st0 (st\<lparr>now := t\<rparr>)"
| hr_fire: "hr_run F st0 st \<Longrightarrow> hr_active st \<Longrightarrow> hr_expires st \<le> now st \<Longrightarrow> hr_run F st0 (hr_interrupt F st)"
| hr_exit: "hr_run F st0 st \<Longrightarrow> hr_run F st0 (hrtimer_exit st)"

text \<open>\<open>hrtimer_forward\<close> moves the expiry by whole intervals to the first point in the future.\<close>

locale hrtimer_api =
  fixes F :: "int \<Rightarrow> int \<Rightarrow> int \<Rightarrow> int"
  assumes forward_whole: "0 < i \<Longrightarrow> i dvd F t e i - e"
    and forward_future: "0 < i \<Longrightarrow> e \<le> t \<Longrightarrow> t < F t e i \<and> F t e i \<le> t + i"

definition hr_inv :: "hr_state \<Rightarrow> hr_state \<Rightarrow> bool" where
  "hr_inv st0 st \<longleftrightarrow> interval st = 500000000 \<and> 500000000 dvd hr_expires st - now st0 \<and>
     (\<forall>(e, t)\<in>set (slots st). 500000000 dvd e - now st0 \<and> e \<le> t \<and> t < hr_expires st \<and> t \<le> now st) \<and>
     sorted_wrt (\<lambda>x y. snd x < fst y) (slots st) \<and> hr_expires st \<le> now st + 500000000"

context hrtimer_api
begin

lemma hr_inv_holds:
  assumes none: "slots st0 = []"
  shows "hr_run F st0 st \<Longrightarrow> hr_inv st0 st"
proof (induction rule: hr_run.induct)
  case hr_init
  then show ?case using none by (simp add: hr_inv_def hrtimer_init_def ktime_set_def)
next
  case (hr_time st t)
  then show ?case by (fastforce simp: hr_inv_def)
next
  case (hr_fire st)
  let ?e = "F (now st) (hr_expires st) 500000000"
  have i: "interval st = 500000000" and d: "500000000 dvd hr_expires st - now st0" using hr_fire.IH by (simp_all add: hr_inv_def)
  have f: "now st < ?e" "?e \<le> now st + 500000000" using forward_future [of 500000000 "hr_expires st" "now st"] hr_fire.hyps(3) by simp_all
  have "500000000 dvd (?e - hr_expires st) + (hr_expires st - now st0)"
    using forward_whole [of 500000000 "now st" "hr_expires st"] d by (intro dvd_add) simp_all
  then have "500000000 dvd ?e - now st0" by simp
  then show ?case
    using hr_fire f i by (fastforce simp: hr_inv_def hr_interrupt_def hrtimer_callback_def sorted_wrt_append)
next
  case (hr_exit st)
  then show ?case by (simp add: hr_inv_def hrtimer_exit_def)
qed

end

definition forward_by_intervals :: "int \<Rightarrow> int \<Rightarrow> int \<Rightarrow> int" where
  "forward_by_intervals t e i = (if t < e then e else e + ((t - e) div i + 1) * i)"

interpretation forward: hrtimer_api forward_by_intervals
proof
  fix i t e :: int assume i: "0 < i"
  show "i dvd forward_by_intervals t e i - e" by (simp add: forward_by_intervals_def)
  assume "e \<le> t"
  define q m where "q = (t - e) div i" and "m = (t - e) mod i"
  have "t - e = q * i + m" "0 \<le> m" "m < i" using i by (simp_all add: q_def m_def)
  moreover have "forward_by_intervals t e i = e + (q * i + i)"
    using \<open>e \<le> t\<close> by (simp add: forward_by_intervals_def q_def distrib_right)
  ultimately show "t < forward_by_intervals t e i \<and> forward_by_intervals t e i \<le> t + i" by linarith
qed

section \<open>Runs\<close>

text \<open>One jiffy in a second, a counter that is about to wrap, and the first callback.\<close>

definition hz_1 :: "nat \<Rightarrow> u64" where
  "hz_1 m = of_nat (m div 1000)"

definition timer_start :: timer_state where
  "timer_start = \<lparr>boot = - 1, ticks = 0, expires = None, fired = [], dmesg = []\<rparr>"

lemma timer_fires: "\<exists>st. timer_run hz_1 timer_start st \<and> fired st = [2]"
proof -
  let ?s = "timer_start\<lparr>expires := Some 1\<rparr>"
  have "timer_run hz_1 timer_start ?s"
    using timer_run.init [of hz_1 timer_start] by (simp add: timer_init_def mod_timer_def jiffies_def timer_start_def hz_1_def)
  then have "timer_run hz_1 timer_start (?s\<lparr>ticks := 1\<rparr>)"
    using timer_run.tick [of hz_1 timer_start ?s] by (simp add: timer_start_def)
  then have "timer_run hz_1 timer_start (?s\<lparr>ticks := 2\<rparr>)"
    using timer_run.tick [of hz_1 timer_start "?s\<lparr>ticks := 1\<rparr>"] by (simp add: numeral_2_eq_2)
  then have "timer_run hz_1 timer_start (timer_callback hz_1 (?s\<lparr>ticks := 2, expires := None\<rparr>))"
    using timer_run.fire [of hz_1 timer_start "?s\<lparr>ticks := 2\<rparr>" 1] by (simp add: time_after_eq_def jiffies_def timer_start_def)
  moreover have "fired (timer_callback hz_1 (?s\<lparr>ticks := 2, expires := None\<rparr>)) = [2]"
    by (simp add: timer_callback_def mod_timer_def timer_start_def Let_def)
  ultimately show ?thesis by blast
qed

definition hr_start :: hr_state where
  "hr_start = \<lparr>interval = 0, hr_expires = 0, hr_active = False, now = 7, slots = []\<rparr>"

text \<open>A callback that is late by more than one interval.\<close>

lemma hr_fires:
  "\<exists>st. hr_run forward_by_intervals hr_start st \<and> slots st = [(500000007, 1100000000)] \<and> hr_expires st = 1500000007"
proof -
  let ?s = "fst (hrtimer_init hr_start)\<lparr>now := 1100000000\<rparr>"
  have "hr_run forward_by_intervals hr_start ?s"
    by (rule hr_run.hr_time [OF hr_run.hr_init]) (simp add: hrtimer_init_def hr_start_def Let_def)
  then have "hr_run forward_by_intervals hr_start (hr_interrupt forward_by_intervals ?s)"
    by (rule hr_run.hr_fire) (simp_all add: hrtimer_init_def hr_start_def ktime_set_def Let_def)
  moreover have "slots (hr_interrupt forward_by_intervals ?s) = [(500000007, 1100000000)]"
    "hr_expires (hr_interrupt forward_by_intervals ?s) = 1500000007"
    by (simp_all add: hr_interrupt_def hrtimer_callback_def hrtimer_init_def hr_start_def ktime_set_def
        forward_by_intervals_def Let_def)
  ultimately show ?thesis by blast
qed

section \<open>Properties\<close>

text \<open>
  C26. The jiffies timer is never early: between two callbacks, and between loading and the first
  one, at least the period of 2 s passes, also when the jiffies counter wraps around in between.
\<close>

theorem timer_never_early:
  assumes "timer_run M st0 st" and "period M < 2 ^ 63" and "fired st0 = []"
  shows "\<forall>i. Suc i < length (ticks st0 # fired st) \<longrightarrow>
    (ticks st0 # fired st) ! i + period M \<le> (ticks st0 # fired st) ! Suc i"
  using timer_inv_holds [OF assms(2,3,1)] by (simp add: timer_inv_def Let_def)

theorem timer_never_early_witness:
  "\<exists>st. timer_run hz_1 timer_start st \<and> fired st = [2] \<and> 0 + period hz_1 \<le> 2"
proof -
  obtain st where st: "timer_run hz_1 timer_start st" "fired st = [2]" using timer_fires by blast
  have p: "period hz_1 < 2 ^ 63" "fired timer_start = []" "ticks timer_start = 0"
    by (simp_all add: period_def hz_1_def timer_start_def)
  show ?thesis using timer_never_early [OF st(1) p(1,2)] st p(3) by auto
qed

text \<open>
  The high resolution timer does not drift: every callback serves an expiry that is a whole
  number of 500 ms intervals after the start, runs at or after it, no two callbacks serve the same
  interval, and the next expiry is at most one interval away.
\<close>

theorem hrtimer_keeps_phase:
  assumes "hrtimer_api F" and "hr_run F st0 st" and "slots st0 = []"
  shows "(\<forall>(e, t)\<in>set (slots st). 500000000 dvd e - now st0 \<and> e \<le> t) \<and>
    sorted_wrt (\<lambda>x y. snd x < fst y) (slots st) \<and> 500000000 dvd hr_expires st - now st0 \<and>
    hr_expires st \<le> now st + 500000000"
  using hrtimer_api.hr_inv_holds [OF assms(1,3,2)] by (auto simp: hr_inv_def)

theorem hrtimer_keeps_phase_witness:
  "\<exists>st. hr_run forward_by_intervals hr_start st \<and> slots st = [(500000007, 1100000000)] \<and>
     500000000 dvd hr_expires st - now hr_start"
proof -
  obtain st where st: "hr_run forward_by_intervals hr_start st" "slots st = [(500000007, 1100000000)]" using hr_fires by blast
  have "slots hr_start = []" by (simp add: hr_start_def)
  then show ?thesis using hrtimer_keeps_phase [OF forward.hrtimer_api_axioms st(1)] st by blast
qed

end
