(* ===== verification/Bio.thy ===== *)
theory Bio
  imports Kernel_Heap
begin

text \<open>
  The raw block I/O module of \<open>src/bio/main.c\<close>: at load time it opens a disk, writes sector 2, reads it
  back and logs it. The disk, the success of each request and the contents of fresh memory are
  parameters.
\<close>

section \<open>Model\<close>

definition SECTOR_SIZE :: nat where "SECTOR_SIZE = 512"













section \<open>Lemmas\<close>










section \<open>Properties\<close>



section \<open>The constants behind it\<close>

text \<open>
  \<open>src/bio/hello.c\<close> prints the page shift (12 here) and how many sectors a page has, and refuses to
  stay loaded.
\<close>

definition PAGE_SHIFT :: nat where "PAGE_SHIFT = 12"

definition bio_hello_init :: "klog list \<Rightarrow> klog list \<times> int" where
  "bio_hello_init l =
     (let page = 2 ^ PAGE_SHIFT
      in (l @ [LogInt (int PAGE_SHIFT), LogInt (int page), LogInt (int SECTOR_SIZE), LogInt (int (page div SECTOR_SIZE))], - EINVAL))"

lemma bio_hello_init_log: "bio_hello_init l = (l @ [LogInt 12, LogInt 4096, LogInt 512, LogInt 8], - EINVAL)"
  by (simp add: bio_hello_init_def PAGE_SHIFT_def SECTOR_SIZE_def Let_def)

end
