(* ===== verification/Netlink.thy ===== *)
theory Netlink
  imports Kernel_Heap
begin

text \<open>
  The kernel side of the netlink example, \<open>src/netlink/main.c\<close>: a socket whose receive callback
  answers every message that has at least a header. Socket buffers are counted blocks; sending
  hands the buffer over to the socket layer.
\<close>

section \<open>Model\<close>

definition USER_MSG :: int where "USER_MSG = 29"

text \<open>\<open>NLMSG_SPACE(0)\<close>, the size of a header.\<close>

definition NLMSG_SPACE_0 :: nat where "NLMSG_SPACE_0 = 16"

record sk_buff =
  skb_len :: nat
  nlmsg_pid :: int
  nlmsg_seq :: int

record netlink_state = heap +
  netlink_fd :: bool
  skb_users :: int
  sent :: "(int \<times> byte list) list"
  dmesg :: "klog list"

text \<open>
  \<open>put_ok\<close> says whether \<open>nlmsg_put\<close> finds room; \<open>unicast\<close> is the result of \<open>netlink_unicast\<close> for a
  port, which consumes the buffer in every case and delivers it when the result is not negative.
\<close>

record netlink_kernel =
  alloc :: addr_alloc
  create_ok :: bool
  put_ok :: bool
  unicast :: "int \<Rightarrow> int"

fun stringlen :: "byte list \<Rightarrow> nat option" where
  "stringlen [] = None"
| "stringlen (c # cs) = (if c = 0 then Some 0 else map_option Suc (stringlen cs))"

definition send_msg :: "netlink_kernel \<Rightarrow> byte list \<Rightarrow> int \<Rightarrow> netlink_state \<Rightarrow> (netlink_state, int) run" where
  "send_msg K pbuf pid st =
     (case stringlen pbuf of
        None \<Rightarrow> Fault OutOfBounds
      | Some len \<Rightarrow>
          (case halloc (alloc K) st of
             (None, st1) \<Rightarrow> Ret st1 (- 1)
           | (Some skb, st1) \<Rightarrow>
               if \<not> put_ok K then run_bind (hfree skb st1) (\<lambda>st2 _. Ret st2 (- 1))
               else case mem_load pbuf 0 len of
                 None \<Rightarrow> Fault OutOfBounds
               | Some payload \<Rightarrow>
                   if \<not> netlink_fd st1 then Fault NullDeref
                   else run_bind (hfree skb st1) (\<lambda>st2 _.
                     Ret (if 0 \<le> unicast K pid then st2\<lparr>sent := sent st2 @ [(pid, payload)]\<rparr> else st2) (unicast K pid))))"

text \<open>The text \<open>hello userspace\<close>.\<close>

definition hello_userspace :: "byte list" where
  "hello_userspace = [104, 101, 108, 108, 111, 32, 117, 115, 101, 114, 115, 112, 97, 99, 101]"

definition nl_bind :: "int \<Rightarrow> netlink_state \<Rightarrow> netlink_state \<times> int" where
  "nl_bind g st = (st\<lparr>dmesg := dmesg st @ [LogInt g]\<rparr>, 0)"

definition recv_cb :: "netlink_kernel \<Rightarrow> sk_buff \<Rightarrow> netlink_state \<Rightarrow> (netlink_state, unit) run" where
  "recv_cb K skb st =
     (let st0 = st\<lparr>skb_users := skb_users st + 1, dmesg := dmesg st @ [LogInt (int (skb_len skb))]\<rparr>
      in run_bind
           (if skb_len skb < NLMSG_SPACE_0 then Ret st0 ()
            else case halloc (alloc K) st0 of (setup, st1) \<Rightarrow>
              run_bind (send_msg K (hello_userspace @ [0]) (nlmsg_pid skb)
                  (st1\<lparr>dmesg := dmesg st1 @ [LogInt (nlmsg_pid skb), LogInt (nlmsg_seq skb)]\<rparr>))
                (\<lambda>st2 _. Ret st2 ()))
           (\<lambda>st3 _. Ret (st3\<lparr>skb_users := skb_users st3 - 1\<rparr>) ()))"

definition test_netlink_init :: "netlink_kernel \<Rightarrow> netlink_state \<Rightarrow> netlink_state \<times> int" where
  "test_netlink_init K st = (if \<not> create_ok K then (st\<lparr>netlink_fd := False\<rparr>, - 1) else (st\<lparr>netlink_fd := True\<rparr>, 0))"

definition test_netlink_exit :: "netlink_state \<Rightarrow> netlink_state" where
  "test_netlink_exit st = st\<lparr>netlink_fd := False\<rparr>"

section \<open>Lemmas\<close>

lemma stringlen_ok: "0 \<notin> set s \<Longrightarrow> stringlen (s @ 0 # t) = Some (length s)"
  by (induction s) auto

fun recv_all :: "netlink_kernel \<Rightarrow> sk_buff list \<Rightarrow> netlink_state \<Rightarrow> (netlink_state, unit) run" where
  "recv_all K [] st = Ret st ()"
| "recv_all K (skb # skbs) st = run_bind (recv_cb K skb st) (\<lambda>st1 _. recv_all K skbs st1)"

text \<open>The messages that are answered, and the answers that arrive.\<close>

definition requests :: "sk_buff list \<Rightarrow> sk_buff list" where
  "requests skbs = filter (\<lambda>skb. NLMSG_SPACE_0 \<le> skb_len skb) skbs"

definition answers :: "netlink_kernel \<Rightarrow> sk_buff list \<Rightarrow> (int \<times> byte list) list" where
  "answers K skbs = map (\<lambda>skb. (nlmsg_pid skb, hello_userspace))
     (filter (\<lambda>skb. put_ok K \<and> 0 \<le> unicast K (nlmsg_pid skb)) (requests skbs))"

locale netlink_api = total_alloc "alloc K" for K :: netlink_kernel
begin

lemma send_ok:
  assumes "netlink_fd st"
  shows "\<exists>n ret. send_msg K (hello_userspace @ [0]) pid st =
    Ret (st\<lparr>hcalls := n, sent := sent st @ (if put_ok K \<and> 0 \<le> unicast K pid then [(pid, hello_userspace)] else [])\<rparr>) ret"
proof -
  obtain a where a: "a \<notin> set (hblocks st)" "halloc (alloc K) st = (Some a, st\<lparr>hcalls := Suc (hcalls st), hblocks := a # hblocks st\<rparr>)"
    using halloc_Some by blast
  have s: "stringlen (hello_userspace @ [0]) = Some 15" "mem_load (hello_userspace @ [0]) 0 15 = Some hello_userspace"
    by (simp_all add: hello_userspace_def mem_load_def)
  show ?thesis
    using a assms by (intro exI [of _ "Suc (hcalls st)"]) (auto simp: send_msg_def s hfree_def)
qed

lemma recv_ok:
  assumes "netlink_fd st"
  shows "\<exists>st'. recv_cb K skb st = Ret st' () \<and> netlink_fd st' \<and> skb_users st' = skb_users st \<and>
    sent st' = sent st @ answers K [skb] \<and> length (hblocks st') = length (hblocks st) + length (requests [skb])"
proof (cases "skb_len skb < NLMSG_SPACE_0")
  case True
  then show ?thesis using assms by (simp add: recv_cb_def answers_def requests_def)
next
  case False
  let ?st0 = "st\<lparr>skb_users := skb_users st + 1, dmesg := dmesg st @ [LogInt (int (skb_len skb))]\<rparr>"
  obtain a where a: "halloc (alloc K) ?st0 = (Some a, ?st0\<lparr>hcalls := Suc (hcalls st), hblocks := a # hblocks st\<rparr>)"
    using halloc_Some [of ?st0] by auto
  define st1 where "st1 = ?st0\<lparr>hcalls := Suc (hcalls st), hblocks := a # hblocks st,
    dmesg := dmesg ?st0 @ [LogInt (nlmsg_pid skb), LogInt (nlmsg_seq skb)]\<rparr>"
  have "netlink_fd st1" using assms by (simp add: st1_def)
  from send_ok [OF this, of "nlmsg_pid skb"] obtain n ret where "send_msg K (hello_userspace @ [0]) (nlmsg_pid skb) st1 =
      Ret (st1\<lparr>hcalls := n, sent := sent st1 @ (if put_ok K \<and> 0 \<le> unicast K (nlmsg_pid skb) then [(nlmsg_pid skb, hello_userspace)] else [])\<rparr>) ret"
    by blast
  then show ?thesis
    using False assms a by (simp add: recv_cb_def Let_def st1_def answers_def requests_def)
qed

lemma recv_all_ok:
  "netlink_fd st \<Longrightarrow> \<exists>st'. recv_all K skbs st = Ret st' () \<and> netlink_fd st' \<and> skb_users st' = skb_users st \<and>
     sent st' = sent st @ answers K skbs \<and> length (hblocks st') = length (hblocks st) + length (requests skbs)"
proof (induction skbs arbitrary: st)
  case (Cons skb skbs)
  obtain st1 where st1: "recv_cb K skb st = Ret st1 ()" "netlink_fd st1" "skb_users st1 = skb_users st"
    "sent st1 = sent st @ answers K [skb]" "length (hblocks st1) = length (hblocks st) + length (requests [skb])"
    using recv_ok [OF Cons.prems] by blast
  have "answers K (skb # skbs) = answers K [skb] @ answers K skbs" "requests (skb # skbs) = requests [skb] @ requests skbs"
    by (simp_all add: answers_def requests_def)
  then show ?case using Cons.IH [OF st1(2)] st1 by auto
qed (simp add: answers_def requests_def)

end

definition demo_netlink :: netlink_kernel where
  "demo_netlink = \<lparr>alloc = next_addr, create_ok = True, put_ok = True, unicast = (\<lambda>pid. if pid = 50 then 31 else - 111)\<rparr>"

interpretation demo: netlink_api demo_netlink
  by (simp add: netlink_api_def demo_netlink_def next_addr.total_alloc_axioms)

definition netlink_start :: netlink_state where
  "netlink_start = \<lparr>hblocks = [], hcalls = 0, netlink_fd = False, skb_users = 0, sent = [], dmesg = []\<rparr>"

section \<open>Properties\<close>

text \<open>
  C25. Whatever messages arrive while the socket exists, the callback returns for each; exactly those
  with at least a header are answered, in order, each with the text without its zero byte to the port
  in the header, if the buffer has room and the delivery works; the references to the messages are
  balanced; and each of them loses one block, the parameters that are allocated and not used.
\<close>

theorem netlink_answers:
  assumes "netlink_api K" and "netlink_fd st"
  shows "\<exists>st'. recv_all K skbs st = Ret st' () \<and> netlink_fd st' \<and> skb_users st' = skb_users st \<and>
    sent st' = sent st @ answers K skbs \<and> length (hblocks st') = length (hblocks st) + length (requests skbs)"
  by (rule netlink_api.recv_all_ok [OF assms])

theorem netlink_answers_witness:
  "\<exists>st'. recv_all demo_netlink [\<lparr>skb_len = 1040, nlmsg_pid = 50, nlmsg_seq = 0\<rparr>, \<lparr>skb_len = 4, nlmsg_pid = 50, nlmsg_seq = 0\<rparr>]
     (fst (test_netlink_init demo_netlink netlink_start)) = Ret st' () \<and> sent st' = [(50, hello_userspace)] \<and> length (hblocks st') = 1"
proof -
  let ?st = "fst (test_netlink_init demo_netlink netlink_start)"
  have f: "netlink_fd ?st" "sent ?st = []" "hblocks ?st = []"
    by (simp_all add: test_netlink_init_def demo_netlink_def netlink_start_def)
  let ?msgs = "[\<lparr>skb_len = 1040, nlmsg_pid = 50, nlmsg_seq = 0\<rparr>, \<lparr>skb_len = 4, nlmsg_pid = 50, nlmsg_seq = 0\<rparr>] :: sk_buff list"
  have "answers demo_netlink ?msgs = [(50, hello_userspace)]" "length (requests ?msgs) = 1"
    by (simp_all add: answers_def requests_def NLMSG_SPACE_0_def demo_netlink_def)
  then show ?thesis using netlink_answers [OF demo.netlink_api_axioms f(1), of ?msgs] unfolding f by (metis append_Nil list.size(3) add_0)
qed

end
