(* ===== verification/Netlink_Client.thy ===== *)
theory Netlink_Client
  imports Netlink Dumps
begin

text \<open>
  The user-space side of the netlink example, \<open>src/netlink/netlink.c\<close>: one request with a header and
  1024 bytes of payload, one answer, which it prints. The socket calls act on the other side, a
  parameter; \<open>Spec2Isabelle\<close> puts the kernel module of \<open>Netlink\<close> there. Messages without values are left
  out.
\<close>

section \<open>Model\<close>

definition MAX_PLOAD :: nat where "MAX_PLOAD = 1024"

text \<open>\<open>NLMSG_SPACE(MAX_PLOAD)\<close> and \<open>NLMSG_LENGTH(MAX_PLOAD)\<close>, both with a header of 16 bytes.\<close>

definition NLMSG_SPACE_MAX :: nat where "NLMSG_SPACE_MAX = 16 + MAX_PLOAD"

record client_state = heap +
  sock_open :: bool
  printed :: "klog list"

text \<open>
  \<open>junk\<close> is the contents of a fresh block. \<open>sendto\<close> hands the bytes to the other side and gives what
  the call returns; \<open>recvfrom\<close> gives the bytes of a message to a port, at most so many, or fails.
\<close>

record 'k socket_api =
  malloc :: addr_alloc
  junk :: "addr \<Rightarrow> byte list"
  socket_ret :: int
  bind_ret :: int
  sendto :: "byte list \<Rightarrow> 'k \<Rightarrow> ('k, int) run"
  recvfrom :: "u32 \<Rightarrow> nat \<Rightarrow> 'k \<Rightarrow> byte list option"

text \<open>A header: length, type and flags, sequence number, port.\<close>

definition nlmsghdr :: "u32 \<Rightarrow> u32 \<Rightarrow> u32 \<Rightarrow> byte list" where
  "nlmsghdr len sq port = id_bytes len @ [0, 0, 0, 0] @ id_bytes sq @ id_bytes port"

definition local_pid :: u32 where "local_pid = 50"

text \<open>The request carries the bytes of the pointer to the parameters.\<close>

definition ptr_bytes :: "addr \<Rightarrow> byte list" where
  "ptr_bytes a = map (\<lambda>i. of_nat (a div 256 ^ i)) [0..<8]"

definition close_sock :: "client_state \<Rightarrow> client_state" where
  "close_sock st = st\<lparr>sock_open := False\<rparr>"

text \<open>The result is the state of the other side with that of the client, and what \<open>main\<close> returns.\<close>

definition exchange :: "'k socket_api \<Rightarrow> addr \<Rightarrow> byte list \<Rightarrow> addr \<Rightarrow> 'k \<Rightarrow> client_state \<Rightarrow> ('k \<times> client_state, int) run" where
  "exchange S nlh request data k st =
     (case sendto S request k of
        Block k1 \<Rightarrow> Block (k1, st)
      | Fault f \<Rightarrow> Fault f
      | Ret k1 ret \<Rightarrow>
          (if ret < 0 then Ret (k1, close_sock st) (- 1)
           else case recvfrom S local_pid NLMSG_SPACE_MAX k1 of
             None \<Rightarrow> Ret (k1, close_sock st) (- 1)
           | Some bytes \<Rightarrow>
               (case mem_store (replicate NLMSG_SPACE_MAX 0) 0 bytes of
                  None \<Rightarrow> Fault OutOfBounds
                | Some b \<Rightarrow>
                    if \<not> has_nul (drop 16 b) then Fault OutOfBounds
                    else (case run_bind (hfree data (st\<lparr>printed := printed st @ [LogStr (cstr (drop 16 b))]\<rparr>))
                            (\<lambda>st1 _. hfree nlh (close_sock st1)) of
                            Ret st2 _ \<Rightarrow> Ret (k1, st2) 0 | Block st2 \<Rightarrow> Block (k1, st2) | Fault f \<Rightarrow> Fault f))))"

definition main :: "'k socket_api \<Rightarrow> 'k \<Rightarrow> client_state \<Rightarrow> ('k \<times> client_state, int) run" where
  "main S k st =
     (case halloc (malloc S) st of (None, _) \<Rightarrow> Fault NullDeref | (Some setup, st1) \<Rightarrow>
      case halloc (malloc S) st1 of (None, _) \<Rightarrow> Fault NullDeref | (Some data, st2) \<Rightarrow>
      if socket_ret S = - 1 then Ret (k, st2) (- 1)
      else let st3 = st2\<lparr>sock_open := True\<rparr>
      in if bind_ret S \<noteq> 0 then Ret (k, close_sock st3) (- 1)
      else case halloc (malloc S) st3 of (None, _) \<Rightarrow> Fault NullDeref | (Some nlh, st4) \<Rightarrow>
        (case Option.bind (mem_store (junk S nlh) 0 (nlmsghdr (of_nat NLMSG_SPACE_MAX) 0 local_pid))
                (\<lambda>b. Option.bind (mem_store b 16 (ptr_bytes setup)) (\<lambda>b. mem_load b 0 NLMSG_SPACE_MAX)) of
           None \<Rightarrow> Fault OutOfBounds
         | Some request \<Rightarrow> exchange S nlh request data k st4))"

section \<open>Lemmas\<close>

lemma length_id_bytes [simp]: "length (id_bytes w) = 4"
  by (simp add: id_bytes_def)

lemma length_nlmsghdr [simp]: "length (nlmsghdr l s p) = 16"
  by (simp add: nlmsghdr_def)

text \<open>Memory does not run out and a block is as long as what was asked for it.\<close>

locale client_libc = total_alloc "malloc S" for S :: "'k socket_api" +
  assumes junk_len: "NLMSG_SPACE_MAX \<le> length (junk S a)"
begin

lemma main_sends:
  assumes "socket_ret S \<noteq> - 1" and "bind_ret S = 0"
  shows "\<exists>setup data nlh request tl st1. main S k st = exchange S nlh request data k st1 \<and>
    request = nlmsghdr (of_nat NLMSG_SPACE_MAX) 0 local_pid @ tl \<and> length request = NLMSG_SPACE_MAX \<and>
    hblocks st1 = nlh # data # setup # hblocks st \<and> distinct [nlh, data, setup] \<and> printed st1 = printed st"
proof -
  obtain a where a: "a \<notin> set (hblocks st)" "halloc (malloc S) st = (Some a, st\<lparr>hcalls := Suc (hcalls st), hblocks := a # hblocks st\<rparr>)"
    using halloc_Some by blast
  define st1 where "st1 = st\<lparr>hcalls := Suc (hcalls st), hblocks := a # hblocks st\<rparr>"
  obtain d where d: "d \<notin> set (hblocks st1)" "halloc (malloc S) st1 = (Some d, st1\<lparr>hcalls := Suc (hcalls st1), hblocks := d # hblocks st1\<rparr>)"
    using halloc_Some by blast
  define st3 where "st3 = st1\<lparr>hcalls := Suc (hcalls st1), hblocks := d # hblocks st1, sock_open := True\<rparr>"
  obtain n where n: "n \<notin> set (hblocks st3)" "halloc (malloc S) st3 = (Some n, st3\<lparr>hcalls := Suc (hcalls st3), hblocks := n # hblocks st3\<rparr>)"
    using halloc_Some by blast
  let ?h = "nlmsghdr (of_nat NLMSG_SPACE_MAX) 0 local_pid" and ?d = "ptr_bytes a"
  have len: "1040 \<le> length (junk S x)" for x using junk_len by (simp add: NLMSG_SPACE_MAX_def MAX_PLOAD_def)
  have d8: "length ?d = 8" by (simp add: ptr_bytes_def)
  have s1: "mem_store (junk S n) 0 ?h = Some (?h @ drop 16 (junk S n))" using len [of n] by (simp add: mem_store_def)
  have s2: "mem_store (?h @ drop 16 (junk S n)) 16 ?d = Some (?h @ ?d @ drop 24 (junk S n))"
    using len [of n] d8 by (simp add: mem_store_def)
  define request where "request = take 1040 (?h @ ?d @ drop 24 (junk S n))"
  have s3: "mem_load (?h @ ?d @ drop 24 (junk S n)) 0 1040 = Some request" "length request = 1040"
    "request = ?h @ take 1024 (?d @ drop 24 (junk S n))"
    using len [of n] d8 by (simp_all add: mem_load_def request_def)
  have mx: "NLMSG_SPACE_MAX = 1040" by (simp add: NLMSG_SPACE_MAX_def MAX_PLOAD_def)
  have "main S k st = exchange S n request d k (st3\<lparr>hcalls := Suc (hcalls st3), hblocks := n # hblocks st3\<rparr>)"
    using assms s1 s2 s3(1)
    by (simp add: main_def a(2) st1_def [symmetric] d(2) st3_def [symmetric] n(2) Let_def mx)
  moreover have "distinct [n, d, a]" using d(1) n(1) by (auto simp: st1_def st3_def)
  ultimately show ?thesis
    using s3(2,3) mx by (intro exI [of _ a] exI [of _ d] exI [of _ n] exI [of _ request] exI) (auto simp: st3_def st1_def)
qed

end

text \<open>The end of the exchange when the answer is a header, a text and zero bytes.\<close>

lemma exchange_answered:
  assumes "sendto S request k = Ret k1 ret" "0 \<le> ret" "recvfrom S local_pid NLMSG_SPACE_MAX k1 = Some (h @ t @ replicate z 0)"
    and "length h = 16" "0 \<notin> set t" "length t + z \<le> MAX_PLOAD" "length t < MAX_PLOAD"
    and "data \<in> set (hblocks st)" "nlh \<in> set (hblocks st)" "data \<noteq> nlh"
  shows "\<exists>st1. exchange S nlh request data k st = Ret (k1, st1) 0 \<and> printed st1 = printed st @ [LogStr t] \<and>
    hblocks st1 = remove1 nlh (remove1 data (hblocks st)) \<and> \<not> sock_open st1"
proof -
  let ?n = "MAX_PLOAD - length t"
  have "mem_store (replicate NLMSG_SPACE_MAX 0) 0 (h @ t @ replicate z 0) = Some (h @ t @ replicate ?n 0)"
    using assms(4,6) by (simp add: mem_store_def NLMSG_SPACE_MAX_def flip: replicate_add)
  moreover obtain m where m: "?n = Suc m" using assms(7) by (metis Suc_diff_Suc)
  then have "has_nul (t @ replicate ?n 0)" "cstr (t @ replicate ?n 0) = t"
    using cstr_append [OF assms(5), of "replicate m 0"] by (simp_all add: has_nul_def)
  ultimately show ?thesis
    using assms(1-4,8-10) by (simp add: exchange_def hfree_def close_sock_def)
qed

end
