(* ===== verification/Thread_Demo.thy ===== *)
theory Thread_Demo
  imports Kernel_Heap
begin

text \<open>
  The thread and work queue demonstration of \<open>src/thread/main.c\<close>: a thread that prints until it is
  told to stop, and one piece of work on a work queue, which a worker may run at any time.
\<close>

section \<open>Model\<close>






text \<open>\<open>stop i\<close> is what \<open>kthread_should_stop\<close> answers the \<open>i\<close>-th time; the result is the number of lines.\<close>

partial_function (option) thread_function :: "(nat \<Rightarrow> bool) \<Rightarrow> nat \<Rightarrow> nat \<Rightarrow> nat option" where
  "thread_function stop i n = (if stop i then Some n else thread_function stop (Suc i) (Suc n))"





section \<open>Lemmas\<close>

lemma thread_function_stops:
  assumes "stop (i + k)" and "\<forall>j<k. \<not> stop (i + j)"
  shows "thread_function stop i n = Some (n + k)"
  using assms
proof (induction k arbitrary: i n)
  case 0
  then show ?case by (subst thread_function.simps) simp
next
  case (Suc k)
  have "\<not> stop i" using Suc.prems(2) [rule_format, of 0] by simp
  moreover have "thread_function stop (Suc i) (Suc n) = Some (Suc n + k)"
    using Suc.prems by (intro Suc.IH) auto
  ultimately show ?case by (subst thread_function.simps) simp
qed

lemma thread_function_some:
  assumes "thread_function stop i n = Some r"
  shows "\<exists>j. i \<le> j \<and> stop j"
proof (rule thread_function.raw_induct [OF _ assms, of "\<lambda>stop i n r. \<exists>j. i \<le> j \<and> stop j"])
  fix tf :: "(nat \<Rightarrow> bool) \<Rightarrow> nat \<Rightarrow> nat \<Rightarrow> nat option" and stop :: "nat \<Rightarrow> bool" and i n r :: nat
  assume IH: "\<And>stop i n r. tf stop i n = Some r \<Longrightarrow> \<exists>j. i \<le> j \<and> stop j"
    and body: "(if stop i then Some n else tf stop (Suc i) (Suc n)) = Some r"
  show "\<exists>j. i \<le> j \<and> stop j"
  proof (cases "stop i")
    case False
    then have "tf stop (Suc i) (Suc n) = Some r" using body by simp
    from IH [OF this] show ?thesis by (auto dest: Suc_leD)
  qed auto
qed

lemma thread_function_least:
  assumes "\<exists>i. stop i"
  shows "thread_function stop 0 0 = Some (LEAST i. stop i)"
proof -
  define k where "k = (LEAST i. stop i)"
  have "stop (0 + k)" using LeastI_ex [OF assms] by (simp add: k_def)
  moreover have "\<not> stop j" if "j < k" for j using not_less_Least [of j stop] that unfolding k_def by blast
  then have "\<forall>j<k. \<not> stop (0 + j)" by simp
  ultimately have "thread_function stop 0 0 = Some (0 + k)" by (rule thread_function_stops)
  then show ?thesis by (simp add: k_def)
qed

section \<open>Properties\<close>

text \<open>
  The thread returns exactly if it is told to stop at some time, and has then printed one line
  for each earlier check.
\<close>

theorem thread_function_returns:
  "(if \<exists>i. stop i then thread_function stop 0 0 = Some (LEAST i. stop i) else thread_function stop 0 0 = None)"
proof (cases "\<exists>i. stop i")
  case True
  then show ?thesis using thread_function_least by simp
next
  case False
  then show ?thesis using thread_function_some [of stop 0 0] by (cases "thread_function stop 0 0") auto
qed



end
