(* ===== verification/Hello.thy ===== *)
theory Hello
  imports Kernel_Heap
begin

text \<open>
  The first module, \<open>src/hello/hello.c\<close> with the functions of \<open>calc.c\<close>: module parameters, messages and
  32-bit arithmetic that the kernel compiles to wrap around.
\<close>

definition add_integer :: "u32 \<Rightarrow> u32 \<Rightarrow> u32" where
  "add_integer a b = a + b"

definition sub_integer :: "u32 \<Rightarrow> u32 \<Rightarrow> u32" where
  "sub_integer a b = a - b"

record hello_params =
  name :: "byte list"
  number :: u32

definition hello_init :: "hello_params \<Rightarrow> klog list \<Rightarrow> klog list \<times> int" where
  "hello_init p dmesg = (dmesg @ [LogStr (name p), LogInt (sint (number p)), LogInt (sint (add_integer 1 2))], 0)"

text \<open>The two functions undo each other, and compute the integer sum and difference when those fit.\<close>

lemma sub_add_integer: "sub_integer (add_integer a b) b = a"
  by (simp add: add_integer_def sub_integer_def)

lemma add_integer_fits:
  assumes "- (2 ^ 31) \<le> sint a + sint b" "sint a + sint b < 2 ^ 31"
  shows "sint (add_integer a b) = sint a + sint b"
  using assms by (simp add: add_integer_def sint_word_add signed_take_bit_int_eq_self)

lemma sub_integer_fits:
  assumes "- (2 ^ 31) \<le> sint a - sint b" "sint a - sint b < 2 ^ 31"
  shows "sint (sub_integer a b) = sint a - sint b"
  using assms sint_word_ariths(2) [of a b] by (simp add: sub_integer_def signed_take_bit_int_eq_self)

lemma hello_init_sum: "hello_init p [] = ([LogStr (name p), LogInt (sint (number p)), LogInt 3], 0)"
  by (simp add: hello_init_def add_integer_def)

end
