(* ===== verification/Spec2Isabelle.thy ===== *)
theory Spec2Isabelle
  imports Cdev Globalfifo_Spec Bdev StrView Container_Spec Rbtree Dumps Workfifo Interval_Tree Khook
    Hook Ftrace Hashmap Rhashtable Tasklet Timers Bio Netlink_Client Thread_Demo Hello
begin

text \<open>
  Verification of a collection of Linux kernel modules, one per directory of the repository's
  \<open>src/\<close>: character and block devices, containers, trees and hash tables, serialisation, probes on
  kernel functions, and demonstrations of threads, interrupts and timers. The modules are independent
  of each other; each has a load and an unload function and, between the two, handlers that the
  kernel calls. What they share is the kernel they run on.

  \<^bold>\<open>How code is modelled.\<close> A module's variables and the part of the kernel's state that it changes are a
  record; every function of the module is a definition on it, with all its branches. A function gives
  a \<open>run\<close>: \<open>Ret\<close> with the new state and the result, \<open>Block\<close> when it waits for ever, or \<open>Fault\<close> for an
  access that C does not allow: a null pointer, a byte outside its block, a block that was freed, a
  second \<open>kfree\<close>, a variable that was never set. Errors are the negative numbers that the code
  returns. Integers whose width matters are words: sizes and positions of devices, keys, counters,
  flags. What a module prints is a log in its state. Heap blocks either are byte lists, counted
  (\<open>kheap\<close>), or have addresses in a list of live blocks (\<open>heap\<close>), so that a theorem can say what is
  leaked.

  \<^bold>\<open>The kernel\<close> is not part of the repository. What a module uses of it is an argument of its
  definitions: allocators, \<open>copy_to_user\<close> and \<open>copy_from_user\<close>, the registration functions, the lists
  of \<open>linux/list.h\<close>, the red-black and interval trees, the hash tables, the block layer, ftrace. What
  the kernel documents of them are the assumptions of a locale (\<open>user_access\<close>, \<open>kalloc_api\<close>,
  \<open>fresh_alloc\<close>, \<open>total_alloc\<close>, \<open>list_api\<close> and \<open>rings\<close>, \<open>rb_tree\<close>, \<open>interval_trees\<close>, \<open>rhashtable\<close>, and
  one for the kernel side of each probe module); the lemmas on a module are proved in that locale and
  each locale is interpreted, on a flat user memory, on allocators that never fail, on cyclic lists
  in a store, on trees without colours, on sorted lists. The locales \<open>fifo_container\<close> and
  \<open>lifo_container\<close> are contracts that the repository's own containers are proved to meet.

  \<^bold>\<open>Loops.\<close> A loop that the data bounds is a recursive function. A loop that may run for ever
  (climbing to a root, following a list, waiting for a flag, growing a capacity) is a
  \<open>partial_function\<close> whose value is \<open>None\<close> if it does, and that it returns is part of what is proved.
  The one bound on depth is that of \<open>Ftrace.call_mount\<close>: a call that is redirected calls the original
  once, so depth 2 is enough, and the theorem is for every greater depth.

  \<^bold>\<open>Theories.\<close>
  \<^item> \<open>Kernel_Prelude\<close>: machine words, error numbers, memory blocks and user space access;
    \<open>Kernel_Heap\<close>: sequencing of runs, the two heaps, C strings; \<open>Char_Device\<close>: device registration;
    \<open>Klist\<close>: the kernel's lists; \<open>Search_Tree\<close>: the walks of the modules over red-black trees;
    \<open>Dentry_Path\<close>: absolute paths of directory entries, shared by the two probe modules.
  \<^item> \<open>Cdev\<close> (\<open>cdev/main.c\<close>): the memory device. No call reaches outside the 4096 bytes whatever its
    arguments are; a read gives what was written; the exact results of reading and seeking, and where
    the 32-bit position goes wrong.
  \<^item> \<open>Globalfifo\<close>, \<open>Globalfifo_Run\<close>, \<open>Globalfifo_Spec\<close> (\<open>globalfifo/main.c\<close>): the blocking FIFO as a
    state machine of tasks with program counters, interleaved at every access to the mutex and the
    wait queues. The bytes come out in the order they went in, nothing leaves the buffer, no wake-up
    is lost; \<open>poll\<close> takes the mutex and never gives it back; reading overlaps \<open>memcpy\<close>.
  \<^item> \<open>Bdev\<close> (\<open>bdev/main.c\<close>): the RAM disk. A read request gives what a write request stored, requests
    beyond the disk are refused, and the 32-bit offset wraps.
  \<^item> \<open>StrView\<close> (\<open>string/main.c\<close>): growable strings: what joining, searching and cutting compute, and
    exactly when growing returns.
  \<^item> \<open>Container\<close>, \<open>Container_Spec\<close> (\<open>list/\<close>): queue, stack and linked list keep their order; the index
    operations; printing; the destructors.
  \<^item> \<open>Rbtree\<close>, \<open>Interval_Tree\<close> (\<open>rbtree/\<close>): the dictionary refines a map; the interval search finds the
    last overlap and an unset pointer when there is none.
  \<^item> \<open>Hashmap\<close> (\<open>map/map.c\<close>), \<open>Rhashtable\<close> (\<open>rhashtable/main.c\<close>): the hash table refines a map to stacks
    for every hash function and a lookup equals a linear search; the test of the resizable table.
  \<^item> \<open>Dumps\<close> (\<open>dump/\<close>): unmarshalling undoes marshalling; what the module and the test program leak.
  \<^item> \<open>Khook\<close> (\<open>hook/khook.c\<close>), \<open>Hook\<close> (\<open>hook/main.c\<close>), \<open>Ftrace\<close> (\<open>ftrace/main.c\<close>): for every history of
    probe hits the pool of parameters refines a table of the mounts under way, and the leaks are
    counted; the overrun in the write probe; a hooked function behaves as the original.
  \<^item> \<open>Workfifo\<close>, \<open>Thread_Demo\<close> (\<open>thread/\<close>), \<open>Tasklet\<close> (\<open>tasklet/main.c\<close>), \<open>Timers\<close> (\<open>second/\<close>): work,
    threads, interrupts and timers interleaved with load and unload: order of processing, counts,
    distances in time, and two unload functions that go wrong.
  \<^item> \<open>Netlink\<close> (\<open>netlink/main.c\<close>), \<open>Netlink_Client\<close> (\<open>netlink/netlink.c\<close>), \<open>Bio\<close> (\<open>bio/\<close>), \<open>Hello\<close>
    (\<open>hello/\<close>): the answers to messages, the program that asks, the sector written and read back, and
    the first example. At the end of this theory the two sides of the netlink example are put together.

  \<^bold>\<open>Not modelled.\<close> \<open>vfs/main.c\<close> does not compile. The Go programs are clients that only do I/O. The text
  around the values in messages, log levels and allocation flags are left out, as are the exit
  functions that only print. Where the kernel itself would act (scheduling of tasks and work,
  interrupts, timers) the model takes every order it may choose.
\<close>

section \<open>The two sides of the netlink example\<close>

text \<open>
  The socket layer between the client and the module: a message that is sent reaches the receive
  callback of the module at once; what the module sends waits under its port, framed by a header and
  zero bytes for alignment. \<open>frame\<close> stands for the kernel's framing.
\<close>

definition parse_request :: "byte list \<Rightarrow> sk_buff" where
  "parse_request bytes =
     \<lparr>skb_len = length bytes, nlmsg_pid = sint (bytes_id (take 4 (drop 12 bytes))),
      nlmsg_seq = sint (bytes_id (take 4 (drop 8 bytes)))\<rparr>"

definition kernel_sendto :: "netlink_kernel \<Rightarrow> byte list \<Rightarrow> netlink_state \<Rightarrow> (netlink_state, int) run" where
  "kernel_sendto K bytes k = run_bind (recv_cb K (parse_request bytes) k) (\<lambda>k1 _. Ret k1 (int (length bytes)))"

definition kernel_recvfrom :: "(byte list \<Rightarrow> byte list) \<Rightarrow> u32 \<Rightarrow> nat \<Rightarrow> netlink_state \<Rightarrow> byte list option" where
  "kernel_recvfrom frame port n k =
     map_option (\<lambda>m. take n (frame (snd m))) (List.find (\<lambda>m. fst m = sint port) (Netlink.sent k))"

definition framing :: "(byte list \<Rightarrow> byte list) \<Rightarrow> bool" where
  "framing frame \<longleftrightarrow> (\<forall>t. \<exists>h z. frame t = h @ t @ replicate z 0 \<and> length h = 16 \<and> z < 4)"

definition demo_frame :: "byte list \<Rightarrow> byte list" where
  "demo_frame t = nlmsghdr (of_nat (16 + length t)) 0 0 @ t @ replicate ((4 - length t mod 4) mod 4) 0"

definition demo_socket :: "netlink_state socket_api" where
  "demo_socket = \<lparr>malloc = next_addr, junk = (\<lambda>_. replicate 1040 205), socket_ret = 3, bind_ret = 0,
     sendto = kernel_sendto demo_netlink, recvfrom = kernel_recvfrom demo_frame\<rparr>"

lemma parse_header:
  "parse_request (nlmsghdr l s p @ rest) = \<lparr>skb_len = 16 + length rest, nlmsg_pid = sint p, nlmsg_seq = sint s\<rparr>"
proof -
  have "take 4 (drop 12 (nlmsghdr l s p @ rest)) = id_bytes p" "take 4 (drop 8 (nlmsghdr l s p @ rest)) = id_bytes s"
    by (simp_all add: nlmsghdr_def)
  then show ?thesis by (simp add: parse_request_def bytes_id_bytes)
qed

lemma hello_userspace_text: "0 \<notin> set hello_userspace" "length hello_userspace = 15"
  by (simp_all add: hello_userspace_def)

interpretation demo_client: client_libc demo_socket
proof -
  have "client_libc_axioms demo_socket" by unfold_locales (simp add: demo_socket_def NLMSG_SPACE_MAX_def MAX_PLOAD_def)
  then show "client_libc demo_socket" by (simp add: client_libc_def demo_socket_def next_addr.total_alloc_axioms)
qed

text \<open>
  C24. A request of the client reaches the module and its answer comes back: the client prints the
  module's text and returns 0 with the socket closed, and the module has sent exactly that answer.
  Both sides lose one block, the parameters that the client never frees and those that the module
  allocates for the request.
\<close>

theorem netlink_exchange:
  assumes "netlink_api K" "put_ok K" "0 \<le> unicast K 50" "netlink_fd k" "Netlink.sent k = []"
    and "client_libc S" "socket_ret S \<noteq> - 1" "bind_ret S = 0"
    and "sendto S = kernel_sendto K" "recvfrom S = kernel_recvfrom frame" "framing frame"
  shows "\<exists>k1 st1 a. Netlink_Client.main S k st = Ret (k1, st1) 0 \<and> printed st1 = printed st @ [LogStr hello_userspace] \<and>
    Netlink.sent k1 = [(50, hello_userspace)] \<and> length (hblocks k1) = Suc (length (hblocks k)) \<and>
    hblocks st1 = a # hblocks st \<and> \<not> sock_open st1"
proof -
  obtain par data nlh request rest st0 where run: "Netlink_Client.main S k st = exchange S nlh request data k st0"
    and req: "request = nlmsghdr (of_nat NLMSG_SPACE_MAX) 0 local_pid @ rest" "length request = NLMSG_SPACE_MAX"
    and st0: "hblocks st0 = nlh # data # par # hblocks st" "distinct [nlh, data, par]" "printed st0 = printed st"
    using client_libc.main_sends [OF assms(6-8)] by blast
  have p: "parse_request request = \<lparr>skb_len = 1040, nlmsg_pid = 50, nlmsg_seq = 0\<rparr>"
    using req parse_header [of "of_nat NLMSG_SPACE_MAX" 0 local_pid rest]
    by (simp add: local_pid_def NLMSG_SPACE_MAX_def MAX_PLOAD_def)
  have ans: "answers K [parse_request request] = [(50, hello_userspace)]" "length (Netlink.requests [parse_request request]) = 1"
    using assms(2,3) by (simp_all add: p answers_def Netlink.requests_def NLMSG_SPACE_0_def)
  obtain k1 where k1: "recv_cb K (parse_request request) k = Ret k1 ()" "Netlink.sent k1 = [(50, hello_userspace)]"
    "length (hblocks k1) = Suc (length (hblocks k))"
    using netlink_api.recv_ok [OF assms(1,4), of "parse_request request"] unfolding ans assms(5) by auto
  have snd: "sendto S request k = Ret k1 1040" using k1(1) req(2) assms(9)
    by (simp add: kernel_sendto_def NLMSG_SPACE_MAX_def MAX_PLOAD_def)
  obtain h z where f: "frame hello_userspace = h @ hello_userspace @ replicate z 0" "length h = 16" "z < 4"
    using assms(11) unfolding framing_def by blast
  have rcv: "recvfrom S local_pid NLMSG_SPACE_MAX k1 = Some (h @ hello_userspace @ replicate z 0)"
    using f k1(2) hello_userspace_text(2) assms(10)
    by (simp add: kernel_recvfrom_def local_pid_def NLMSG_SPACE_MAX_def MAX_PLOAD_def)
  have "\<exists>st1. exchange S nlh request data k st0 = Ret (k1, st1) 0 \<and> printed st1 = printed st0 @ [LogStr hello_userspace] \<and>
      hblocks st1 = remove1 nlh (remove1 data (hblocks st0)) \<and> \<not> sock_open st1"
    using st0 f(2,3) hello_userspace_text by (intro exchange_answered [OF snd _ rcv]) (auto simp: MAX_PLOAD_def)
  then show ?thesis using run st0 k1(2,3) by auto
qed

theorem netlink_exchange_witness:
  "\<exists>k1 st1. Netlink_Client.main demo_socket (fst (test_netlink_init demo_netlink netlink_start))
      \<lparr>hblocks = [], hcalls = 0, sock_open = False, printed = []\<rparr> = Ret (k1, st1) 0 \<and> printed st1 = [LogStr hello_userspace]"
proof -
  let ?k = "fst (test_netlink_init demo_netlink netlink_start)"
  let ?st = "\<lparr>hblocks = [], hcalls = 0, sock_open = False, printed = []\<rparr>"
  have "framing demo_frame"
    unfolding framing_def
  proof
    fix t
    show "\<exists>h z. demo_frame t = h @ t @ replicate z 0 \<and> length h = 16 \<and> z < 4"
      by (intro exI [of _ "nlmsghdr (of_nat (16 + length t)) 0 0"] exI [of _ "(4 - length t mod 4) mod 4"]) (simp add: demo_frame_def)
  qed
  moreover have "put_ok demo_netlink" "0 \<le> unicast demo_netlink 50" "netlink_fd ?k" "Netlink.sent ?k = []"
    "socket_ret demo_socket \<noteq> - 1" "bind_ret demo_socket = 0" "sendto demo_socket = kernel_sendto demo_netlink"
    "recvfrom demo_socket = kernel_recvfrom demo_frame"
    by (simp_all add: demo_netlink_def test_netlink_init_def netlink_start_def demo_socket_def)
  ultimately obtain k1 st1 where "Netlink_Client.main demo_socket ?k ?st = Ret (k1, st1) 0"
    "printed st1 = printed ?st @ [LogStr hello_userspace]"
    using netlink_exchange [OF Netlink.demo.netlink_api_axioms _ _ _ _ demo_client.client_libc_axioms, where st = ?st and frame = demo_frame]
    by blast
  then show ?thesis by auto
qed

end
